(* ===== verification/MD_Prelude.thy ===== *)
theory MD_Prelude
  imports Main "HOL-Library.Word" "HOL-Library.Monad_Syntax"
begin

text \<open>
  Shared vocabulary of the development: the machine integers of the C++ sources, bytes and
  byte orders, checked access to byte buffers, and the generic facts on words and lists
  that the component theories use.

  Unsigned types are words of their width. The signed types \<^verbatim>\<open>int32_t\<close> and \<^verbatim>\<open>int64_t\<close>
  are words too, read through \<^const>\<open>sint\<close> (two's complement, as C++20 fixes it), so that
  the \<^verbatim>\<open>static_cast\<close>s between a signed type and the unsigned type of the same width are
  the identity on the bits.
\<close>

unbundle bit_operations_syntax

type_synonym u8 = "8 word"
type_synonym u16 = "16 word"
type_synonym u32 = "32 word"
type_synonym u64 = "64 word"
type_synonym size_t = "64 word"
type_synonym i32 = "32 word"
type_synonym i64 = "64 word"
type_synonym bytes = "u8 list"

named_theorems codec_simps \<open>layout and round-trip facts of byte codecs\<close>
named_theorems queue_simps \<open>what queue operations do to the queue's contents\<close>
named_theorems inv_intros \<open>operations preserve their component's invariant\<close>

section \<open>Words and natural numbers\<close>

lemma of_nat_unat_id [simp]: "of_nat (unat w) = (w :: 'a::len word)"
  by (metis of_nat_unat ucast_id)

lemma unat_of_nat_small: "k < 2 ^ LENGTH('a) \<Longrightarrow> unat (of_nat k :: 'a::len word) = k"
  by (simp only: unat_of_nat mod_less)

lemma unat_of_nat_size: "k < 2 ^ 64 \<Longrightarrow> unat (of_nat k :: size_t) = k"
  by (rule unat_of_nat_small) simp

lemma unat_less_size: "unat (w :: size_t) < 2 ^ 64"
  using unsigned_less [of w, where ?'a = nat] by simp

section \<open>Indices modulo a capacity\<close>

lemma mod_add_neq:
  fixes a i j n :: nat
  assumes "i < j" and "j < n"
  shows "(a + i) mod n \<noteq> (a + j) mod n"
proof
  assume "(a + i) mod n = (a + j) mod n"
  with assms(1) have "n dvd (a + j) - (a + i)"
    by (subst mod_eq_dvd_iff_nat [symmetric]) auto
  with assms show False by (auto dest: dvd_imp_le)
qed

section \<open>Byte representation of words\<close>

text \<open>The \<open>n\<close> low bytes of a word, least significant first, and back.\<close>

definition to_le :: "nat \<Rightarrow> 'a::len word \<Rightarrow> bytes" where
  "to_le n w = map (\<lambda>i. ucast (drop_bit (8 * i) w)) [0..<n]"

primrec from_le :: "bytes \<Rightarrow> 'a::len word" where
  "from_le [] = 0"
| "from_le (b # bs) = ucast b OR push_bit 8 (from_le bs)"

lemma length_to_le [simp]: "length (to_le n w) = n"
  by (simp add: to_le_def)

lemma nth_to_le [simp]: "i < n \<Longrightarrow> to_le n w ! i = ucast (drop_bit (8 * i) w)"
  by (simp add: to_le_def)

lemma bit_from_le:
  "bit (from_le bs :: 'a::len word) i \<longleftrightarrow>
     i < LENGTH('a) \<and> i div 8 < length bs \<and> bit (bs ! (i div 8)) (i mod 8)"
proof (induction bs arbitrary: i)
  case Nil
  then show ?case by simp
next
  case (Cons b bs)
  show ?case
  proof (cases "i < 8")
    case True
    then show ?thesis
      by (auto simp: bit_or_iff bit_push_bit_iff bit_ucast_iff)
  next
    case False
    then have "i div 8 = Suc ((i - 8) div 8)" and "i mod 8 = (i - 8) mod 8"
      by (simp_all add: le_div_geq le_mod_geq)
    moreover have "\<not> bit b i"
      using False bit_imp_le_length [of b i] by auto
    ultimately show ?thesis
      using False by (auto simp: bit_or_iff bit_push_bit_iff bit_ucast_iff Cons.IH)
  qed
qed

lemma from_le_to_le [codec_simps]:
  assumes "LENGTH('a) \<le> 8 * n"
  shows "from_le (to_le n w) = (w :: 'a::len word)"
proof (rule bit_word_eqI)
  fix i
  assume i: "i < LENGTH('a)"
  with assms have "i div 8 < n" by auto
  with i show "bit (from_le (to_le n w) :: 'a word) i \<longleftrightarrow> bit w i"
    by (simp add: bit_from_le bit_ucast_iff bit_drop_bit_eq)
qed

lemma to_le_from_le [codec_simps]:
  assumes "8 * length bs \<le> LENGTH('a)"
  shows "to_le (length bs) (from_le bs :: 'a::len word) = bs"
proof (rule nth_equalityI)
  show "length (to_le (length bs) (from_le bs :: 'a word)) = length bs"
    by simp
next
  fix i
  assume "i < length (to_le (length bs) (from_le bs :: 'a word))"
  then have i: "i < length bs" by simp
  show "to_le (length bs) (from_le bs :: 'a word) ! i = bs ! i"
  proof (rule bit_word_eqI)
    fix j
    assume j: "j < LENGTH(8)"
    with i assms have "8 * i + j < LENGTH('a)" by auto
    with i j show "bit (to_le (length bs) (from_le bs :: 'a word) ! i) j \<longleftrightarrow> bit (bs ! i) j"
      by (simp add: bit_from_le bit_ucast_iff bit_drop_bit_eq add.commute)
  qed
qed

section \<open>Byte order of the host\<close>

text \<open>
  The sources select their conversion functions on \<^verbatim>\<open>__BYTE_ORDER__\<close>. The host's byte order
  decides both that selection and what \<^verbatim>\<open>memcpy\<close> of an integer puts in memory.
\<close>

datatype endian = Little | Big

primrec obj_bytes :: "endian \<Rightarrow> nat \<Rightarrow> 'a::len word \<Rightarrow> bytes" where
  "obj_bytes Little n w = to_le n w"
| "obj_bytes Big n w = rev (to_le n w)"

primrec obj_value :: "endian \<Rightarrow> bytes \<Rightarrow> 'a::len word" where
  "obj_value Little bs = from_le bs"
| "obj_value Big bs = from_le (rev bs)"

text \<open>\<^verbatim>\<open>__builtin_bswap32\<close> and \<^verbatim>\<open>__builtin_bswap64\<close>: the bytes in reverse order.\<close>

definition bswap :: "nat \<Rightarrow> 'a::len word \<Rightarrow> 'a word" where
  "bswap n w = from_le (rev (to_le n w))"

lemma length_obj_bytes [simp]: "length (obj_bytes e n w) = n"
  by (cases e) simp_all

lemma to_le_bswap:
  "8 * n = LENGTH('a) \<Longrightarrow> to_le n (bswap n (w :: 'a::len word)) = rev (to_le n w)"
  using to_le_from_le [where 'a = 'a, of "rev (to_le n w)"] by (simp add: bswap_def)

lemma bswap_from_le:
  "8 * length bs = LENGTH('a) \<Longrightarrow> bswap (length bs) (from_le bs :: 'a::len word) = from_le (rev bs)"
  by (simp add: bswap_def to_le_from_le)

lemma bswap_bswap [simp]:
  "8 * n = LENGTH('a) \<Longrightarrow> bswap n (bswap n w) = (w :: 'a::len word)"
  by (simp add: bswap_def [of n "bswap n w"] to_le_bswap from_le_to_le)

section \<open>Checked access to byte buffers\<close>

text \<open>
  \<^verbatim>\<open>memcpy\<close> into and out of a buffer. Copying past its end is undefined behaviour in C++;
  here it is \<^const>\<open>None\<close>, so that a theorem that an operation returns \<^const>\<open>Some\<close> says
  that it stays inside the buffer.
\<close>

definition mem_write :: "bytes \<Rightarrow> nat \<Rightarrow> bytes \<Rightarrow> bytes option" where
  "mem_write buf off bs =
     (if off + length bs \<le> length buf
      then Some (take off buf @ bs @ drop (off + length bs) buf) else None)"

definition mem_read :: "bytes \<Rightarrow> nat \<Rightarrow> nat \<Rightarrow> bytes option" where
  "mem_read buf off n = (if off + n \<le> length buf then Some (take n (drop off buf)) else None)"

lemma mem_write_append:
  assumes "length bs \<le> length rest"
  shows "mem_write (pre @ rest) (length pre) bs = Some (pre @ bs @ drop (length bs) rest)"
  using assms by (simp add: mem_write_def)

lemma mem_read_append:
  "mem_read (pre @ mid @ post) (length pre) (length mid) = Some mid"
  by (simp add: mem_read_def)

lemma mem_read_length: "mem_read buf off n = Some bs \<Longrightarrow> length bs = n"
  by (auto simp: mem_read_def split: if_splits)

end
