(* ===== verification/Protocol.thy ===== *)
theory Protocol
  imports MD_Prelude
begin

text \<open>
  The wire format of a market data message: \<^verbatim>\<open>src/src/protocol/md_message.hpp\<close>,
  \<^verbatim>\<open>encode.hpp\<close> and \<^verbatim>\<open>decode.hpp\<close>. Every operation takes the byte order of the host it
  runs on, which the sources fix by \<^verbatim>\<open>#if __BYTE_ORDER__\<close>. Offsets never exceed
  \<open>kWireSize\<close>, so they are natural numbers.
\<close>

section \<open>Messages\<close>

record MarketDataMsg =
  seq_num :: u64
  symbol_id :: u32
  exchange_ts :: i64
  bid_price :: i64
  ask_price :: i64
  bid_size :: i32
  ask_size :: i32

text \<open>A value-initialised message, \<^verbatim>\<open>MarketDataMsg msg{}\<close>.\<close>

definition zero_msg :: MarketDataMsg where
  "zero_msg = \<lparr>seq_num = 0, symbol_id = 0, exchange_ts = 0, bid_price = 0, ask_price = 0,
     bid_size = 0, ask_size = 0\<rparr>"

section \<open>Encoding\<close>

definition kWireSize :: nat where
  "kWireSize = 44"

primrec host_to_be32 :: "endian \<Rightarrow> u32 \<Rightarrow> u32" where
  "host_to_be32 Little v = bswap 4 v"
| "host_to_be32 Big v = v"

primrec host_to_be64 :: "endian \<Rightarrow> u64 \<Rightarrow> u64" where
  "host_to_be64 Little v = bswap 8 v"
| "host_to_be64 Big v = v"

primrec be32_to_host :: "endian \<Rightarrow> u32 \<Rightarrow> u32" where
  "be32_to_host Little v = bswap 4 v"
| "be32_to_host Big v = v"

primrec be64_to_host :: "endian \<Rightarrow> u64 \<Rightarrow> u64" where
  "be64_to_host Little v = bswap 8 v"
| "be64_to_host Big v = v"

text \<open>
  The writers return the buffer and the advanced offset; \<^const>\<open>None\<close> when the copy would
  leave the buffer.
\<close>

definition write_u64 :: "endian \<Rightarrow> bytes \<Rightarrow> nat \<Rightarrow> u64 \<Rightarrow> (bytes \<times> nat) option" where
  "write_u64 e buff off v =
     do { buff' \<leftarrow> mem_write buff off (obj_bytes e 8 (host_to_be64 e v));
          Some (buff', off + 8) }"

definition write_u32 :: "endian \<Rightarrow> bytes \<Rightarrow> nat \<Rightarrow> u32 \<Rightarrow> (bytes \<times> nat) option" where
  "write_u32 e buff off v =
     do { buff' \<leftarrow> mem_write buff off (obj_bytes e 4 (host_to_be32 e v));
          Some (buff', off + 4) }"

definition write_i64 :: "endian \<Rightarrow> bytes \<Rightarrow> nat \<Rightarrow> i64 \<Rightarrow> (bytes \<times> nat) option" where
  "write_i64 e buff off v =
     do { buff' \<leftarrow> mem_write buff off (obj_bytes e 8 (host_to_be64 e v));
          Some (buff', off + 8) }"

text \<open>
  \<open>encode\<close> default-initialises its \<^verbatim>\<open>std::array\<close>, so the buffer starts with arbitrary
  bytes: the argument \<open>out\<close>.
\<close>

definition encode :: "endian \<Rightarrow> bytes \<Rightarrow> MarketDataMsg \<Rightarrow> bytes option" where
  "encode e out msg =
     do { (out, off) \<leftarrow> write_u64 e out 0 (seq_num msg);
          (out, off) \<leftarrow> write_u32 e out off (symbol_id msg);
          (out, off) \<leftarrow> write_i64 e out off (exchange_ts msg);
          (out, off) \<leftarrow> write_i64 e out off (bid_price msg);
          (out, off) \<leftarrow> write_i64 e out off (ask_price msg);
          (out, off) \<leftarrow> write_u32 e out off (bid_size msg);
          (out, off) \<leftarrow> write_u32 e out off (ask_size msg);
          Some out }"

section \<open>Decoding\<close>

definition read_u32 :: "endian \<Rightarrow> bytes \<Rightarrow> nat \<Rightarrow> (u32 \<times> nat) option" where
  "read_u32 e data off =
     do { be \<leftarrow> mem_read data off 4;
          Some (be32_to_host e (obj_value e be), off + 4) }"

definition read_u64 :: "endian \<Rightarrow> bytes \<Rightarrow> nat \<Rightarrow> (u64 \<times> nat) option" where
  "read_u64 e data off =
     do { be \<leftarrow> mem_read data off 8;
          Some (be64_to_host e (obj_value e be), off + 8) }"

definition read_i64 :: "endian \<Rightarrow> bytes \<Rightarrow> nat \<Rightarrow> (i64 \<times> nat) option" where
  "read_i64 e data off =
     do { be \<leftarrow> mem_read data off 8;
          Some (be64_to_host e (obj_value e be), off + 8) }"

text \<open>
  \<open>decode e data len msg\<close> returns the C++ result and the out-parameter \<open>msg\<close>; \<open>data\<close> is
  what the pointer points to, \<open>len\<close> what the caller says of it. \<^const>\<open>None\<close> is a read
  outside \<open>data\<close>.
\<close>

definition decode ::
  "endian \<Rightarrow> bytes \<Rightarrow> nat \<Rightarrow> MarketDataMsg \<Rightarrow> (bool \<times> MarketDataMsg) option" where
  "decode e data len msg =
     (if len < kWireSize then Some (False, msg)
      else do { (v1, off) \<leftarrow> read_u64 e data 0;
                (v2, off) \<leftarrow> read_u32 e data off;
                (v3, off) \<leftarrow> read_i64 e data off;
                (v4, off) \<leftarrow> read_i64 e data off;
                (v5, off) \<leftarrow> read_i64 e data off;
                (v6, off) \<leftarrow> read_u32 e data off;
                (v7, off) \<leftarrow> read_u32 e data off;
                Some (True, msg\<lparr>seq_num := v1, symbol_id := v2, exchange_ts := v3,
                  bid_price := v4, ask_price := v5, bid_size := v6, ask_size := v7\<rparr>) })"

section \<open>The big-endian reference codec\<close>

text \<open>Network byte order, written down without reference to a host.\<close>

definition be :: "nat \<Rightarrow> 'a::len word \<Rightarrow> bytes" where
  "be n w = rev (to_le n w)"

definition wire_layout :: "MarketDataMsg \<Rightarrow> bytes" where
  "wire_layout m = be 8 (seq_num m) @ be 4 (symbol_id m) @ be 8 (exchange_ts m) @
     be 8 (bid_price m) @ be 8 (ask_price m) @ be 4 (bid_size m) @ be 4 (ask_size m)"

lemma length_be [simp]: "length (be n w) = n"
  by (simp add: be_def)

lemma length_wire_layout [simp]: "length (wire_layout m) = kWireSize"
  by (simp add: wire_layout_def kWireSize_def)

text \<open>On either host, the bytes that reach memory are those of network byte order.\<close>

lemma obj_bytes_be64 [codec_simps]: "obj_bytes e 8 (host_to_be64 e v) = be 8 v"
  by (cases e) (simp_all add: be_def to_le_bswap)

lemma obj_bytes_be32 [codec_simps]: "obj_bytes e 4 (host_to_be32 e v) = be 4 v"
  by (cases e) (simp_all add: be_def to_le_bswap)

lemma obj_value_be64 [codec_simps]: "length bs = 8 \<Longrightarrow> be64_to_host e (obj_value e bs) = from_le (rev bs)"
  using bswap_from_le [where 'a = 64, of bs] by (cases e) simp_all

lemma obj_value_be32 [codec_simps]: "length bs = 4 \<Longrightarrow> be32_to_host e (obj_value e bs) = from_le (rev bs)"
  using bswap_from_le [where 'a = 32, of bs] by (cases e) simp_all

lemma from_le_rev_be [codec_simps]:
  "LENGTH('a) \<le> 8 * n \<Longrightarrow> from_le (rev (be n w)) = (w :: 'a::len word)"
  by (simp add: be_def from_le_to_le)

lemma be_from_le_rev [codec_simps]:
  "8 * length bs \<le> LENGTH('a) \<Longrightarrow> be (length bs) (from_le (rev bs) :: 'a::len word) = bs"
  using to_le_from_le [where 'a = 'a, of "rev bs"] by (simp add: be_def)

section \<open>Encoding\<close>

lemma write_step:
  assumes "off = length pre"
  shows "8 \<le> length rest \<Longrightarrow>
      write_u64 e (pre @ rest) off v = Some ((pre @ be 8 v) @ drop 8 rest, off + 8)"
    and "8 \<le> length rest \<Longrightarrow>
      write_i64 e (pre @ rest) off v = Some ((pre @ be 8 v) @ drop 8 rest, off + 8)"
    and "4 \<le> length rest \<Longrightarrow>
      write_u32 e (pre @ rest) off w = Some ((pre @ be 4 w) @ drop 4 rest, off + 4)"
  using assms
  by (simp_all add: write_u64_def write_i64_def write_u32_def obj_bytes_be64 obj_bytes_be32
      mem_write_append)

lemma encode_long:
  assumes "kWireSize \<le> length out"
  shows "encode e out m = Some (wire_layout m @ drop kWireSize out)"
proof -
  note len = assms [unfolded kWireSize_def]
  have "write_u64 e ([] @ out) 0 v = Some (([] @ be 8 v) @ drop 8 out, 0 + 8)" for v
    using len by (subst write_step) simp_all
  then have first: "write_u64 e out 0 v = Some (be 8 v @ drop 8 out, 8)" for v
    by simp
  show ?thesis
    using len by (simp add: encode_def first write_step wire_layout_def kWireSize_def flip: append_assoc)
qed

lemma encode_eq_layout: "length out = kWireSize \<Longrightarrow> encode e out m = Some (wire_layout m)"
  by (simp add: encode_long)

lemma encode_needs_room: "encode e out m = Some out' \<Longrightarrow> kWireSize \<le> length out"
  by (auto simp: encode_def write_u64_def write_u32_def write_i64_def mem_write_def kWireSize_def bind_eq_Some_conv
      split: if_splits)

text \<open>
  C28. What \<open>encode\<close> writes: the seven fields in declaration order in network byte order, 44
  bytes in all, whatever the byte order of the sending host and whatever the uninitialised
  output held before. It writes nothing behind these bytes, and every write stays inside the
  output exactly if that has at least 44 bytes; with fewer, some write leaves it.
\<close>

theorem encode_wire_format:
  "encode e out m = (if length out < kWireSize then None else Some (wire_layout m @ drop kWireSize out)) \<and>
   length (wire_layout m) = kWireSize"
  using encode_long [of out e m] encode_needs_room [of e out m]
  by (cases "kWireSize \<le> length out"; cases "encode e out m") auto

section \<open>Decoding\<close>

lemma read_step:
  assumes "off = length pre"
  shows "length bs = 8 \<Longrightarrow> read_u64 e (pre @ bs @ post) off = Some (from_le (rev bs), off + 8)"
    and "length bs = 8 \<Longrightarrow> read_i64 e (pre @ bs @ post) off = Some (from_le (rev bs), off + 8)"
    and "length bs = 4 \<Longrightarrow> read_u32 e (pre @ bs @ post) off = Some (from_le (rev bs), off + 4)"
  using assms mem_read_append [of pre bs post]
  by (simp_all add: read_u64_def read_i64_def read_u32_def obj_value_be64 obj_value_be32)

text \<open>The seven fields of a 44-byte datagram, as byte strings.\<close>

definition msg_of_fields ::
  "bytes \<Rightarrow> bytes \<Rightarrow> bytes \<Rightarrow> bytes \<Rightarrow> bytes \<Rightarrow> bytes \<Rightarrow> bytes \<Rightarrow> MarketDataMsg" where
  "msg_of_fields a b c d f g h = \<lparr>seq_num = from_le (rev a), symbol_id = from_le (rev b),
     exchange_ts = from_le (rev c), bid_price = from_le (rev d), ask_price = from_le (rev f),
     bid_size = from_le (rev g), ask_size = from_le (rev h)\<rparr>"

lemma decode_fields:
  assumes "length a = 8" "length b = 4" "length c = 8" "length d = 8" "length f = 8"
    and "length g = 4" "length h = 4" and "kWireSize \<le> len"
  shows "decode e (a @ b @ c @ d @ f @ g @ h @ post) len m =
    Some (True, msg_of_fields a b c d f g h)"
proof -
  let ?data = "a @ b @ c @ d @ f @ g @ h @ post"
  have 1: "read_u64 e ?data 0 = Some (from_le (rev a), 8)"
    using read_step(1) [of 0 "[]" a] assms by simp
  have 2: "read_u32 e ?data 8 = Some (from_le (rev b), 12)"
    using read_step(3) [of 8 a b] assms by simp
  have 3: "read_i64 e ?data 12 = Some (from_le (rev c), 20)"
    using read_step(2) [of 12 "a @ b" c] assms by simp
  have 4: "read_i64 e ?data 20 = Some (from_le (rev d), 28)"
    using read_step(2) [of 20 "a @ b @ c" d] assms by simp
  have 5: "read_i64 e ?data 28 = Some (from_le (rev f), 36)"
    using read_step(2) [of 28 "a @ b @ c @ d" f] assms by simp
  have 6: "read_u32 e ?data 36 = Some (from_le (rev g), 40)"
    using read_step(3) [of 36 "a @ b @ c @ d @ f" g] assms by simp
  have 7: "read_u32 e ?data 40 = Some (from_le (rev h), 44)"
    using read_step(3) [of 40 "a @ b @ c @ d @ f @ g" h] assms by simp
  show ?thesis
    using assms(8) by (simp add: decode_def 1 2 3 4 5 6 7 msg_of_fields_def)
qed

lemma msg_of_fields_be [simp]:
  "msg_of_fields (be 8 (seq_num m)) (be 4 (symbol_id m)) (be 8 (exchange_ts m))
     (be 8 (bid_price m)) (be 8 (ask_price m)) (be 4 (bid_size m)) (be 4 (ask_size m)) = m"
  by (simp add: msg_of_fields_def from_le_rev_be)

lemma decode_wire_layout:
  "kWireSize \<le> len \<Longrightarrow> decode e (wire_layout m @ post) len m0 = Some (True, m)"
  by (simp add: wire_layout_def decode_fields)

lemma split_wire:
  assumes "kWireSize \<le> length data"
  obtains a b c d f g h post where "data = a @ b @ c @ d @ f @ g @ h @ post"
    "length a = 8" "length b = 4" "length c = 8" "length d = 8" "length f = 8"
    "length g = 4" "length h = 4"
proof
  show "data = take 8 data @ take 4 (drop 8 data) @ take 8 (drop 12 data) @
      take 8 (drop 20 data) @ take 8 (drop 28 data) @ take 4 (drop 36 data) @
      take 4 (drop 40 data) @ drop 44 data"
    by (simp flip: take_add append_assoc)
qed (use assms in \<open>simp_all add: kWireSize_def\<close>)

text \<open>The message a buffer of at least 44 bytes holds.\<close>

definition wire_msg :: "bytes \<Rightarrow> MarketDataMsg" where
  "wire_msg data = snd (the (decode Little data kWireSize zero_msg))"

lemma decode_wire_msg:
  assumes "kWireSize \<le> length data" and "kWireSize \<le> len"
  shows "decode e data len m = Some (True, wire_msg data)"
proof -
  obtain a b c d f g h post where "data = a @ b @ c @ d @ f @ g @ h @ post"
    "length a = 8" "length b = 4" "length c = 8" "length d = 8" "length f = 8"
    "length g = 4" "length h = 4"
    using assms(1) by (rule split_wire)
  then show ?thesis
    using assms(2) by (simp add: wire_msg_def decode_fields)
qed

lemma wire_msg_layout [simp]: "wire_msg (wire_layout m @ post) = m"
  by (simp add: wire_msg_def decode_wire_layout)

lemma wire_msg_layout_only [simp]: "wire_msg (wire_layout m) = m"
  using wire_msg_layout [of m "[]"] by simp

text \<open>
  C5. Round trip across hosts: whatever the byte orders of sender and receiver and whatever
  the output array held before, decoding what was encoded gives back the message, also when
  the receiver's buffer holds further bytes after it.
\<close>

theorem decode_encode:
  assumes "length out = kWireSize" and "kWireSize \<le> len"
  shows "\<exists>wire. encode e out m = Some wire \<and> decode e' (wire @ tail) len m0 = Some (True, m)"
  using assms by (simp add: encode_eq_layout decode_wire_layout)

theorem decode_encode_witness:
  "\<exists>wire. encode Little (replicate kWireSize 7) (zero_msg\<lparr>seq_num := 5\<rparr>) = Some wire \<and>
     decode Big (wire @ [1, 2, 3]) 47 zero_msg = Some (True, zero_msg\<lparr>seq_num := 5\<rparr>)"
  by (rule decode_encode) (simp_all add: kWireSize_def)

text \<open>
  C27. \<open>decode\<close> is total and safe: when \<open>len\<close> does not exceed what the pointer points to, it
  reads inside the buffer, it fails exactly on fewer than 44 bytes and then leaves the
  message alone, and a message it accepts encodes to the first 44 bytes it read. So every
  44-byte datagram is the encoding of exactly one message.
\<close>

theorem decode_sound:
  assumes "len \<le> length data" and "length out = kWireSize"
  shows "\<exists>m'. decode e data len m = Some (kWireSize \<le> len, m') \<and>
    (if kWireSize \<le> len then encode e' out m' = Some (take kWireSize data) else m' = m)"
proof (cases "kWireSize \<le> len")
  case False
  then show ?thesis by (simp add: decode_def)
next
  case True
  with assms have "kWireSize \<le> length data" by simp
  then obtain a b c d f g h post where data: "data = a @ b @ c @ d @ f @ g @ h @ post"
    and l: "length a = 8" "length b = 4" "length c = 8" "length d = 8" "length f = 8"
      "length g = 4" "length h = 4"
    by (rule split_wire)
  have be8: "be 8 (from_le (rev bs) :: 64 word) = bs" if "length bs = 8" for bs
    using be_from_le_rev [where 'a = 64, of bs] that by simp
  have be4: "be 4 (from_le (rev bs) :: 32 word) = bs" if "length bs = 4" for bs
    using be_from_le_rev [where 'a = 32, of bs] that by simp
  have "wire_layout (msg_of_fields a b c d f g h) = take kWireSize data"
    using l by (simp add: data wire_layout_def msg_of_fields_def be8 be4 kWireSize_def)
  with True show ?thesis
    using assms(2) l by (simp add: data decode_fields encode_eq_layout)
qed

theorem decode_sound_witness:
  "\<exists>m'. decode Little (replicate 50 9) 44 zero_msg = Some (kWireSize \<le> 44, m') \<and>
    (if kWireSize \<le> 44 then encode Big (replicate kWireSize 0) m' =
       Some (take kWireSize (replicate 50 9)) else m' = zero_msg)"
  by (rule decode_sound) simp_all

end
