(* ===== verification/Fifo_Spec.thy ===== *)
theory Fifo_Spec
  imports MD_Prelude
begin

text \<open>
  The contract of a bounded first-in first-out queue, as its clients use it: a push that
  reports whether it stored the element, a pop that reports whether there was one. The
  abstract queue is the list of its elements, oldest first, and a capacity. The second
  contract is that of a queue whose callers wait and which can be closed.
\<close>

datatype 'a fifo_op = Push 'a | Pop

datatype 'a fifo_out = Pushed bool | Popped "'a option"

text \<open>Running a sequence of operations on an implementation.\<close>

fun run_ops ::
  "('q \<Rightarrow> 'a \<Rightarrow> bool \<times> 'q) \<Rightarrow> ('q \<Rightarrow> 'a option \<times> 'q) \<Rightarrow> 'q \<Rightarrow> 'a fifo_op list \<Rightarrow>
     'a fifo_out list \<times> 'q" where
  "run_ops push pop q [] = ([], q)"
| "run_ops push pop q (Push x # ops) =
     (let (ok, q') = push q x; (outs, q'') = run_ops push pop q' ops in (Pushed ok # outs, q''))"
| "run_ops push pop q (Pop # ops) =
     (let (r, q') = pop q; (outs, q'') = run_ops push pop q' ops in (Popped r # outs, q''))"

text \<open>The specification: the same operations on a list with a bound on its length.\<close>

definition spec_push :: "nat \<Rightarrow> 'a list \<Rightarrow> 'a \<Rightarrow> bool \<times> 'a list" where
  "spec_push n xs x = (if length xs < n then (True, xs @ [x]) else (False, xs))"

definition spec_pop :: "'a list \<Rightarrow> 'a option \<times> 'a list" where
  "spec_pop xs = (case xs of [] \<Rightarrow> (None, []) | y # ys \<Rightarrow> (Some y, ys))"

locale bounded_fifo =
  fixes push :: "'q \<Rightarrow> 'a \<Rightarrow> bool \<times> 'q"
    and pop :: "'q \<Rightarrow> 'a option \<times> 'q"
    and contents :: "'q \<Rightarrow> 'a list"
    and capacity :: "'q \<Rightarrow> nat"
    and inv :: "'q \<Rightarrow> bool"
  assumes bounded: "inv q \<Longrightarrow> length (contents q) \<le> capacity q"
    and inv_push: "inv q \<Longrightarrow> inv (snd (push q x))"
    and inv_pop: "inv q \<Longrightarrow> inv (snd (pop q))"
    and capacity_push: "inv q \<Longrightarrow> capacity (snd (push q x)) = capacity q"
    and capacity_pop: "inv q \<Longrightarrow> capacity (snd (pop q)) = capacity q"
    and push_spec: "inv q \<Longrightarrow>
      (fst (push q x), contents (snd (push q x))) = spec_push (capacity q) (contents q) x"
    and pop_spec: "inv q \<Longrightarrow> (fst (pop q), contents (snd (pop q))) = spec_pop (contents q)"
begin

lemmas laws = inv_push inv_pop capacity_push capacity_pop

lemma push_accepts: "inv q \<Longrightarrow> fst (push q x) \<longleftrightarrow> length (contents q) < capacity q"
  using push_spec [of q x] by (auto simp: spec_push_def split: if_splits)

lemma push_contents: "inv q \<Longrightarrow> contents (snd (push q x)) =
    (if length (contents q) < capacity q then contents q @ [x] else contents q)"
  using push_spec [of q x] by (auto simp: spec_push_def split: if_splits)

lemma pop_result: "inv q \<Longrightarrow> fst (pop q) = (case contents q of [] \<Rightarrow> None | x # _ \<Rightarrow> Some x)"
  using pop_spec [of q] by (auto simp: spec_pop_def split: list.splits)

lemma pop_contents: "inv q \<Longrightarrow> contents (snd (pop q)) = tl (contents q)"
  using pop_spec [of q] by (auto simp: spec_pop_def split: list.splits)

lemma pop_Some: "inv q \<Longrightarrow> pop q = (Some x, q') \<Longrightarrow>
    contents q = x # contents q' \<and> inv q' \<and> capacity q' = capacity q"
  using pop_spec [of q] inv_pop [of q] capacity_pop [of q]
  by (auto simp: spec_pop_def split: list.splits)

lemma pop_None: "inv q \<Longrightarrow> pop q = (None, q') \<Longrightarrow>
    contents q = [] \<and> contents q' = [] \<and> inv q' \<and> capacity q' = capacity q"
  using pop_spec [of q] inv_pop [of q] capacity_pop [of q]
  by (auto simp: spec_pop_def split: list.splits)

lemma push_True: "inv q \<Longrightarrow> push q x = (True, q') \<Longrightarrow>
    contents q' = contents q @ [x] \<and> inv q' \<and> capacity q' = capacity q"
  using push_spec [of q x] inv_push [of q x] capacity_push [of q x]
  by (auto simp: spec_push_def split: if_splits)

lemma push_False: "inv q \<Longrightarrow> push q x = (False, q') \<Longrightarrow>
    length (contents q) = capacity q \<and> contents q' = contents q \<and> inv q' \<and> capacity q' = capacity q"
  using push_spec [of q x] inv_push [of q x] capacity_push [of q x] bounded [of q]
  by (auto simp: spec_push_def split: if_splits)

text \<open>Simulation: a whole run of the implementation is the run of the specification.\<close>

lemma run_refines:
  "inv q \<Longrightarrow>
   run_ops (spec_push (capacity q)) spec_pop (contents q) ops =
     (fst (run_ops push pop q ops), contents (snd (run_ops push pop q ops))) \<and>
   inv (snd (run_ops push pop q ops))"
proof (induction ops arbitrary: q)
  case Nil
  then show ?case by simp
next
  case (Cons op ops)
  show ?case
  proof (cases op)
    case (Push x)
    obtain ok q' where p: "push q x = (ok, q')" by fastforce
    have "inv q'" and "capacity q' = capacity q"
      using Cons.prems inv_push [of q x] capacity_push [of q x] p by auto
    moreover have "spec_push (capacity q) (contents q) x = (ok, contents q')"
      using push_spec [OF Cons.prems, of x] p by simp
    ultimately show ?thesis
      using Cons.IH [of q'] by (auto simp: Push p split: prod.splits)
  next
    case Pop
    obtain r q' where p: "pop q = (r, q')" by fastforce
    have "inv q'" and "capacity q' = capacity q"
      using Cons.prems inv_pop [of q] capacity_pop [of q] p by auto
    moreover have "spec_pop (contents q) = (r, contents q')"
      using pop_spec [OF Cons.prems] p by simp
    ultimately show ?thesis
      using Cons.IH [of q'] by (auto simp: Pop p split: prod.splits)
  qed
qed

end

section \<open>Queues whose callers wait\<close>

text \<open>
  The calls of a client and their answers. The abstract queue is its list of elements with
  the flag that it is closed; \<^const>\<open>None\<close> means that the caller waits.
\<close>

datatype 'a wait_op = Enqueue 'a | Dequeue | Clear | Close | Is_full | Is_empty | Size | Room | Is_closed

datatype 'a wait_out = Enqueued bool | Dequeued "'a option" | Done | Said bool | Counted nat

fun spec_call :: "nat \<Rightarrow> 'a list \<times> bool \<Rightarrow> 'a wait_op \<Rightarrow> ('a wait_out \<times> ('a list \<times> bool)) option" where
  "spec_call n (xs, closed) (Enqueue x) =
     (if closed then Some (Enqueued False, xs, closed)
      else if length xs < n then Some (Enqueued True, xs @ [x], closed)
      else None)"
| "spec_call n (xs, closed) Dequeue =
     (case xs of
        y # ys \<Rightarrow> Some (Dequeued (Some y), ys, closed)
      | [] \<Rightarrow> if closed then Some (Dequeued None, xs, closed) else None)"
| "spec_call n (xs, closed) Clear = Some (Done, [], closed)"
| "spec_call n (xs, closed) Close = Some (Done, xs, True)"
| "spec_call n (xs, closed) Is_full = Some (Said (length xs = n), xs, closed)"
| "spec_call n (xs, closed) Is_empty = Some (Said (xs = []), xs, closed)"
| "spec_call n (xs, closed) Size = Some (Counted (length xs), xs, closed)"
| "spec_call n (xs, closed) Room = Some (Counted (n - length xs), xs, closed)"
| "spec_call n (xs, closed) Is_closed = Some (Said closed, xs, closed)"

text \<open>Calls one after the other, until they are done or one of them waits: the answers, the queue and whether the last call waits.\<close>

fun run_calls :: "('q \<Rightarrow> 'o \<Rightarrow> ('r \<times> 'q) option) \<Rightarrow> 'q \<Rightarrow> 'o list \<Rightarrow> 'r list \<times> 'q \<times> bool" where
  "run_calls step q [] = ([], q, False)"
| "run_calls step q (op # ops) =
     (case step q op of
        None \<Rightarrow> ([], q, True)
      | Some (r, q') \<Rightarrow> let (rs, q'', waits) = run_calls step q' ops in (r # rs, q'', waits))"

locale waiting_fifo =
  fixes step :: "'q \<Rightarrow> 'a wait_op \<Rightarrow> ('a wait_out \<times> 'q) option"
    and abs_q :: "'q \<Rightarrow> 'a list \<times> bool"
    and cap :: nat
    and inv :: "'q \<Rightarrow> bool"
  assumes step_waits: "inv q \<Longrightarrow> step q op = None \<Longrightarrow> spec_call cap (abs_q q) op = None"
    and step_returns: "inv q \<Longrightarrow> step q op = Some (r, q') \<Longrightarrow>
      inv q' \<and> spec_call cap (abs_q q) op = Some (r, abs_q q')"
begin

lemma calls_refine:
  "inv q \<Longrightarrow> run_calls step q ops = (rs, q', waits) \<Longrightarrow>
     run_calls (spec_call cap) (abs_q q) ops = (rs, abs_q q', waits) \<and> inv q'"
proof (induction ops arbitrary: q rs)
  case (Cons op ops)
  show ?case
  proof (cases "step q op")
    case None
    with Cons.prems step_waits [OF Cons.prems(1) None] show ?thesis by simp
  next
    case (Some x)
    obtain r q1 where x: "x = (r, q1)" by fastforce
    obtain rs1 where rs1: "run_calls step q1 ops = (rs1, q', waits)" "rs = r # rs1"
      using Cons.prems(2) Some x by (auto split: prod.splits)
    from step_returns [OF Cons.prems(1)] Some x have "inv q1" "spec_call cap (abs_q q) op = Some (r, abs_q q1)" by auto
    with Cons.IH [OF this(1) rs1(1)] rs1(2) show ?thesis by simp
  qed
qed simp

end

end
