(* ===== verification/Ring_Buffer.thy ===== *)
theory Ring_Buffer
  imports Fifo_Spec
begin

text \<open>
  The single-producer single-consumer ring of \<^verbatim>\<open>src/src/containers/ring_buffer.hpp\<close>, one
  operation at a time (theory \<open>Ring_Concurrent\<close> interleaves the loads and stores of two
  threads). The counters \<^verbatim>\<open>head_\<close> and \<^verbatim>\<open>tail_\<close> are 64-bit and are never reduced modulo the
  capacity: they wrap around at \<open>2 ^ 64\<close>, which the model keeps. The template argument
  \<^verbatim>\<open>Capacity\<close> is a constant field.
\<close>

section \<open>Operations\<close>

record 'a RingBuffer =
  Capacity :: size_t
  rb_head :: size_t
  rb_tail :: size_t
  rb_buffer :: "'a list"

text \<open>The two \<^verbatim>\<open>static_assert\<close>s on the template argument.\<close>

definition rb_static_ok :: "size_t \<Rightarrow> bool" where
  "rb_static_ok c \<longleftrightarrow> 1 < c \<and> c AND (c - 1) = 0"

definition rb_mask :: "'a RingBuffer \<Rightarrow> size_t" where
  "rb_mask r = Capacity r - 1"

definition rb_new :: "size_t \<Rightarrow> 'a \<Rightarrow> 'a RingBuffer" where
  "rb_new c d = \<lparr>Capacity = c, rb_head = 0, rb_tail = 0, rb_buffer = replicate (unat c) d\<rparr>"

definition rb_empty :: "'a RingBuffer \<Rightarrow> bool" where
  "rb_empty r \<longleftrightarrow> rb_head r = rb_tail r"

definition rb_full :: "'a RingBuffer \<Rightarrow> bool" where
  "rb_full r \<longleftrightarrow> rb_tail r - rb_head r = Capacity r"

definition rb_reset :: "'a RingBuffer \<Rightarrow> 'a RingBuffer" where
  "rb_reset r = r\<lparr>rb_head := 0, rb_tail := 0\<rparr>"

definition rb_push :: "'a RingBuffer \<Rightarrow> 'a \<Rightarrow> bool \<times> 'a RingBuffer" where
  "rb_push r data =
     (let h = rb_head r; t = rb_tail r in
      if t - h = Capacity r then (False, r)
      else (True, r\<lparr>rb_buffer := (rb_buffer r)[unat (t AND rb_mask r) := data], rb_tail := t + 1\<rparr>))"

text \<open>\<^verbatim>\<open>bool pop(T &data)\<close>: \<^const>\<open>None\<close> is the result \<^verbatim>\<open>false\<close>, with \<open>data\<close> untouched.\<close>

definition rb_pop :: "'a RingBuffer \<Rightarrow> 'a option \<times> 'a RingBuffer" where
  "rb_pop r =
     (let h = rb_head r; t = rb_tail r in
      if h = t then (None, r)
      else (Some (rb_buffer r ! unat (h AND rb_mask r)), r\<lparr>rb_head := h + 1\<rparr>))"

section \<open>Powers of two and masks\<close>

lemma pow2_if_and_pred:
  "0 < n \<Longrightarrow> n AND (n - 1) = 0 \<Longrightarrow> \<exists>k. n = 2 ^ k" for n :: nat
proof (induction n rule: less_induct)
  case (less n)
  show ?case
  proof (cases "even n")
    case True
    then obtain m where m: "n = 2 * m" by blast
    with less.prems have "0 < m" by simp
    then have "(2 * m - 1) div 2 = m - 1" by arith
    then have "n AND (n - 1) = 2 * (m AND (m - 1))"
      unfolding m by (subst and_rec) simp
    with less.prems have "m AND (m - 1) = 0" by simp
    with less.IH [of m] m \<open>0 < m\<close> obtain k where "m = 2 ^ k" by auto
    with m have "n = 2 ^ Suc k" by simp
    then show ?thesis by blast
  next
    case False
    then obtain m where m: "n = Suc (2 * m)"
      by (auto elim: oddE)
    then have "n AND (n - 1) = 2 * m"
      by (subst and_rec) (simp add: and.idem)
    with less.prems m have "n = 2 ^ 0" by simp
    then show ?thesis by blast
  qed
qed

lemma rb_static_ok_pow2:
  assumes "rb_static_ok c"
  obtains k where "unat c = 2 ^ k" "0 < k" "k < 64"
proof -
  have gt: "1 < unat c"
    using assms by (simp add: rb_static_ok_def word_less_nat_alt)
  then have "unat (c - 1) = unat c - 1"
    by (metis less_imp_neq not_less_zero unat_minus_one unat_0 gr_zeroI)
  then have "unat c AND (unat c - 1) = 0"
    using assms by (metis rb_static_ok_def unat_0 unsigned_and_eq)
  with gt obtain k where k: "unat c = 2 ^ k"
    using pow2_if_and_pred [of "unat c"] by auto
  have "0 < k"
    using gt k by (cases k) auto
  moreover have "(2::nat) ^ k < 2 ^ 64"
    using unsigned_less [of c, where ?'a = nat] k by simp
  then have "k < 64" by (rule power_less_imp_less_exp [rotated]) simp
  ultimately show thesis using that k by blast
qed

lemma unat_and_mask:
  fixes c w :: size_t
  assumes "rb_static_ok c"
  shows "unat (w AND (c - 1)) = unat w mod unat c"
proof -
  obtain k where k: "unat c = 2 ^ k" "k < 64"
    using assms by (rule rb_static_ok_pow2)
  then have "c = of_nat (2 ^ k)"
    by (metis of_nat_unat ucast_id)
  then have "c = 2 ^ k" by simp
  then have "w AND (c - 1) = take_bit k w"
    by (simp add: take_bit_eq_mask mask_eq_exp_minus_1)
  then show ?thesis
    by (simp add: k(1) unsigned_take_bit_eq flip: take_bit_eq_mod)
qed

text \<open>
  The slot of the \<open>i\<close>-th element after \<open>h\<close>. The counter may wrap around at \<open>2 ^ 64\<close> in
  between: the capacity divides \<open>2 ^ 64\<close>, so the slot sequence continues without a jump.
\<close>

lemma slot_index:
  fixes c h :: size_t
  assumes "rb_static_ok c"
  shows "unat ((h + of_nat i) AND (c - 1)) = (unat h + i) mod unat c"
proof -
  obtain k where k: "unat c = 2 ^ k" "k < 64"
    using assms by (rule rb_static_ok_pow2)
  then have dvd: "unat c dvd 2 ^ 64"
    by (metis le_imp_power_dvd less_imp_le)
  have "unat (h + of_nat i) = (unat h + i) mod 2 ^ 64"
    by (simp add: unat_word_ariths unat_of_nat mod_simps)
  then show ?thesis
    using dvd by (simp add: unat_and_mask [OF assms] mod_mod_cancel)
qed

section \<open>The ring as a bounded queue\<close>

definition rb_inv :: "'a RingBuffer \<Rightarrow> bool" where
  "rb_inv r \<longleftrightarrow> rb_static_ok (Capacity r) \<and> length (rb_buffer r) = unat (Capacity r) \<and>
     rb_tail r - rb_head r \<le> Capacity r"

definition rb_count :: "'a RingBuffer \<Rightarrow> nat" where
  "rb_count r = unat (rb_tail r - rb_head r)"

definition rb_slot :: "'a RingBuffer \<Rightarrow> nat \<Rightarrow> nat" where
  "rb_slot r i = (unat (rb_head r) + i) mod unat (Capacity r)"

text \<open>The elements between the counters, oldest first.\<close>

definition rb_list :: "'a RingBuffer \<Rightarrow> 'a list" where
  "rb_list r = map (\<lambda>i. rb_buffer r ! rb_slot r i) [0..<rb_count r]"

abbreviation rb_cap :: "'a RingBuffer \<Rightarrow> nat" where
  "rb_cap r \<equiv> unat (Capacity r)"

lemma rb_cap_gt: "rb_inv r \<Longrightarrow> 1 < rb_cap r"
  by (simp add: rb_inv_def rb_static_ok_def word_less_nat_alt)

lemma rb_count_le: "rb_inv r \<Longrightarrow> rb_count r \<le> rb_cap r"
  by (simp add: rb_inv_def rb_count_def word_le_nat_alt)

lemma rb_slot_less: "rb_inv r \<Longrightarrow> rb_slot r i < rb_cap r"
  using rb_cap_gt [of r] by (simp add: rb_slot_def)

lemma length_rb_list [simp]: "length (rb_list r) = rb_count r"
  by (simp add: rb_list_def)

lemma rb_tail_eq: "rb_tail r = rb_head r + of_nat (rb_count r)"
  by (simp add: rb_count_def)

lemma tail_slot: "rb_inv r \<Longrightarrow> unat (rb_tail r AND rb_mask r) = rb_slot r (rb_count r)"
  by (subst rb_tail_eq) (simp add: rb_inv_def rb_mask_def slot_index rb_slot_def)

lemma head_slot: "rb_inv r \<Longrightarrow> unat (rb_head r AND rb_mask r) = rb_slot r 0"
  by (simp add: rb_inv_def rb_mask_def unat_and_mask rb_slot_def)

lemma rb_full_iff: "rb_full r \<longleftrightarrow> rb_count r = rb_cap r"
  by (auto simp: rb_full_def rb_count_def word_unat_eq_iff)

lemma rb_empty_iff: "rb_empty r \<longleftrightarrow> rb_list r = []"
proof -
  have "rb_list r = [] \<longleftrightarrow> rb_count r = 0"
    using length_rb_list [of r] by (cases "rb_list r") auto
  then show ?thesis
    by (auto simp: rb_empty_def rb_count_def unat_eq_zero)
qed

lemma rb_push_full: "rb_count r = rb_cap r \<Longrightarrow> rb_push r x = (False, r)"
  by (simp add: rb_push_def Let_def rb_count_def word_unat_eq_iff)

lemma rb_push_room:
  assumes "rb_inv r" and "rb_count r < rb_cap r"
  obtains r' where "rb_push r x = (True, r')" "rb_count r' = Suc (rb_count r)"
    "rb_list r' = rb_list r @ [x]" "Capacity r' = Capacity r" "rb_inv r'"
proof
  let ?r = "r\<lparr>rb_buffer := (rb_buffer r)[rb_slot r (rb_count r) := x], rb_tail := rb_tail r + 1\<rparr>"
  show "rb_push r x = (True, ?r)"
    using assms by (auto simp: rb_push_def Let_def tail_slot rb_count_def)
  have "Suc (unat (rb_tail r - rb_head r)) < 2 ^ 64"
    using assms(2) unsigned_less [of "Capacity r", where ?'a = nat] by (simp add: rb_count_def)
  then have "unat (rb_tail r - rb_head r + 1) = Suc (rb_count r)"
    by (simp add: rb_count_def unat_word_ariths(1))
  then show cnt: "rb_count ?r = Suc (rb_count r)"
    by (simp add: rb_count_def algebra_simps)
  have slots: "rb_slot ?r = rb_slot r" and len: "length (rb_buffer r) = rb_cap r"
    using assms(1) by (auto simp: rb_slot_def fun_eq_iff rb_inv_def)
  have old: "rb_slot r i \<noteq> rb_slot r (rb_count r)" if "i < rb_count r" for i
    using that assms(2) mod_add_neq [of i "rb_count r" "rb_cap r"] by (simp add: rb_slot_def)
  have "rb_buffer ?r ! rb_slot r i = rb_buffer r ! rb_slot r i" if "i < rb_count r" for i
    using old [OF that] by simp
  moreover have "rb_buffer ?r ! rb_slot r (rb_count r) = x"
    using rb_slot_less [OF assms(1)] len by simp
  ultimately show "rb_list ?r = rb_list r @ [x]"
    by (simp add: rb_list_def cnt slots)
  show "Capacity ?r = Capacity r" by simp
  have "rb_tail ?r - rb_head ?r \<le> Capacity ?r"
    using cnt assms(2) by (simp add: rb_count_def word_le_nat_alt)
  then show "rb_inv ?r"
    using assms(1) by (simp add: rb_inv_def)
qed

lemma push_cases [consumes 1, case_names full room]:
  assumes "rb_inv r"
  obtains "rb_count r = rb_cap r" "rb_push r x = (False, r)" "rb_inv r"
  | r' where "rb_count r < rb_cap r" "rb_push r x = (True, r')" "rb_list r' = rb_list r @ [x]"
    "Capacity r' = Capacity r" "rb_inv r'"
proof (cases "rb_count r < rb_cap r")
  case True
  show thesis
    by (rule rb_push_room [OF assms True]) (rule that(2) [OF True])
next
  case False
  with rb_count_le [OF assms] assms that(1) show thesis by (simp add: rb_push_full)
qed

lemma rb_pop_none: "rb_list r = [] \<Longrightarrow> rb_pop r = (None, r)"
  by (simp add: rb_pop_def Let_def rb_empty_iff [symmetric] rb_empty_def)

lemma rb_pop_some:
  assumes "rb_inv r" and "rb_list r = x # xs"
  obtains r' where "rb_pop r = (Some x, r')" "rb_list r' = xs" "Capacity r' = Capacity r" "rb_inv r'"
proof
  let ?r = "r\<lparr>rb_head := rb_head r + 1\<rparr>"
  have ne: "rb_head r \<noteq> rb_tail r"
    using assms(2) by (metis list.distinct(1) rb_empty_def rb_empty_iff)
  have "rb_count r = Suc (length xs)"
    using assms(2) length_rb_list [of r] by simp
  then obtain n where n: "rb_count r = Suc n" by blast
  have x: "x = rb_buffer r ! rb_slot r 0" and xs: "xs = map (\<lambda>i. rb_buffer r ! rb_slot r (Suc i)) [0..<n]"
    using assms(2) by (simp_all add: rb_list_def n map_upt_Suc del: upt_Suc)
  show "rb_pop r = (Some x, ?r)"
    using ne x by (simp add: rb_pop_def Let_def head_slot [OF assms(1)])
  have cnt: "rb_count ?r = n"
    using n unat_minus_one [of "rb_tail r - rb_head r"] ne
    by (simp add: rb_count_def algebra_simps)
  have "rb_slot ?r i = rb_slot r (Suc i)" for i
    using assms(1) slot_index [of "Capacity r" "rb_head r + 1" i] slot_index [of "Capacity r" "rb_head r" "Suc i"]
    by (simp add: rb_slot_def rb_inv_def algebra_simps)
  then show "rb_list ?r = xs"
    by (simp add: rb_list_def cnt xs)
  show "Capacity ?r = Capacity r" by simp
  have "unat (rb_tail ?r - rb_head ?r) \<le> rb_cap ?r"
    using cnt n rb_count_le [OF assms(1)] by (simp add: rb_count_def)
  then show "rb_inv ?r"
    using assms(1) by (simp add: rb_inv_def word_le_nat_alt)
qed

lemma pop_cases [consumes 1, case_names none some]:
  assumes "rb_inv r"
  obtains "rb_list r = []" "rb_pop r = (None, r)" "rb_inv r"
  | x xs r' where "rb_list r = x # xs" "rb_pop r = (Some x, r')" "rb_list r' = xs"
    "Capacity r' = Capacity r" "rb_inv r'"
proof (cases "rb_list r")
  case Nil
  with assms that(1) show thesis by (simp add: rb_pop_none)
next
  case (Cons x xs)
  show thesis
    by (rule rb_pop_some [OF assms Cons]) (rule that(2) [OF Cons])
qed

interpretation ring: bounded_fifo rb_push rb_pop rb_list rb_cap rb_inv
proof (unfold_locales, goal_cases)
  case (1 q)
  then show ?case by (simp add: rb_count_le)
next
  case (2 q x)
  then show ?case
    by (cases rule: push_cases [where r = q and x = x]) auto
next
  case (3 q)
  then show ?case
    by (cases rule: pop_cases [where r = q]) auto
next
  case (4 q x)
  then show ?case
    by (cases rule: push_cases [where r = q and x = x]) auto
next
  case (5 q)
  then show ?case
    by (cases rule: pop_cases [where r = q]) auto
next
  case (6 q x)
  then show ?case
    by (cases rule: push_cases [where r = q and x = x]) (auto simp: spec_push_def)
next
  case (7 q)
  then show ?case
    by (cases rule: pop_cases [where r = q]) (auto simp: spec_pop_def)
qed

section \<open>Properties of the ring\<close>

lemma rb_new_inv: "rb_static_ok c \<Longrightarrow> rb_inv (rb_new c d)"
  by (simp add: rb_inv_def rb_new_def)

lemma rb_new_list [simp]: "rb_list (rb_new c d) = []"
  by (simp add: rb_list_def rb_count_def rb_new_def)

lemma rb_reset_inv: "rb_inv r \<Longrightarrow> rb_inv (rb_reset r)"
  by (simp add: rb_inv_def rb_reset_def)

lemma rb_reset_list [simp]: "rb_list (rb_reset r) = []"
  by (simp add: rb_list_def rb_count_def rb_reset_def)

lemma Capacity_rb_reset [simp]: "Capacity (rb_reset r) = Capacity r"
  by (simp add: rb_reset_def)

text \<open>
  C4. The ring implements the bounded queue: from any well-formed state, every sequence of
  pushes and pops gives exactly the results of the same sequence on a list bounded by the
  capacity, the elements come out in the order they went in, and the state stays
  well-formed. The statement covers counters that wrap around at \<open>2 ^ 64\<close>.
\<close>

theorem ring_refines_fifo:
  assumes "rb_inv r"
  shows "run_ops (spec_push (rb_cap r)) spec_pop (rb_list r) ops =
      (fst (run_ops rb_push rb_pop r ops), rb_list (snd (run_ops rb_push rb_pop r ops))) \<and>
    rb_inv (snd (run_ops rb_push rb_pop r ops))"
  using assms by (rule ring.run_refines)

definition wrapping_ring :: "nat RingBuffer" where
  "wrapping_ring = \<lparr>Capacity = 4, rb_head = - 1, rb_tail = - 1, rb_buffer = replicate 4 0\<rparr>"

lemma wrapping_ring_inv: "rb_inv wrapping_ring"
  by (simp add: wrapping_ring_def rb_inv_def rb_static_ok_def)

theorem ring_refines_fifo_witness:
  "run_ops (spec_push (rb_cap wrapping_ring)) spec_pop (rb_list wrapping_ring) [Push 7, Push 8, Pop] =
      (fst (run_ops rb_push rb_pop wrapping_ring [Push 7, Push 8, Pop]),
       rb_list (snd (run_ops rb_push rb_pop wrapping_ring [Push 7, Push 8, Pop]))) \<and>
    rb_inv (snd (run_ops rb_push rb_pop wrapping_ring [Push 7, Push 8, Pop]))"
  by (rule ring_refines_fifo) (rule wrapping_ring_inv)

text \<open>
  Both masked indices are inside the buffer, the two predicates the ring offers agree
  with its contents (\<open>full\<close> exactly at the capacity, so all slots are usable), and
  \<open>reset\<close> empties the ring.
\<close>

lemma ring_indices_and_predicates:
  assumes "rb_inv r"
  shows "unat (rb_tail r AND rb_mask r) < length (rb_buffer r) \<and>
    unat (rb_head r AND rb_mask r) < length (rb_buffer r) \<and>
    (rb_full r \<longleftrightarrow> length (rb_list r) = rb_cap r) \<and>
    (rb_empty r \<longleftrightarrow> rb_list r = []) \<and>
    rb_inv (rb_reset r) \<and> rb_list (rb_reset r) = []"
  using assms rb_slot_less [OF assms]
  by (simp add: tail_slot head_slot rb_full_iff rb_empty_iff rb_reset_inv) (simp add: rb_inv_def)

lemma ring_indices_and_predicates_witness:
  "unat (rb_tail wrapping_ring AND rb_mask wrapping_ring) < length (rb_buffer wrapping_ring) \<and>
    unat (rb_head wrapping_ring AND rb_mask wrapping_ring) < length (rb_buffer wrapping_ring) \<and>
    (rb_full wrapping_ring \<longleftrightarrow> length (rb_list wrapping_ring) = rb_cap wrapping_ring) \<and>
    (rb_empty wrapping_ring \<longleftrightarrow> rb_list wrapping_ring = []) \<and>
    rb_inv (rb_reset wrapping_ring) \<and> rb_list (rb_reset wrapping_ring) = []"
  by (rule ring_indices_and_predicates) (rule wrapping_ring_inv)

end
