(* ===== verification/Ring_Concurrent.thy ===== *)
theory Ring_Concurrent
  imports Ring_Buffer
begin

text \<open>
  The ring of theory \<open>Ring_Buffer\<close> under concurrent use. Each atomic load, atomic store and
  buffer access of \<^verbatim>\<open>push\<close> and \<^verbatim>\<open>pop\<close> is a step of its own, and steps of the threads
  interleave freely. Memory is sequentially consistent here; the acquire and release
  orderings of the source give this for the two counters and for the buffer cells they
  guard.

  Producers are numbered and there is one consumer. The parameter \<open>Ps\<close> of the step relation
  is the set of producers that take part: the source allows one.
\<close>

section \<open>Threads and steps\<close>

datatype 'a producer =
    PIdle
  | PHead 'a size_t            \<comment> \<open>loaded \<^verbatim>\<open>head_\<close>\<close>
  | PTail 'a size_t size_t     \<comment> \<open>loaded \<^verbatim>\<open>tail_\<close> too\<close>
  | PWritten 'a size_t         \<comment> \<open>stored the element; \<^verbatim>\<open>tail_\<close> not yet advanced\<close>

datatype 'a consumer =
    CIdle
  | CHead size_t
  | CTail size_t size_t
  | CRead 'a size_t            \<comment> \<open>copied the element out; \<^verbatim>\<open>head_\<close> not yet advanced\<close>

text \<open>
  \<open>sent\<close> and \<open>got\<close> record, in order, the elements of the pushes and pops that have returned
  true; the program does not read them.
\<close>

record 'a ring_sys =
  rs_ring :: "'a RingBuffer"
  rs_prod :: "nat \<Rightarrow> 'a producer"
  rs_cons :: "'a consumer"
  sent :: "'a list"
  got :: "'a list"

abbreviation upd_prod :: "'a ring_sys \<Rightarrow> nat \<Rightarrow> 'a producer \<Rightarrow> 'a ring_sys" where
  "upd_prod s i p \<equiv> s\<lparr>rs_prod := (rs_prod s)(i := p)\<rparr>"

inductive ring_step :: "nat set \<Rightarrow> 'a ring_sys \<Rightarrow> 'a ring_sys \<Rightarrow> bool" for Ps where
  push_head: "i \<in> Ps \<Longrightarrow> rs_prod s i = PIdle \<Longrightarrow>
    ring_step Ps s (upd_prod s i (PHead x (rb_head (rs_ring s))))"
| push_tail: "i \<in> Ps \<Longrightarrow> rs_prod s i = PHead x h \<Longrightarrow>
    ring_step Ps s (upd_prod s i (PTail x h (rb_tail (rs_ring s))))"
| push_fail: "i \<in> Ps \<Longrightarrow> rs_prod s i = PTail x h t \<Longrightarrow> t - h = Capacity (rs_ring s) \<Longrightarrow>
    ring_step Ps s (upd_prod s i PIdle)"
| push_write: "i \<in> Ps \<Longrightarrow> rs_prod s i = PTail x h t \<Longrightarrow> t - h \<noteq> Capacity (rs_ring s) \<Longrightarrow>
    ring_step Ps s ((upd_prod s i (PWritten x t))\<lparr>rs_ring := (rs_ring s)\<lparr>rb_buffer :=
      (rb_buffer (rs_ring s))[unat (t AND rb_mask (rs_ring s)) := x]\<rparr>\<rparr>)"
| push_publish: "i \<in> Ps \<Longrightarrow> rs_prod s i = PWritten x t \<Longrightarrow>
    ring_step Ps s ((upd_prod s i PIdle)\<lparr>rs_ring := (rs_ring s)\<lparr>rb_tail := t + 1\<rparr>,
      sent := sent s @ [x]\<rparr>)"
| pop_head: "rs_cons s = CIdle \<Longrightarrow> ring_step Ps s (s\<lparr>rs_cons := CHead (rb_head (rs_ring s))\<rparr>)"
| pop_tail: "rs_cons s = CHead h \<Longrightarrow> ring_step Ps s (s\<lparr>rs_cons := CTail h (rb_tail (rs_ring s))\<rparr>)"
| pop_fail: "rs_cons s = CTail h t \<Longrightarrow> h = t \<Longrightarrow> ring_step Ps s (s\<lparr>rs_cons := CIdle\<rparr>)"
| pop_read: "rs_cons s = CTail h t \<Longrightarrow> h \<noteq> t \<Longrightarrow>
    ring_step Ps s (s\<lparr>rs_cons := CRead (rb_buffer (rs_ring s) ! unat (h AND rb_mask (rs_ring s))) h\<rparr>)"
| pop_publish: "rs_cons s = CRead x h \<Longrightarrow>
    ring_step Ps s (s\<lparr>rs_cons := CIdle, rs_ring := (rs_ring s)\<lparr>rb_head := h + 1\<rparr>, got := got s @ [x]\<rparr>)"

definition ring_init :: "size_t \<Rightarrow> 'a \<Rightarrow> 'a ring_sys" where
  "ring_init c d = \<lparr>rs_ring = rb_new c d, rs_prod = (\<lambda>_. PIdle), rs_cons = CIdle, sent = [], got = []\<rparr>"

inductive ring_reach :: "nat set \<Rightarrow> size_t \<Rightarrow> 'a \<Rightarrow> 'a ring_sys \<Rightarrow> bool" for Ps c d where
  init: "ring_reach Ps c d (ring_init c d)"
| step: "ring_reach Ps c d s \<Longrightarrow> ring_step Ps s s' \<Longrightarrow> ring_reach Ps c d s'"

section \<open>The invariant with a single producer\<close>

text \<open>
  With \<open>P\<close> completed pushes and \<open>C\<close> completed pops, the counters are \<open>P\<close> and \<open>C\<close> modulo
  \<open>2 ^ 64\<close>, and a counter a thread has loaded is a value that counter had earlier.
\<close>

definition prod_ok :: "nat \<Rightarrow> nat \<Rightarrow> nat \<Rightarrow> 'a list \<Rightarrow> 'a producer \<Rightarrow> bool" where
  "prod_ok n P C buf p = (case p of
      PIdle \<Rightarrow> True
    | PHead x h \<Rightarrow> \<exists>c\<le>C. h = of_nat c \<and> P \<le> c + n
    | PTail x h t \<Rightarrow> t = of_nat P \<and> (\<exists>c\<le>C. h = of_nat c \<and> P \<le> c + n)
    | PWritten x t \<Rightarrow> t = of_nat P \<and> P < C + n \<and> buf ! (P mod n) = x)"

definition cons_ok :: "nat \<Rightarrow> nat \<Rightarrow> 'a list \<Rightarrow> 'a consumer \<Rightarrow> bool" where
  "cons_ok P C xs q = (case q of
      CIdle \<Rightarrow> True
    | CHead h \<Rightarrow> h = of_nat C
    | CTail h t \<Rightarrow> h = of_nat C \<and> (\<exists>p. C \<le> p \<and> p \<le> P \<and> t = of_nat p)
    | CRead x h \<Rightarrow> h = of_nat C \<and> C < P \<and> x = xs ! C)"

definition spsc_inv :: "nat \<Rightarrow> size_t \<Rightarrow> 'a ring_sys \<Rightarrow> bool" where
  "spsc_inv i c s \<longleftrightarrow>
     (let r = rs_ring s; n = unat c; P = length (sent s); C = length (got s) in
      rb_static_ok c \<and> Capacity r = c \<and> length (rb_buffer r) = n \<and>
      rb_tail r = of_nat P \<and> rb_head r = of_nat C \<and> C \<le> P \<and> P \<le> C + n \<and>
      got s = take C (sent s) \<and>
      (\<forall>k. C \<le> k \<longrightarrow> k < P \<longrightarrow> rb_buffer r ! (k mod n) = sent s ! k) \<and>
      prod_ok n P C (rb_buffer r) (rs_prod s i) \<and> cons_ok P C (sent s) (rs_cons s))"

lemma of_nat_close_eq:
  assumes "a \<le> b" and "b - a < 2 ^ 64"
  shows "(of_nat a :: size_t) = of_nat b \<longleftrightarrow> a = b"
proof
  assume "(of_nat a :: size_t) = of_nat b"
  then have "(of_nat (b - a) :: size_t) = 0"
    using assms(1) by (simp add: of_nat_diff)
  then have "2 ^ 64 dvd b - a"
    by (simp add: word_of_nat_eq_0_iff)
  with assms show "a = b"
    by (metis diff_is_0_eq' dvd_imp_le le_antisym not_less not_gr_zero diff_diff_cancel diff_zero)
qed simp

lemma of_nat_diff_eq_iff:
  assumes "a \<le> b" and "b \<le> a + unat c"
  shows "(of_nat b - of_nat a :: size_t) = c \<longleftrightarrow> b = a + unat c"
proof -
  have "b - a < 2 ^ 64"
    using assms(2) unsigned_less [of c, where ?'a = nat] by simp
  then have "unat (of_nat (b - a) :: size_t) = b - a"
    by (simp only: unat_of_nat) simp
  moreover have "(of_nat b - of_nat a :: size_t) = of_nat (b - a)"
    using assms(1) by (simp add: of_nat_diff)
  ultimately show ?thesis
    using assms(1) by (auto simp: word_unat_eq_iff simp del: of_nat_diff)
qed

lemma slot_of_nat: "rb_static_ok c \<Longrightarrow> unat (of_nat k AND (c - 1)) = k mod unat c"
  using slot_index [of c 0 k] by simp

lemma mod_close_neq:
  fixes k P n :: nat
  assumes "k < P" and "P < k + n"
  shows "k mod n \<noteq> P mod n"
  using mod_add_neq [of 0 "P - k" n k] assms by simp

lemmas spsc_defs = spsc_inv_def Let_def prod_ok_def cons_ok_def

lemma spsc_inv_init: "rb_static_ok c \<Longrightarrow> spsc_inv i c (ring_init c d)"
  by (simp add: spsc_defs ring_init_def rb_new_def)

lemma spsc_write:
  assumes "spsc_inv i c s" and "rs_prod s i = PTail x h t" and "t - h \<noteq> c"
  shows "t = of_nat (length (sent s)) \<and> length (sent s) < length (got s) + unat c"
proof -
  obtain a where a: "a \<le> length (got s)" "h = of_nat a" "length (sent s) \<le> a + unat c"
    and t: "t = of_nat (length (sent s))" and le: "length (got s) \<le> length (sent s)"
    using assms(1,2) by (auto simp: spsc_defs)
  have "length (sent s) \<noteq> a + unat c"
    using of_nat_diff_eq_iff [of a "length (sent s)" c] a t le assms(3) by auto
  with a t show ?thesis by simp
qed

lemma spsc_read:
  assumes "spsc_inv i c s" and "rs_cons s = CTail h t" and "h \<noteq> t"
  shows "h = of_nat (length (got s)) \<and> length (got s) < length (sent s) \<and>
    rb_buffer (rs_ring s) ! unat (h AND rb_mask (rs_ring s)) = sent s ! length (got s)"
proof -
  obtain p where p: "length (got s) \<le> p" "p \<le> length (sent s)" "t = of_nat p"
    and h: "h = of_nat (length (got s))" and c: "rb_static_ok c" "Capacity (rs_ring s) = c"
    using assms(1,2) by (auto simp: spsc_defs)
  with assms(3) have lt: "length (got s) < length (sent s)"
    by (metis le_neq_implies_less less_le_trans)
  have "unat (h AND rb_mask (rs_ring s)) = length (got s) mod unat c"
    by (simp add: h rb_mask_def c slot_of_nat)
  with lt h show ?thesis
    using assms(1) by (simp add: spsc_defs)
qed

lemma spsc_step:
  assumes "ring_step {i} s s'" and "spsc_inv i c s"
  shows "spsc_inv i c s'"
  using assms(1)
proof cases
  case (push_head j x)
  with assms(2) show ?thesis by (auto simp: spsc_defs)
next
  case (push_tail j x h)
  with assms(2) show ?thesis by (auto simp: spsc_defs)
next
  case (push_fail j x h t)
  with assms(2) show ?thesis by (auto simp: spsc_defs)
next
  case (push_write j x h t)
  let ?P = "length (sent s)" and ?C = "length (got s)" and ?n = "rb_cap (rs_ring s)"
  have inv: "rb_static_ok (Capacity (rs_ring s))" "Capacity (rs_ring s) = c"
    using assms(2) by (auto simp: spsc_defs)
  have t: "t = of_nat ?P" and room: "?P < ?C + ?n"
    using spsc_write [OF assms(2), of x h t] push_write inv by auto
  have slot: "unat (of_nat ?P AND rb_mask (rs_ring s)) = ?P mod ?n"
    using inv(1) by (simp add: rb_mask_def slot_of_nat)
  have old: "(rb_buffer (rs_ring s))[?P mod ?n := x] ! (k mod ?n) = rb_buffer (rs_ring s) ! (k mod ?n)"
    if "?C \<le> k" "k < ?P" for k
    using that room mod_close_neq [of k ?P ?n] by simp
  have "?P mod ?n < ?n"
    using inv(1) by (simp add: rb_static_ok_def word_less_nat_alt)
  then show ?thesis
    using assms(2) push_write room t by (auto simp: spsc_defs slot old split: producer.splits)
next
  case (push_publish j x t)
  with assms(2) show ?thesis
    by (auto simp: spsc_defs nth_append less_Suc_eq split: consumer.splits)
next
  case pop_head
  with assms(2) show ?thesis by (auto simp: spsc_defs)
next
  case (pop_tail h)
  with assms(2) show ?thesis by (auto simp: spsc_defs)
next
  case (pop_fail h t)
  with assms(2) show ?thesis by (auto simp: spsc_defs)
next
  case (pop_read h t)
  with assms(2) spsc_read [OF assms(2), of h t] show ?thesis by (auto simp: spsc_defs)
next
  case (pop_publish x h)
  with assms(2) show ?thesis
    by (auto simp: spsc_defs take_Suc_conv_app_nth split: producer.splits intro: le_SucI)
qed

lemma spsc_reach:
  "ring_reach {i} c d s \<Longrightarrow> rb_static_ok c \<Longrightarrow> spsc_inv i c s"
  by (induction rule: ring_reach.induct) (auto intro: spsc_inv_init spsc_step)

section \<open>Schedules\<close>

text \<open>
  A schedule names the thread that moves next; each thread's next step is determined by
  where it is, except for the element a producer starts to push.
\<close>

datatype 'a turn = Prod nat 'a | Cons_turn

fun turn_step :: "'a ring_sys \<Rightarrow> 'a turn \<Rightarrow> 'a ring_sys" where
  "turn_step s (Prod i x) = (case rs_prod s i of
      PIdle \<Rightarrow> upd_prod s i (PHead x (rb_head (rs_ring s)))
    | PHead y h \<Rightarrow> upd_prod s i (PTail y h (rb_tail (rs_ring s)))
    | PTail y h t \<Rightarrow>
        if t - h = Capacity (rs_ring s) then upd_prod s i PIdle
        else (upd_prod s i (PWritten y t))\<lparr>rs_ring := (rs_ring s)\<lparr>rb_buffer :=
          (rb_buffer (rs_ring s))[unat (t AND rb_mask (rs_ring s)) := y]\<rparr>\<rparr>
    | PWritten y t \<Rightarrow> (upd_prod s i PIdle)\<lparr>rs_ring := (rs_ring s)\<lparr>rb_tail := t + 1\<rparr>,
        sent := sent s @ [y]\<rparr>)"
| "turn_step s Cons_turn = (case rs_cons s of
      CIdle \<Rightarrow> s\<lparr>rs_cons := CHead (rb_head (rs_ring s))\<rparr>
    | CHead h \<Rightarrow> s\<lparr>rs_cons := CTail h (rb_tail (rs_ring s))\<rparr>
    | CTail h t \<Rightarrow>
        if h = t then s\<lparr>rs_cons := CIdle\<rparr>
        else s\<lparr>rs_cons := CRead (rb_buffer (rs_ring s) ! unat (h AND rb_mask (rs_ring s))) h\<rparr>
    | CRead y h \<Rightarrow> s\<lparr>rs_cons := CIdle, rs_ring := (rs_ring s)\<lparr>rb_head := h + 1\<rparr>, got := got s @ [y]\<rparr>)"

primrec turn_ok :: "nat set \<Rightarrow> 'a turn \<Rightarrow> bool" where
  "turn_ok Ps (Prod i x) \<longleftrightarrow> i \<in> Ps"
| "turn_ok Ps Cons_turn \<longleftrightarrow> True"

lemma turn_step_ring_step: "turn_ok Ps a \<Longrightarrow> ring_step Ps s (turn_step s a)"
  by (cases a) (auto intro: ring_step.intros split: producer.split consumer.split)

lemma schedule_reach:
  "ring_reach Ps c d s \<Longrightarrow> list_all (turn_ok Ps) as \<Longrightarrow> ring_reach Ps c d (foldl turn_step s as)"
  by (induction as arbitrary: s) (auto intro: ring_reach.step turn_step_ring_step)

section \<open>One producer: first-in first-out without data races\<close>

text \<open>
  C1. With one producer and one consumer, under every interleaving of their loads and
  stores: the elements popped are a prefix of the elements pushed, at most \<open>Capacity\<close>
  elements are in between, and when the producer is about to write a cell while the
  consumer is about to read one, the two cells are different.
\<close>

theorem spsc_fifo_race_free:
  assumes "ring_reach {i} c d s" and "rb_static_ok c"
  shows "got s = take (length (got s)) (sent s) \<and>
    length (got s) \<le> length (sent s) \<and> length (sent s) \<le> length (got s) + unat c \<and>
    (\<forall>x h t h' t'. rs_prod s i = PTail x h t \<longrightarrow> t - h \<noteq> Capacity (rs_ring s) \<longrightarrow>
       rs_cons s = CTail h' t' \<longrightarrow> h' \<noteq> t' \<longrightarrow>
       unat (t AND rb_mask (rs_ring s)) \<noteq> unat (h' AND rb_mask (rs_ring s)))"
proof (intro conjI allI impI)
  have inv: "spsc_inv i c s"
    using assms by (rule spsc_reach)
  then show "got s = take (length (got s)) (sent s)" "length (got s) \<le> length (sent s)"
    "length (sent s) \<le> length (got s) + unat c"
    by (simp_all add: spsc_defs)
  fix x h t h' t'
  assume p: "rs_prod s i = PTail x h t" "t - h \<noteq> Capacity (rs_ring s)"
    and q: "rs_cons s = CTail h' t'" "h' \<noteq> t'"
  have c: "Capacity (rs_ring s) = c"
    using inv by (simp add: spsc_defs)
  have "t = of_nat (length (sent s))" "length (sent s) < length (got s) + unat c"
    using spsc_write [OF inv p(1)] p(2) c by auto
  moreover have "h' = of_nat (length (got s))" "length (got s) < length (sent s)"
    using spsc_read [OF inv q] by auto
  ultimately show "unat (t AND rb_mask (rs_ring s)) \<noteq> unat (h' AND rb_mask (rs_ring s))"
    using mod_close_neq [of "length (got s)" "length (sent s)" "unat c"] assms(2) c
    by (simp add: rb_mask_def slot_of_nat)
qed

definition busy_state :: "nat ring_sys" where
  "busy_state = foldl turn_step (ring_init 2 0)
     [Prod 0 7, Prod 0 7, Prod 0 7, Prod 0 7, Prod 0 8, Prod 0 8, Cons_turn, Cons_turn]"

lemma busy_state_reach: "ring_reach {0} 2 0 busy_state"
  unfolding busy_state_def by (rule schedule_reach) (simp_all add: ring_reach.init)

theorem spsc_fifo_race_free_witness:
  "sent busy_state = [7] \<and> rs_prod busy_state 0 = PTail 8 0 1 \<and> rs_cons busy_state = CTail 0 1 \<and>
   unat (1 AND rb_mask (rs_ring busy_state)) \<noteq> unat (0 AND rb_mask (rs_ring busy_state))"
proof -
  have state: "sent busy_state = [7]" "rs_prod busy_state 0 = PTail 8 0 1"
    "rs_cons busy_state = CTail 0 1" "Capacity (rs_ring busy_state) = 2"
    by (simp_all add: busy_state_def ring_init_def rb_new_def)
  have "rb_static_ok 2" by (simp add: rb_static_ok_def)
  from spsc_fifo_race_free [OF busy_state_reach this] state show ?thesis by simp
qed

section \<open>Two producers: an element is lost\<close>

text \<open>
  C35. The ring is not safe for two producers: for every capacity, some interleaving of two
  pushes into an empty ring lets both return true, and the ring then holds one element, the
  other is gone.
\<close>

theorem two_producers_lose_element:
  assumes "rb_static_ok c"
  shows "\<exists>s. ring_reach {0, 1} c d s \<and> rs_prod s 0 = PIdle \<and> rs_prod s 1 = PIdle \<and>
    sent s = [x, y] \<and> got s = [] \<and> rb_list (rs_ring s) = [y]"
proof -
  let ?as = "[Prod 0 x, Prod 1 y, Prod 0 x, Prod 1 y, Prod 0 x, Prod 1 y, Prod 0 x, Prod 1 y]"
  let ?s = "foldl turn_step (ring_init c d) ?as"
  have reach: "ring_reach {0, 1} c d ?s"
    by (rule schedule_reach) (simp_all add: ring_reach.init)
  have c: "c \<noteq> 0" "0 < unat c"
    using assms by (auto simp: rb_static_ok_def word_less_nat_alt)
  have "rs_prod ?s 0 = PIdle \<and> rs_prod ?s 1 = PIdle \<and> sent ?s = [x, y] \<and> got ?s = [] \<and>
      rb_list (rs_ring ?s) = [y]"
    using c by (simp add: ring_init_def rb_new_def rb_list_def rb_count_def rb_slot_def rb_mask_def)
  with reach show ?thesis by blast
qed

theorem two_producers_lose_element_witness:
  "rb_static_ok 16384 \<and> (\<exists>s. ring_reach {0, 1} 16384 (0::nat) s \<and> rs_prod s 0 = PIdle \<and>
     rs_prod s 1 = PIdle \<and> sent s = [7, 8] \<and> got s = [] \<and> rb_list (rs_ring s) = [8])"
proof -
  have ok: "rb_static_ok 16384" by (simp add: rb_static_ok_def)
  show ?thesis
    using ok two_producers_lose_element [OF ok, of 0 7 8] by simp
qed

end
