(* ===== verification/Frame_Pool.thy ===== *)
theory Frame_Pool
  imports Ring_Buffer Protocol "HOL-Library.Multiset"
begin

text \<open>
  The pool of wire-size frames and the two rings of slot numbers that hand the frames from
  the receiving thread to the processing thread and back:
  \<^verbatim>\<open>src/src/containers/frame_pool.hpp\<close> and \<^verbatim>\<open>numa_frame_pool.hpp\<close>.
\<close>

section \<open>The pool\<close>

record FramePool =
  slots :: "bytes list"
  free :: "size_t RingBuffer"
  ready :: "size_t RingBuffer"

abbreviation fp_cap :: "FramePool \<Rightarrow> nat" where
  "fp_cap p \<equiv> unat (Capacity (free p))"

text \<open>
  A new pool: zeroed frames, empty rings. The cells of the rings are not initialised; \<open>junk\<close>
  is what they hold.
\<close>

definition fp_new :: "size_t \<Rightarrow> size_t \<Rightarrow> FramePool" where
  "fp_new c junk = \<lparr>slots = replicate (unat c) (replicate kWireSize 0),
     free = rb_new c junk, ready = rb_new c junk\<rparr>"

text \<open>The loop of \<^verbatim>\<open>init\<close>; the results of the pushes are ignored, as in the source.\<close>

definition push_all :: "size_t RingBuffer \<Rightarrow> size_t list \<Rightarrow> size_t RingBuffer" where
  "push_all q is = foldl (\<lambda>q i. snd (rb_push q i)) q is"

definition fp_init :: "FramePool \<Rightarrow> FramePool" where
  "fp_init p =
     (let f = rb_reset (free p); r = rb_reset (ready p) in
      p\<lparr>free := push_all f (map of_nat [0..<unat (Capacity f)]), ready := r\<rparr>)"

section \<open>NUMA placement\<close>

datatype numa_error = Numa_unavailable | Bad_alloc

text \<open>
  \<open>numa_available\<close> is the result of that libnuma call, \<open>raw\<close> whether
  \<^verbatim>\<open>numa_alloc_onnode\<close> returned memory; the exceptions are the left summand.
\<close>

definition numa_create :: "int \<Rightarrow> bool \<Rightarrow> size_t \<Rightarrow> size_t \<Rightarrow> numa_error + FramePool" where
  "numa_create numa_available raw c junk =
     (if numa_available < 0 then Inl Numa_unavailable
      else if \<not> raw then Inl Bad_alloc
      else Inr (fp_init (fp_new c junk)))"

section \<open>Well-formed pools\<close>

definition fp_inv :: "FramePool \<Rightarrow> bool" where
  "fp_inv p \<longleftrightarrow> rb_inv (free p) \<and> rb_inv (ready p) \<and> Capacity (ready p) = Capacity (free p) \<and>
     length (slots p) = fp_cap p \<and> (\<forall>f\<in>set (slots p). length f = kWireSize)"

definition slot_ids :: "nat \<Rightarrow> size_t list" where
  "slot_ids n = map of_nat [0..<n]"

text \<open>
  Ownership: every slot number is exactly once in the free ring, in the ready ring, or in
  the hands of a thread (\<open>held\<close>).
\<close>

definition fp_owned :: "FramePool \<Rightarrow> size_t list \<Rightarrow> bool" where
  "fp_owned p held \<longleftrightarrow> fp_inv p \<and>
     mset (rb_list (free p)) + mset (rb_list (ready p)) + mset held = mset (slot_ids (fp_cap p))"

lemma length_slot_ids [simp]: "length (slot_ids n) = n"
  by (simp add: slot_ids_def)

lemma set_slot_ids: "n \<le> 2 ^ 64 \<Longrightarrow> i \<in> set (slot_ids n) \<longleftrightarrow> unat i < n"
proof
  assume n: "n \<le> 2 ^ 64" and "i \<in> set (slot_ids n)"
  then obtain k where "k < n" "i = of_nat k" by (auto simp: slot_ids_def)
  with n show "unat i < n" using unat_of_nat_size [of k] by simp
next
  assume "unat i < n"
  then show "i \<in> set (slot_ids n)"
    by (auto simp: slot_ids_def intro!: image_eqI [of i of_nat "unat i"])
qed

lemma distinct_slot_ids: "n \<le> 2 ^ 64 \<Longrightarrow> distinct (slot_ids n)"
proof -
  assume n: "n \<le> 2 ^ 64"
  have "inj_on (of_nat :: nat \<Rightarrow> size_t) {0..<n}"
  proof (rule inj_onI)
    fix j k
    assume "j \<in> {0..<n}" "k \<in> {0..<n}" and eq: "(of_nat j :: size_t) = of_nat k"
    with n have "j < 2 ^ 64" "k < 2 ^ 64" by auto
    with eq show "j = k"
      by (metis unat_of_nat_size)
  qed
  then show ?thesis by (simp add: slot_ids_def distinct_map)
qed

lemma rb_cap_bound: "rb_cap r < 2 ^ 64"
  by (rule unat_less_size)

lemma push_all_room:
  "rb_inv q \<Longrightarrow> length (rb_list q) + length is \<le> rb_cap q \<Longrightarrow>
   rb_inv (push_all q is) \<and> rb_list (push_all q is) = rb_list q @ is \<and>
   Capacity (push_all q is) = Capacity q"
proof (induction "is" arbitrary: q)
  case Nil
  then show ?case by (simp add: push_all_def)
next
  case (Cons i "is")
  from Cons.prems have "rb_count q < rb_cap q" by simp
  then obtain q' where q': "rb_push q i = (True, q')" "rb_list q' = rb_list q @ [i]"
    "Capacity q' = Capacity q" "rb_inv q'"
    using rb_push_room [OF Cons.prems(1)] by metis
  have "length (rb_list q') + length is \<le> rb_cap q'"
    using q' Cons.prems(2) by (metis append_Cons append_Nil append_assoc length_Cons length_append)
  with Cons.IH [OF q'(4)] show ?case
    using q' by (simp add: push_all_def)
qed

section \<open>Ring operations of a pool\<close>

text \<open>\<^verbatim>\<open>pool.free.pop\<close>, \<^verbatim>\<open>pool.free.push\<close>, \<^verbatim>\<open>pool.ready.pop\<close> and \<^verbatim>\<open>pool.ready.push\<close>.\<close>

definition free_pop :: "FramePool \<Rightarrow> size_t option \<times> FramePool" where
  "free_pop p = (let (r, q) = rb_pop (free p) in (r, p\<lparr>free := q\<rparr>))"

definition free_push :: "FramePool \<Rightarrow> size_t \<Rightarrow> bool \<times> FramePool" where
  "free_push p i = (let (ok, q) = rb_push (free p) i in (ok, p\<lparr>free := q\<rparr>))"

definition ready_pop :: "FramePool \<Rightarrow> size_t option \<times> FramePool" where
  "ready_pop p = (let (r, q) = rb_pop (ready p) in (r, p\<lparr>ready := q\<rparr>))"

definition ready_push :: "FramePool \<Rightarrow> size_t \<Rightarrow> bool \<times> FramePool" where
  "ready_push p i = (let (ok, q) = rb_push (ready p) i in (ok, p\<lparr>ready := q\<rparr>))"

text \<open>\<^verbatim>\<open>std::memcpy(pool.slots[idx].data(), src, kWireSize)\<close>.\<close>

definition slot_write :: "FramePool \<Rightarrow> size_t \<Rightarrow> bytes \<Rightarrow> FramePool" where
  "slot_write p i bs = p\<lparr>slots := (slots p)[unat i := bs]\<rparr>"

text \<open>Popping slot numbers until there are \<open>n\<close> or none is left.\<close>

fun take_slots :: "('p \<Rightarrow> size_t option \<times> 'p) \<Rightarrow> nat \<Rightarrow> 'p \<Rightarrow> size_t list \<times> 'p" where
  "take_slots pop 0 p = ([], p)"
| "take_slots pop (Suc n) p = (case pop p of
      (None, p') \<Rightarrow> ([], p')
    | (Some i, p') \<Rightarrow> let (is, p'') = take_slots pop n p' in (i # is, p''))"

definition put_slots :: "('p \<Rightarrow> size_t \<Rightarrow> bool \<times> 'p) \<Rightarrow> 'p \<Rightarrow> size_t list \<Rightarrow> 'p" where
  "put_slots push p is = foldl (\<lambda>p i. snd (push p i)) p is"

section \<open>The ownership contract\<close>

text \<open>
  What the threads of an engine rely on: taking a slot number makes it theirs, and giving
  back one that is theirs never fails.
\<close>

locale slot_source =
  fixes pop :: "'p \<Rightarrow> size_t option \<times> 'p"
    and owned :: "'p \<Rightarrow> size_t list \<Rightarrow> bool"
  assumes owned_perm: "owned p held \<Longrightarrow> mset held = mset held' \<Longrightarrow> owned p held'"
    and pop_some: "owned p held \<Longrightarrow> pop p = (Some i, p') \<Longrightarrow> owned p' (i # held)"
    and pop_none: "owned p held \<Longrightarrow> pop p = (None, p') \<Longrightarrow> owned p' held"
begin

lemma take_slots_owned:
  "owned p held \<Longrightarrow> take_slots pop n p = (is, p') \<Longrightarrow> owned p' (is @ held)"
proof (induction n arbitrary: p held "is" p')
  case 0
  then show ?case by simp
next
  case (Suc n)
  show ?case
  proof (cases "pop p")
    case (Pair r q)
    show ?thesis
    proof (cases r)
      case None
      with Suc.prems Pair pop_none [OF Suc.prems(1)] show ?thesis by simp
    next
      case (Some i)
      obtain js q' where t: "take_slots pop n q = (js, q')" by fastforce
      with Suc.prems(2) Pair Some have eqs: "is = i # js" "p' = q'" by auto
      have "owned q (i # held)"
        using pop_some [OF Suc.prems(1)] Pair Some by simp
      from Suc.IH [OF this t] have "owned q' (js @ i # held)" .
      then have "owned q' ((i # js) @ held)" by (rule owned_perm) simp
      with eqs show ?thesis by simp
    qed
  qed
qed

lemma take_slots_length: "take_slots pop n p = (is, p') \<Longrightarrow> length is \<le> n"
  by (induction n arbitrary: p "is" p') (auto split: prod.splits option.splits)

end

locale slot_sink =
  fixes push :: "'p \<Rightarrow> size_t \<Rightarrow> bool \<times> 'p"
    and owned :: "'p \<Rightarrow> size_t list \<Rightarrow> bool"
  assumes push_owned: "owned p (i # held) \<Longrightarrow> \<exists>p'. push p i = (True, p') \<and> owned p' held"
begin

lemma push_ok:
  assumes "owned p (i # held)"
  shows "fst (push p i) \<and> owned (snd (push p i)) held"
  using push_owned [OF assms] by auto

lemma put_slots_owned: "owned p (is @ held) \<Longrightarrow> owned (put_slots push p is) held"
proof (induction "is" arbitrary: p)
  case Nil
  then show ?case by (simp add: put_slots_def)
next
  case (Cons i "is")
  then have "owned (snd (push p i)) (is @ held)"
    using push_ok [of p i "is @ held"] by simp
  then show ?case
    using Cons.IH [of "snd (push p i)"] by (simp add: put_slots_def)
qed

end

section \<open>The pool keeps the contract\<close>

lemma fp_owned_size:
  assumes "fp_owned p held"
  shows "length (rb_list (free p)) + length (rb_list (ready p)) + length held = fp_cap p"
proof -
  have "size (mset (rb_list (free p)) + mset (rb_list (ready p)) + mset held) =
      size (mset (slot_ids (fp_cap p)))"
    using assms by (simp only: fp_owned_def)
  then show ?thesis by simp
qed

lemma fp_owned_held:
  assumes "fp_owned p held" and "i \<in> set held"
  shows "unat i < fp_cap p"
proof -
  have "i \<in># mset (slot_ids (fp_cap p))"
    using assms by (metis fp_owned_def set_mset_mset union_iff)
  then show ?thesis
    using set_slot_ids [of "fp_cap p" i] rb_cap_bound [of "free p"] by simp
qed

lemma fp_owned_distinct: "fp_owned p held \<Longrightarrow> distinct (rb_list (free p) @ rb_list (ready p) @ held)"
proof -
  assume "fp_owned p held"
  then have "mset (rb_list (free p) @ rb_list (ready p) @ held) = mset (slot_ids (fp_cap p))"
    by (simp add: fp_owned_def ac_simps)
  then show ?thesis
    using distinct_slot_ids [of "fp_cap p"] rb_cap_bound [of "free p"]
    by (metis mset_eq_imp_distinct_iff order.strict_implies_order)
qed

lemma free_pop_some:
  assumes "fp_owned p held" and "free_pop p = (Some i, p')"
  shows "fp_owned p' (i # held)"
proof -
  obtain q where q: "rb_pop (free p) = (Some i, q)" "p' = p\<lparr>free := q\<rparr>"
    using assms(2) by (auto simp: free_pop_def split: prod.splits)
  have "rb_inv (free p)"
    using assms(1) by (simp add: fp_owned_def fp_inv_def)
  then have "rb_list (free p) = i # rb_list q \<and> rb_inv q \<and> rb_cap q = fp_cap p"
    using q(1) by (rule ring.pop_Some)
  with assms(1) q(2) show ?thesis
    by (auto simp: fp_owned_def fp_inv_def word_unat_eq_iff)
qed

lemma free_pop_none: "free_pop p = (None, p') \<Longrightarrow> p' = p"
  by (auto simp: free_pop_def rb_pop_def Let_def split: if_splits prod.splits)

lemma ready_pop_some:
  assumes "fp_owned p held" and "ready_pop p = (Some i, p')"
  shows "fp_owned p' (i # held)"
proof -
  obtain q where q: "rb_pop (ready p) = (Some i, q)" "p' = p\<lparr>ready := q\<rparr>"
    using assms(2) by (auto simp: ready_pop_def split: prod.splits)
  have "rb_inv (ready p)"
    using assms(1) by (simp add: fp_owned_def fp_inv_def)
  then have "rb_list (ready p) = i # rb_list q \<and> rb_inv q \<and> rb_cap q = rb_cap (ready p)"
    using q(1) by (rule ring.pop_Some)
  with assms(1) q(2) show ?thesis
    by (auto simp: fp_owned_def fp_inv_def word_unat_eq_iff)
qed

lemma ready_pop_none: "ready_pop p = (None, p') \<Longrightarrow> p' = p"
  by (auto simp: ready_pop_def rb_pop_def Let_def split: if_splits prod.splits)

lemma free_push_owned:
  assumes "fp_owned p (i # held)"
  shows "\<exists>p'. free_push p i = (True, p') \<and> fp_owned p' held"
proof -
  have room: "rb_count (free p) < rb_cap (free p)" and inv: "rb_inv (free p)"
    using fp_owned_size [OF assms] assms by (auto simp: fp_owned_def fp_inv_def)
  obtain q where q: "rb_push (free p) i = (True, q)" "rb_list q = rb_list (free p) @ [i]"
    "Capacity q = Capacity (free p)" "rb_inv q"
    by (rule rb_push_room [OF inv room])
  with assms show ?thesis
    by (auto simp: free_push_def fp_owned_def fp_inv_def)
qed

lemma ready_push_owned:
  assumes "fp_owned p (i # held)"
  shows "\<exists>p'. ready_push p i = (True, p') \<and> fp_owned p' held"
proof -
  have room: "rb_count (ready p) < rb_cap (ready p)" and inv: "rb_inv (ready p)"
    using fp_owned_size [OF assms] assms by (auto simp: fp_owned_def fp_inv_def)
  obtain q where q: "rb_push (ready p) i = (True, q)" "rb_list q = rb_list (ready p) @ [i]"
    "Capacity q = Capacity (ready p)" "rb_inv q"
    by (rule rb_push_room [OF inv room])
  with assms show ?thesis
    by (auto simp: ready_push_def fp_owned_def fp_inv_def)
qed

lemma fp_owned_perm: "fp_owned p held \<Longrightarrow> mset held = mset held' \<Longrightarrow> fp_owned p held'"
  by (simp add: fp_owned_def)

interpretation free_src: slot_source free_pop fp_owned
  by unfold_locales (auto intro: fp_owned_perm free_pop_some dest: free_pop_none)

interpretation ready_src: slot_source ready_pop fp_owned
  by unfold_locales (auto intro: fp_owned_perm ready_pop_some dest: ready_pop_none)

interpretation free_snk: slot_sink free_push fp_owned
  by unfold_locales (rule free_push_owned)

interpretation ready_snk: slot_sink ready_push fp_owned
  by unfold_locales (rule ready_push_owned)

lemma slot_write_owned:
  "fp_owned p held \<Longrightarrow> length bs = kWireSize \<Longrightarrow> fp_owned (slot_write p i bs) held"
  by (auto simp: fp_owned_def fp_inv_def slot_write_def dest!: set_update_subset_insert [THEN subsetD])

section \<open>Properties of the pool\<close>

lemma fp_new_inv: "rb_static_ok c \<Longrightarrow> fp_inv (fp_new c junk)"
  by (simp add: fp_inv_def fp_new_def rb_new_inv) (simp add: rb_new_def)

lemma fp_init_owned:
  assumes "fp_inv p"
  shows "fp_owned (fp_init p) [] \<and> rb_list (free (fp_init p)) = slot_ids (fp_cap p) \<and>
    rb_list (ready (fp_init p)) = [] \<and> Capacity (free (fp_init p)) = Capacity (free p)"
proof -
  have "rb_inv (rb_reset (free p))"
    using assms by (simp add: fp_inv_def rb_reset_inv)
  from push_all_room [OF this, of "slot_ids (fp_cap p)"]
  have "rb_inv (free (fp_init p))" "rb_list (free (fp_init p)) = slot_ids (fp_cap p)"
    "Capacity (free (fp_init p)) = Capacity (free p)"
    by (simp_all add: fp_init_def Let_def slot_ids_def length_rb_list [symmetric] del: length_rb_list)
  moreover have "ready (fp_init p) = rb_reset (ready p)" "slots (fp_init p) = slots p"
    by (simp_all add: fp_init_def Let_def)
  ultimately show ?thesis
    using assms by (simp add: fp_owned_def fp_inv_def rb_reset_inv)
qed

text \<open>
  \<open>init\<close> makes every slot free: whatever the rings held before, afterwards the free
  ring holds each slot number exactly once, in order, the ready ring is empty, and no
  thread holds a slot. In particular no push of the loop in \<open>init\<close> fails.
\<close>

lemma frame_pool_init:
  assumes "fp_inv p"
  shows "fp_owned (fp_init p) [] \<and> rb_list (free (fp_init p)) = slot_ids (fp_cap p) \<and>
    rb_list (ready (fp_init p)) = [] \<and> distinct (rb_list (free (fp_init p)))"
  using fp_init_owned [OF assms] distinct_slot_ids [of "fp_cap p"] rb_cap_bound [of "free p"] by simp

lemma frame_pool_init_witness:
  "fp_inv (fp_new 4096 0) \<and> fp_owned (fp_init (fp_new 4096 0)) [] \<and>
    rb_list (free (fp_init (fp_new 4096 0))) = slot_ids (fp_cap (fp_new 4096 0)) \<and>
    rb_list (ready (fp_init (fp_new 4096 0))) = [] \<and> distinct (rb_list (free (fp_init (fp_new 4096 0))))"
proof -
  have inv: "fp_inv (fp_new 4096 0)"
    by (rule fp_new_inv) (simp add: rb_static_ok_def)
  from inv frame_pool_init [OF inv] show ?thesis by blast
qed

lemma pool_facts:
  assumes "fp_owned p (i # held)"
  shows "unat i < length (slots p) \<and> i \<notin> set (rb_list (free p)) \<and> i \<notin> set (rb_list (ready p)) \<and>
    i \<notin> set held"
proof -
  have "length (slots p) = fp_cap p"
    using assms by (simp add: fp_owned_def fp_inv_def)
  then show ?thesis
    using fp_owned_held [OF assms, of i] fp_owned_distinct [OF assms] by auto
qed

text \<open>The contents of the rings after each operation.\<close>

lemma free_pop_cases:
  assumes "fp_owned p held"
  shows "case free_pop p of
      (None, p') \<Rightarrow> rb_list (free p) = [] \<and> p' = p
    | (Some i, p') \<Rightarrow> rb_list (free p) = i # rb_list (free p') \<and> ready p' = ready p \<and> slots p' = slots p \<and>
        fp_owned p' (i # held)"
proof -
  obtain r q where q: "rb_pop (free p) = (r, q)" by fastforce
  have inv: "rb_inv (free p)" using assms by (simp add: fp_owned_def fp_inv_def)
  show ?thesis
  proof (cases r)
    case None
    with ring.pop_None [OF inv, of q] free_pop_none [of p "p\<lparr>free := q\<rparr>"] q show ?thesis by (simp add: free_pop_def)
  next
    case (Some i)
    with ring.pop_Some [OF inv, of i q] free_pop_some [OF assms, of i "p\<lparr>free := q\<rparr>"] q show ?thesis
      by (simp add: free_pop_def)
  qed
qed

lemma ready_pop_cases:
  assumes "fp_owned p held"
  shows "case ready_pop p of
      (None, p') \<Rightarrow> rb_list (ready p) = [] \<and> p' = p
    | (Some i, p') \<Rightarrow> rb_list (ready p) = i # rb_list (ready p') \<and> free p' = free p \<and> slots p' = slots p \<and>
        fp_owned p' (i # held)"
proof -
  obtain r q where q: "rb_pop (ready p) = (r, q)" by fastforce
  have inv: "rb_inv (ready p)" using assms by (simp add: fp_owned_def fp_inv_def)
  show ?thesis
  proof (cases r)
    case None
    with ring.pop_None [OF inv, of q] ready_pop_none [of p "p\<lparr>ready := q\<rparr>"] q show ?thesis by (simp add: ready_pop_def)
  next
    case (Some i)
    with ring.pop_Some [OF inv, of i q] ready_pop_some [OF assms, of i "p\<lparr>ready := q\<rparr>"] q show ?thesis
      by (simp add: ready_pop_def)
  qed
qed

lemma pool_push_cases:
  assumes "fp_owned p (i # held)"
  shows "\<exists>p'. free_push p i = (True, p') \<and> rb_list (free p') = rb_list (free p) @ [i] \<and> ready p' = ready p \<and>
      slots p' = slots p \<and> fp_owned p' held"
    and "\<exists>p'. ready_push p i = (True, p') \<and> rb_list (ready p') = rb_list (ready p) @ [i] \<and> free p' = free p \<and>
      slots p' = slots p \<and> fp_owned p' held"
proof -
  obtain f r where f: "free_push p i = (True, f)" "fp_owned f held" and r: "ready_push p i = (True, r)" "fp_owned r held"
    using free_push_owned [OF assms] ready_push_owned [OF assms] by blast
  have inv: "rb_inv (free p)" "rb_inv (ready p)" using assms by (simp_all add: fp_owned_def fp_inv_def)
  have "rb_list (free f) = rb_list (free p) @ [i]" "ready f = ready p" "slots f = slots p"
    using f(1) ring.push_True [OF inv(1), of i] by (auto simp: free_push_def split: prod.splits)
  with f show "\<exists>p'. free_push p i = (True, p') \<and> rb_list (free p') = rb_list (free p) @ [i] \<and> ready p' = ready p \<and>
      slots p' = slots p \<and> fp_owned p' held" by blast
  have "rb_list (ready r) = rb_list (ready p) @ [i]" "free r = free p" "slots r = slots p"
    using r(1) ring.push_True [OF inv(2), of i] by (auto simp: ready_push_def split: prod.splits)
  with r show "\<exists>p'. ready_push p i = (True, p') \<and> rb_list (ready p') = rb_list (ready p) @ [i] \<and> free p' = free p \<and>
      slots p' = slots p \<and> fp_owned p' held" by blast
qed

text \<open>
  C25. Handing slots over, with every slot accounted for. Popping from either ring takes its
  oldest slot number and nothing else, and makes it the caller's; on an empty ring it changes
  nothing. Pushing a slot one holds to either ring never fails, appends it and gives it up;
  its number is inside the slot array and in neither ring before. No operation touches the
  other ring or the frames, and every slot stays in exactly one place. So the branches
  that handle a failed push are never taken as long as each ring operation is atomic.
\<close>

theorem pool_handover:
  assumes "fp_owned p held"
  shows "(case free_pop p of
      (None, p') \<Rightarrow> rb_list (free p) = [] \<and> p' = p
    | (Some i, p') \<Rightarrow> rb_list (free p) = i # rb_list (free p') \<and> ready p' = ready p \<and> slots p' = slots p \<and>
        fp_owned p' (i # held)) \<and>
    (case ready_pop p of
      (None, p') \<Rightarrow> rb_list (ready p) = [] \<and> p' = p
    | (Some i, p') \<Rightarrow> rb_list (ready p) = i # rb_list (ready p') \<and> free p' = free p \<and> slots p' = slots p \<and>
        fp_owned p' (i # held)) \<and>
    (\<forall>i rest. held = i # rest \<longrightarrow>
      (\<exists>p'. free_push p i = (True, p') \<and> rb_list (free p') = rb_list (free p) @ [i] \<and> ready p' = ready p \<and>
        slots p' = slots p \<and> fp_owned p' rest) \<and>
      (\<exists>p'. ready_push p i = (True, p') \<and> rb_list (ready p') = rb_list (ready p) @ [i] \<and> free p' = free p \<and>
        slots p' = slots p \<and> fp_owned p' rest) \<and>
      unat i < length (slots p) \<and> i \<notin> set (rb_list (free p)) \<and> i \<notin> set (rb_list (ready p)) \<and> i \<notin> set rest)"
  using free_pop_cases [OF assms] ready_pop_cases [OF assms] pool_push_cases [of p] pool_facts [of p] assms by blast

text \<open>A pool of two slots with slot 0 taken.\<close>

definition taken_pool :: FramePool where
  "taken_pool = snd (free_pop (fp_init (fp_new 2 0)))"

lemma taken_pool_owned: "fp_owned taken_pool [0]"
proof -
  have "fp_inv (fp_new 2 0)"
    by (rule fp_new_inv) (simp add: rb_static_ok_def)
  from fp_init_owned [OF this]
  have own: "fp_owned (fp_init (fp_new 2 0)) []"
    and ids: "rb_list (free (fp_init (fp_new 2 0))) = [0, 1]"
    by (simp_all add: fp_new_def rb_new_def slot_ids_def upt_rec)
  have "fst (free_pop (fp_init (fp_new 2 0))) = Some 0"
    using own ring.pop_result [of "free (fp_init (fp_new 2 0))"]
    by (auto simp: ids free_pop_def fp_owned_def fp_inv_def split: prod.splits)
  then have "free_pop (fp_init (fp_new 2 0)) = (Some 0, taken_pool)"
    by (simp add: taken_pool_def prod_eq_iff)
  from free_pop_some [OF own this] show ?thesis .
qed

theorem pool_handover_witness:
  "(\<exists>p'. ready_push taken_pool 0 = (True, p') \<and> rb_list (ready p') = rb_list (ready taken_pool) @ [0] \<and> fp_owned p' []) \<and>
   (\<exists>p'. free_push taken_pool 0 = (True, p') \<and> rb_list (free p') = rb_list (free taken_pool) @ [0] \<and> fp_owned p' []) \<and>
   0 \<notin> set (rb_list (free taken_pool)) \<and> unat (0 :: size_t) < length (slots taken_pool)"
  using pool_handover [OF taken_pool_owned] by blast

end
