(* ===== verification/Decimal.thy ===== *)
theory Decimal
  imports MD_Prelude
begin

text \<open>
  Decimal numerals: how the standard library prints unsigned integers (\<^verbatim>\<open>operator<<\<close>) and
  how \<^verbatim>\<open>std::from_chars\<close> reads integers. Both are used by several components.
\<close>

section \<open>Printing\<close>

definition digit :: "nat \<Rightarrow> char" where
  "digit n = char_of (48 + n)"

fun show_nat :: "nat \<Rightarrow> string" where
  "show_nat n = (if n < 10 then [digit n] else show_nat (n div 10) @ [digit (n mod 10)])"

declare show_nat.simps [simp del]

definition is_digit :: "char \<Rightarrow> bool" where
  "is_digit ch \<longleftrightarrow> 48 \<le> (of_char ch :: nat) \<and> (of_char ch :: nat) \<le> 57"

definition digit_val :: "char \<Rightarrow> nat" where
  "digit_val ch = of_char ch - 48"

definition dec_val :: "string \<Rightarrow> nat" where
  "dec_val ds = foldl (\<lambda>acc ch. acc * 10 + digit_val ch) 0 ds"

lemma of_char_digit: "n < 10 \<Longrightarrow> of_char (digit n) = (48 + n :: nat)"
  by (simp add: digit_def)

lemma is_digit_digit [simp]: "n < 10 \<Longrightarrow> is_digit (digit n)"
  by (simp add: is_digit_def of_char_digit)

lemma digit_val_digit [simp]: "n < 10 \<Longrightarrow> digit_val (digit n) = n"
  by (simp add: digit_val_def of_char_digit)

lemma dec_val_snoc [simp]: "dec_val (ds @ [ch]) = dec_val ds * 10 + digit_val ch"
  by (simp add: dec_val_def)

lemma dec_val_show_nat [simp]: "dec_val (show_nat n) = n"
proof (induction n rule: show_nat.induct)
  case (1 n)
  show ?case
  proof (cases "n < 10")
    case True
    then show ?thesis
      using dec_val_snoc [of "[]" "digit n"] by (simp add: show_nat.simps [of n] dec_val_def)
  next
    case False
    with "1.IH" show ?thesis by (simp add: show_nat.simps [of n])
  qed
qed

lemma show_nat_digits: "list_all is_digit (show_nat n)"
proof (induction n rule: show_nat.induct)
  case (1 n)
  then show ?case by (subst show_nat.simps) simp
qed

lemma show_nat_nonempty [simp]: "show_nat n \<noteq> []"
  by (subst show_nat.simps) simp

lemma show_nat_inject [simp]: "show_nat m = show_nat n \<longleftrightarrow> m = n"
  by (metis dec_val_show_nat)

text \<open>A numeral ends where the first other character begins.\<close>

lemma show_nat_prefix_unique:
  assumes "show_nat m @ ch # xs = show_nat n @ ch' # ys" and "\<not> is_digit ch" and "\<not> is_digit ch'"
  shows "m = n \<and> ch = ch' \<and> xs = ys"
proof -
  have "takeWhile is_digit (show_nat k @ c # zs) = show_nat k" if "\<not> is_digit c" for k c zs
    using that show_nat_digits [of k] by (simp add: takeWhile_append2 list_all_iff)
  with assms have "show_nat m = show_nat n" by metis
  with assms(1) show ?thesis by simp
qed

section \<open>Reading: \<^verbatim>\<open>std::from_chars\<close>\<close>

datatype errc = Errc_ok | Invalid_argument | Result_out_of_range

text \<open>
  The base-10 overloads for \<^verbatim>\<open>unsigned int\<close> and \<^verbatim>\<open>int\<close>: the longest run of digits is
  consumed, a minus sign only for the signed type, no white space and no plus sign. The
  result is the value left in the output variable (which keeps \<open>v\<close> on failure), the
  characters after the position \<^verbatim>\<open>ptr\<close>, and the error code.
\<close>

definition from_chars_uint :: "string \<Rightarrow> u32 \<Rightarrow> u32 \<times> string \<times> errc" where
  "from_chars_uint s v =
     (let ds = takeWhile is_digit s; rest = dropWhile is_digit s in
      if ds = [] then (v, s, Invalid_argument)
      else if dec_val ds < 2 ^ 32 then (of_nat (dec_val ds), rest, Errc_ok)
      else (v, rest, Result_out_of_range))"

definition from_chars_int :: "string \<Rightarrow> int \<Rightarrow> int \<times> string \<times> errc" where
  "from_chars_int s v =
     (let neg = (s \<noteq> [] \<and> hd s = CHR ''-''); body = (if neg then tl s else s);
          ds = takeWhile is_digit body; rest = dropWhile is_digit body;
          x = (if neg then - int (dec_val ds) else int (dec_val ds)) in
      if ds = [] then (v, s, Invalid_argument)
      else if - (2 ^ 31) \<le> x \<and> x < 2 ^ 31 then (x, rest, Errc_ok)
      else (v, rest, Result_out_of_range))"

definition show_int :: "int \<Rightarrow> string" where
  "show_int x = (if x < 0 then CHR ''-'' # show_nat (nat (- x)) else show_nat (nat x))"

lemma takeWhile_show_nat [simp]: "takeWhile is_digit (show_nat n) = show_nat n"
  using show_nat_digits [of n] by (simp add: list_all_iff)

lemma dropWhile_show_nat [simp]: "dropWhile is_digit (show_nat n) = []"
  using show_nat_digits [of n] by (simp add: list_all_iff)

lemma show_nat_hd [simp]: "is_digit (hd (show_nat n))"
  using show_nat_digits [of n] show_nat_nonempty [of n] by (cases "show_nat n") auto

lemma from_chars_uint_show:
  "n < 2 ^ 32 \<Longrightarrow> from_chars_uint (show_nat n) v = (of_nat n, [], Errc_ok)"
  by (simp add: from_chars_uint_def Let_def)

lemma from_chars_int_show:
  assumes "- (2 ^ 31) \<le> x" and "x < 2 ^ 31"
  shows "from_chars_int (show_int x) v = (x, [], Errc_ok)"
proof (cases "x < 0")
  case True
  with assms show ?thesis
    by (simp add: from_chars_int_def show_int_def Let_def)
next
  case False
  have "hd (show_nat (nat x)) \<noteq> CHR ''-''"
    using show_nat_hd [of "nat x"] by (auto simp: is_digit_def)
  with False assms show ?thesis
    by (simp add: from_chars_int_def show_int_def Let_def)
qed

lemma from_chars_uint_ok:
  assumes "from_chars_uint s v = (x, [], Errc_ok)"
  shows "s \<noteq> [] \<and> list_all is_digit s \<and> dec_val s < 2 ^ 32 \<and> x = of_nat (dec_val s)"
proof -
  from assms have d: "dropWhile is_digit s = []" and t: "takeWhile is_digit s \<noteq> []"
    and x: "x = of_nat (dec_val (takeWhile is_digit s))" and b: "dec_val (takeWhile is_digit s) < 2 ^ 32"
    by (auto simp: from_chars_uint_def Let_def split: if_splits)
  from d have all: "\<forall>ch\<in>set s. is_digit ch" by (simp add: dropWhile_eq_Nil_conv)
  then have "takeWhile is_digit s = s" by (simp add: takeWhile_eq_all_conv)
  with t x b all show ?thesis by (simp add: list_all_iff)
qed

end
