(* ===== verification/Metrics_Model.thy ===== *)
theory Metrics_Model
  imports Decimal
begin

text \<open>
  The engine's counters: \<^verbatim>\<open>src/src/common/metrics/metrics.hpp\<close> and \<^verbatim>\<open>metrics.cpp\<close>. Each
  counter is a 64-bit atomic incremented with \<^verbatim>\<open>fetch_add\<close>, which wraps around.
\<close>

record Snapshot =
  snap_processed :: u64
  snap_received :: u64
  snap_decode_errors :: u64
  snap_drops :: u64
  snap_seq_num_gaps :: u64

record Metrics =
  processed :: u64
  received :: u64
  decode_errors :: u64
  drops :: u64
  seq_num_gaps :: u64

definition metrics_zero :: Metrics where
  "metrics_zero = \<lparr>processed = 0, received = 0, decode_errors = 0, drops = 0, seq_num_gaps = 0\<rparr>"

definition inc_processed :: "u64 \<Rightarrow> Metrics \<Rightarrow> Metrics" where
  "inc_processed n m = m\<lparr>processed := processed m + n\<rparr>"

definition inc_received :: "u64 \<Rightarrow> Metrics \<Rightarrow> Metrics" where
  "inc_received n m = m\<lparr>received := received m + n\<rparr>"

definition inc_decode_error :: "u64 \<Rightarrow> Metrics \<Rightarrow> Metrics" where
  "inc_decode_error n m = m\<lparr>decode_errors := decode_errors m + n\<rparr>"

definition inc_drops :: "u64 \<Rightarrow> Metrics \<Rightarrow> Metrics" where
  "inc_drops n m = m\<lparr>drops := drops m + n\<rparr>"

definition inc_seq_num_gaps :: "u64 \<Rightarrow> Metrics \<Rightarrow> Metrics" where
  "inc_seq_num_gaps n m = m\<lparr>seq_num_gaps := seq_num_gaps m + n\<rparr>"

definition snapshot :: "Metrics \<Rightarrow> Snapshot" where
  "snapshot m = \<lparr>snap_processed = processed m, snap_received = received m,
     snap_decode_errors = decode_errors m, snap_drops = drops m,
     snap_seq_num_gaps = seq_num_gaps m\<rparr>"

abbreviation show_u64 :: "u64 \<Rightarrow> string" where
  "show_u64 w \<equiv> show_nat (unat w)"

definition metrics_to_string :: "Snapshot \<Rightarrow> string" where
  "metrics_to_string s =
     ''processed='' @ show_u64 (snap_processed s) @ '' received='' @ show_u64 (snap_received s) @
     '' decode_errors='' @ show_u64 (snap_decode_errors s) @ '' drops='' @ show_u64 (snap_drops s) @
     '' seq_gaps='' @ show_u64 (snap_seq_num_gaps s)"

lemmas metrics_simps = inc_processed_def inc_received_def inc_decode_error_def inc_drops_def
  inc_seq_num_gaps_def

lemma not_digit_space [simp]: "\<not> is_digit (CHR '' '')"
  by (simp add: is_digit_def)

text \<open>
  The metrics line loses nothing: two snapshots that print the same line are equal, so
  every counter can be read back from the log.
\<close>

lemma metrics_to_string_inject:
  "metrics_to_string a = metrics_to_string b \<longleftrightarrow> a = b"
proof
  assume "metrics_to_string a = metrics_to_string b"
  then show "a = b"
    by (auto simp: metrics_to_string_def simp flip: word_unat_eq_iff
        dest!: show_nat_prefix_unique intro: Snapshot.equality)
qed simp

end
