(* ===== verification/Normalize.thy ===== *)
theory Normalize
  imports Protocol
begin

text \<open>
  Validation of incoming messages: \<^verbatim>\<open>src/src/engine/normalize/normalize.cpp\<close>.
\<close>

definition isSizeMatch :: "nat \<Rightarrow> bool" where
  "isSizeMatch len \<longleftrightarrow> len = kWireSize"

definition sanityCheck :: "MarketDataMsg \<Rightarrow> bool" where
  "sanityCheck msg \<longleftrightarrow> 0 \<le>s bid_price msg \<and> ask_price msg \<noteq> 0 \<and>
     bid_price msg \<le>s ask_price msg \<and> 0 <s bid_size msg \<and> 0 <s ask_size msg"

definition decode_msg ::
  "endian \<Rightarrow> bytes \<Rightarrow> nat \<Rightarrow> MarketDataMsg \<Rightarrow> (bool \<times> MarketDataMsg) option" where
  "decode_msg e data len out =
     (case decode e data len out of
        None \<Rightarrow> None
      | Some (ok, out') \<Rightarrow> if \<not> ok then Some (False, out') else Some (True, out'))"

text \<open>
  \<open>sanityCheck\<close> accepts exactly the messages whose signed values satisfy
  \<open>0 \<le> bid \<le> ask\<close>, \<open>0 < ask\<close> and positive sizes: testing the ask price for nonzero is
  enough because the other tests bound it from below.
\<close>

lemma sanityCheck_meaning:
  "sanityCheck m \<longleftrightarrow> 0 \<le> sint (bid_price m) \<and> sint (bid_price m) \<le> sint (ask_price m) \<and>
     0 < sint (ask_price m) \<and> 0 < sint (bid_size m) \<and> 0 < sint (ask_size m)"
proof -
  have "ask_price m \<noteq> 0 \<longleftrightarrow> sint (ask_price m) \<noteq> 0"
    by (metis sint_0 signed_eq_0_iff)
  then show ?thesis
    by (auto simp: sanityCheck_def word_sle_eq word_sless_alt)
qed

lemma decode_msg_eq: "decode_msg e data len out = decode e data len out"
  by (auto simp: decode_msg_def split: option.split)

end
