(* ===== verification/Sequencing.thy ===== *)
theory Sequencing
  imports Metrics_Model
begin

text \<open>
  What the three engines do with sequence numbers, as a specification: each message is the
  first, in order, ahead of the expected number by a gap, or stale. The engines write this
  out separately (\<^verbatim>\<open>process_loop\<close> in v1, \<^verbatim>\<open>process\<close> in v2, \<^verbatim>\<open>process_one\<close> in v3); their
  theories show that each follows this specification, and the consequences are proved here
  once for all of them.
\<close>

section \<open>The specification\<close>

text \<open>The members \<^verbatim>\<open>expected_seq_num_\<close> and \<^verbatim>\<open>seq_initialized_\<close> every engine has.\<close>

record seq_state =
  expected_seq_num :: u64
  seq_initialized :: bool

definition seq_start :: seq_state where
  "seq_start = \<lparr>expected_seq_num = 0, seq_initialized = False\<rparr>"

datatype verdict = First | In_order | Gap u64 | Stale

definition classify :: "seq_state \<Rightarrow> u64 \<Rightarrow> verdict" where
  "classify s n =
     (if \<not> seq_initialized s then First
      else if n = expected_seq_num s then In_order
      else if expected_seq_num s < n then Gap (n - expected_seq_num s)
      else Stale)"

definition advance :: "seq_state \<Rightarrow> u64 \<Rightarrow> seq_state" where
  "advance s n =
     (if classify s n = Stale then s else \<lparr>expected_seq_num = n + 1, seq_initialized = True\<rparr>)"

primrec account :: "verdict \<Rightarrow> Metrics \<Rightarrow> Metrics" where
  "account First m = inc_processed 1 m"
| "account In_order m = inc_processed 1 m"
| "account (Gap g) m = inc_processed 1 (inc_seq_num_gaps g m)"
| "account Stale m = inc_drops 1 m"

text \<open>One decoded message: the sequence state and the counters it leaves.\<close>

definition seq_step :: "seq_state \<times> Metrics \<Rightarrow> u64 \<Rightarrow> seq_state \<times> Metrics" where
  "seq_step sm n = (advance (fst sm) n, account (classify (fst sm) n) (inc_received 1 (snd sm)))"

definition seq_run :: "seq_state \<times> Metrics \<Rightarrow> u64 list \<Rightarrow> seq_state \<times> Metrics" where
  "seq_run sm ns = foldl seq_step sm ns"

lemmas seq_defs = seq_step_def classify_def advance_def metrics_simps

section \<open>Conservation\<close>

text \<open>
  The balances hold in 64-bit arithmetic, so they survive counters that wrap around.
\<close>

definition seq_balance :: "seq_state \<times> Metrics \<Rightarrow> u64" where
  "seq_balance sm = received (snd sm) - processed (snd sm) - drops (snd sm)"

definition gap_balance :: "seq_state \<times> Metrics \<Rightarrow> u64" where
  "gap_balance sm = expected_seq_num (fst sm) - processed (snd sm) - seq_num_gaps (snd sm)"

lemma seq_step_balance: "seq_balance (seq_step sm n) = seq_balance sm"
  by (cases "classify (fst sm) n") (simp_all add: seq_balance_def seq_step_def metrics_simps)

lemma seq_step_gap_balance:
  "seq_initialized (fst sm) \<Longrightarrow> gap_balance (seq_step sm n) = gap_balance sm"
  by (auto simp: gap_balance_def seq_defs)

lemma seq_step_init [simp]: "seq_initialized (fst (seq_step sm n))"
  by (auto simp: seq_defs)

lemma seq_run_balance: "seq_balance (seq_run sm ns) = seq_balance sm"
  by (induction ns arbitrary: sm) (simp_all add: seq_run_def seq_step_balance)

lemma seq_run_gap_balance:
  "seq_initialized (fst sm) \<Longrightarrow> gap_balance (seq_run sm ns) = gap_balance sm"
  by (induction ns arbitrary: sm) (simp_all add: seq_run_def seq_step_gap_balance)

lemma seq_run_Cons: "seq_run sm (n # ns) = seq_run (seq_step sm n) ns"
  by (simp add: seq_run_def)

lemma seq_run_append: "seq_run sm (ms @ ns) = seq_run (seq_run sm ms) ns"
  by (simp add: seq_run_def)

lemma seq_run_received: "received (snd (seq_run sm ns)) = received (snd sm) + of_nat (length ns)"
proof (induction ns arbitrary: sm)
  case Nil
  then show ?case by (simp add: seq_run_def)
next
  case (Cons n ns)
  have "received (snd (seq_step sm n)) = received (snd sm) + 1"
    by (cases "classify (fst sm) n") (simp_all add: seq_step_def metrics_simps)
  with Cons.IH [of "seq_step sm n"] show ?case by (simp add: seq_run_Cons)
qed

lemma seq_run_decode_errors [simp]:
  "decode_errors (snd (seq_run sm ns)) = decode_errors (snd sm)"
proof (induction ns arbitrary: sm)
  case Nil
  then show ?case by (simp add: seq_run_def)
next
  case (Cons n ns)
  have "decode_errors (snd (seq_step sm n)) = decode_errors (snd sm)"
    by (cases "classify (fst sm) n") (simp_all add: seq_step_def metrics_simps)
  with Cons.IH [of "seq_step sm n"] show ?case by (simp add: seq_run_Cons)
qed

section \<open>Increasing sequence numbers\<close>

text \<open>
  On a strictly increasing stream that stays below the largest 64-bit number, nothing is
  dropped, everything is processed, and the gap counter is the number of missing numbers.
\<close>

lemma seq_run_increasing:
  assumes "sorted_wrt (<) (k # ns)" and "seq_initialized (fst sm)"
    and "expected_seq_num (fst sm) = k + 1" and "\<forall>n\<in>set (k # ns). n < - 1"
  shows "expected_seq_num (fst (seq_run sm ns)) = last (k # ns) + 1 \<and>
    drops (snd (seq_run sm ns)) = drops (snd sm) \<and>
    processed (snd (seq_run sm ns)) = processed (snd sm) + of_nat (length ns)"
  using assms
proof (induction ns arbitrary: k sm)
  case Nil
  then show ?case by (simp add: seq_run_def)
next
  case (Cons n ns)
  have kn: "k < n" using Cons.prems(1) by simp
  then have "k + 1 \<le> n" by (simp add: inc_le)
  then have step: "fst (seq_step sm n) = \<lparr>expected_seq_num = n + 1, seq_initialized = True\<rparr>"
    "drops (snd (seq_step sm n)) = drops (snd sm)"
    "processed (snd (seq_step sm n)) = processed (snd sm) + 1"
    using Cons.prems(2,3) by (auto simp: seq_defs)
  have "sorted_wrt (<) (n # ns)" "\<forall>i\<in>set (n # ns). i < - 1"
    using Cons.prems(1,4) by auto
  from Cons.IH [OF this(1) _ _ this(2), of "seq_step sm n"] step show ?case
    by (simp add: seq_run_Cons)
qed

lemma seq_run_increasing_start:
  assumes "sorted_wrt (<) (k # ns)" and "\<forall>n\<in>set (k # ns). n < - 1"
  shows "let m = snd (seq_run (seq_start, metrics_zero) (k # ns)) in
    drops m = 0 \<and> processed m = of_nat (Suc (length ns)) \<and> received m = of_nat (Suc (length ns)) \<and>
    seq_num_gaps m = last (k # ns) - k + 1 - of_nat (Suc (length ns))"
proof -
  let ?sm = "seq_step (seq_start, metrics_zero) k"
  have start: "fst ?sm = \<lparr>expected_seq_num = k + 1, seq_initialized = True\<rparr>"
    "processed (snd ?sm) = 1" "drops (snd ?sm) = 0" "received (snd ?sm) = 1" "seq_num_gaps (snd ?sm) = 0"
    by (simp_all add: seq_defs seq_start_def metrics_zero_def)
  have "gap_balance (seq_run ?sm ns) = gap_balance ?sm"
    by (rule seq_run_gap_balance) simp
  with start seq_run_increasing [OF assms(1) _ _ assms(2), of ?sm] seq_run_received [of ?sm ns]
  show ?thesis
    by (simp add: seq_run_Cons Let_def gap_balance_def algebra_simps)
qed

section \<open>The interface of an engine\<close>

text \<open>
  An engine tracks sequence numbers if handling a decoded message moves its sequence state
  as the specification does; it also counts if its counters move that way.
\<close>

locale sequencer =
  fixes handle :: "'e \<Rightarrow> u64 \<Rightarrow> 'e"
    and seq_of :: "'e \<Rightarrow> seq_state"
  assumes handle_seq: "seq_of (handle e n) = advance (seq_of e) n"
begin

lemma handle_init: "seq_initialized (seq_of (handle e n))"
  using handle_seq [of e n] by (auto simp: advance_def classify_def split: if_splits)

text \<open>A number that is not ahead of the expected one changes nothing.\<close>

lemma handle_stale:
  "seq_initialized (seq_of e) \<Longrightarrow> n < expected_seq_num (seq_of e) \<Longrightarrow> seq_of (handle e n) = seq_of e"
  using handle_seq [of e n] by (auto simp: advance_def classify_def)

lemma expected_mono:
  assumes "seq_initialized (seq_of e)" and "n < - 1"
  shows "expected_seq_num (seq_of e) \<le> expected_seq_num (seq_of (handle e n))"
proof -
  have "n \<le> n + 1" using assms(2) by unat_arith
  then show ?thesis
    using assms(1) handle_seq [of e n] by (auto simp: advance_def classify_def split: if_splits)
qed

end

locale metered_sequencer = sequencer +
  fixes met_of :: "'a \<Rightarrow> Metrics"
  assumes handle_met: "met_of (handle e n) = account (classify (seq_of e) n) (inc_received 1 (met_of e))"
begin

lemma handle_step: "(seq_of (handle e n), met_of (handle e n)) = seq_step (seq_of e, met_of e) n"
  by (simp add: seq_step_def handle_seq handle_met)

lemma handle_run: "(seq_of (foldl handle e ns), met_of (foldl handle e ns)) = seq_run (seq_of e, met_of e) ns"
  by (induction ns arbitrary: e) (simp_all add: seq_run_def handle_step)

lemma conservation:
  "received (met_of (foldl handle e ns)) - processed (met_of (foldl handle e ns)) -
     drops (met_of (foldl handle e ns)) =
   received (met_of e) - processed (met_of e) - drops (met_of e)"
  using seq_run_balance [of "(seq_of e, met_of e)" ns] handle_run [of e ns]
  by (metis fst_conv seq_balance_def snd_conv)

end

end
