(* ===== verification/Posix.thy ===== *)
theory Posix
  imports MD_Prelude "HOL-Library.Multiset"
begin

text \<open>
  The operating system as the network code sees it. It is not part of the program, so it is
  an argument of every operation that makes system calls: the \<open>world\<close> holds the answers the
  kernel is going to give, in order, and records each call with its answer. Nothing is
  assumed of the answers. An operation that runs out of answers has not returned:
  \<^const>\<open>None\<close>.
\<close>

datatype errno = EINTR | EAGAIN | EWOULDBLOCK | ENOBUFS | EBADF | EINVAL | EOTHER

text \<open>
  Socket addresses. The port is the port number itself: \<^verbatim>\<open>htons\<close> only fixes its byte order
  in memory.
\<close>

record sockaddr_in =
  sin_inet :: bool
  sin_port :: u16
  sin_addr :: u32

definition no_addr :: sockaddr_in where
  "no_addr = \<lparr>sin_inet = False, sin_port = 0, sin_addr = 0\<rparr>"

definition INADDR_ANY :: u32 where
  "INADDR_ANY = 0"

datatype sockopt = SO_REUSEADDR | SO_SNDBUF | SO_RCVBUF

text \<open>The calls the sources make, with the arguments their behaviour depends on.\<close>

datatype syscall =
    Sys_socket_dgram bool                     \<comment> \<open>non-blocking?\<close>
  | Sys_socket_stream bool
  | Sys_setsockopt int sockopt int
  | Sys_rcvtimeo int int int                  \<comment> \<open>\<^verbatim>\<open>SO_RCVTIMEO\<close>: seconds and microseconds\<close>
  | Sys_bind int sockaddr_in
  | Sys_listen int
  | Sys_connect int sockaddr_in
  | Sys_close int
  | Sys_send int bytes
  | Sys_sendto int bytes sockaddr_in
  | Sys_sendmmsg int "bytes list" "sockaddr_in option"
  | Sys_epoll_create
  | Sys_eventfd
  | Sys_timerfd_create
  | Sys_timerfd_settime int nat               \<comment> \<open>period in seconds\<close>
  | Sys_epoll_add int int
  | Sys_epoll_wait int
  | Sys_recv int nat
  | Sys_read int
  | Sys_accept int
  | Sys_sleep_until int                       \<comment> \<open>a time of the steady clock, in nanoseconds\<close>

text \<open>The result of a call: a non-negative return value, or \<open>-1\<close> with \<^verbatim>\<open>errno\<close>.\<close>

datatype sysret = Ret nat | Fail errno

text \<open>A received datagram, and the results of the receiving calls and of \<^verbatim>\<open>epoll_wait\<close>.\<close>

record rxmsg =
  rx_data :: bytes
  rx_trunc :: bool
  rx_peer :: sockaddr_in

datatype rxret = Rx "rxmsg list" | Rx_fail errno

record epoll_ev =
  ev_fd :: int
  ev_err :: bool       \<comment> \<open>\<^verbatim>\<open>EPOLLERR\<close> or \<^verbatim>\<open>EPOLLHUP\<close>\<close>
  ev_rdhup :: bool

datatype evret = Evs "epoll_ev list" | Ev_fail errno

record world =
  script :: "sysret list"
  rxs :: "rxret list"
  evs :: "evret list"
  trace :: "(syscall \<times> sysret) list"

definition sys :: "syscall \<Rightarrow> world \<Rightarrow> (sysret \<times> world) option" where
  "sys c w = (case script w of [] \<Rightarrow> None
     | r # rs \<Rightarrow> Some (r, w\<lparr>script := rs, trace := trace w @ [(c, r)]\<rparr>))"

text \<open>The sources ignore the result of \<^verbatim>\<open>close\<close>.\<close>

definition sys_close :: "int \<Rightarrow> world \<Rightarrow> world" where
  "sys_close fd w = w\<lparr>trace := trace w @ [(Sys_close fd, Ret 0)]\<rparr>"

text \<open>
  A call whose failure the caller handles and returns: \<open>on_fail\<close> is the result in that case,
  \<open>on_ok\<close> the code that follows. \<open>call_if\<close> makes the call only under a condition.
\<close>

definition call ::
  "syscall \<Rightarrow> world \<Rightarrow> (world \<Rightarrow> 'a) \<Rightarrow> (nat \<Rightarrow> world \<Rightarrow> 'a option) \<Rightarrow> 'a option" where
  "call c w on_fail on_ok = (case sys c w of
      None \<Rightarrow> None
    | Some (Fail e, w') \<Rightarrow> Some (on_fail w')
    | Some (Ret n, w') \<Rightarrow> on_ok n w')"

definition call_if ::
  "bool \<Rightarrow> syscall \<Rightarrow> world \<Rightarrow> (world \<Rightarrow> 'a) \<Rightarrow> (world \<Rightarrow> 'a option) \<Rightarrow> 'a option" where
  "call_if b c w on_fail on_ok = (if b then call c w on_fail (\<lambda>_. on_ok) else on_ok w)"

text \<open>Sleeping until a time has no result; the time is recorded.\<close>

definition sys_sleep_until :: "int \<Rightarrow> world \<Rightarrow> world" where
  "sys_sleep_until t w = w\<lparr>trace := trace w @ [(Sys_sleep_until t, Ret 0)]\<rparr>"

section \<open>Open descriptors\<close>

text \<open>The descriptors a trace has opened and not closed, as a multiset.\<close>

fun fd_effect :: "syscall \<times> sysret \<Rightarrow> int multiset \<Rightarrow> int multiset" where
  "fd_effect (Sys_socket_dgram b, Ret fd) M = add_mset (int fd) M"
| "fd_effect (Sys_socket_stream b, Ret fd) M = add_mset (int fd) M"
| "fd_effect (Sys_epoll_create, Ret fd) M = add_mset (int fd) M"
| "fd_effect (Sys_eventfd, Ret fd) M = add_mset (int fd) M"
| "fd_effect (Sys_timerfd_create, Ret fd) M = add_mset (int fd) M"
| "fd_effect (Sys_accept l, Ret fd) M = add_mset (int fd) M"
| "fd_effect (Sys_close fd, r) M = M - {#fd#}"
| "fd_effect _ M = M"

definition open_fds :: "world \<Rightarrow> int multiset" where
  "open_fds w = fold fd_effect (trace w) {#}"

lemma open_fds_sys:
  "sys c w = Some (r, w') \<Longrightarrow> open_fds w' = fd_effect (c, r) (open_fds w)"
  by (auto simp: sys_def open_fds_def split: list.splits)

lemma open_fds_close [simp]: "open_fds (sys_close fd w) = open_fds w - {#fd#}"
  by (simp add: open_fds_def sys_close_def)

lemma open_fds_sleep [simp]: "open_fds (sys_sleep_until t w) = open_fds w"
  by (simp add: open_fds_def sys_sleep_until_def)

lemma call_Some:
  assumes "call c w f k = Some x"
  obtains e w' where "sys c w = Some (Fail e, w')" "x = f w'"
    "open_fds w' = fd_effect (c, Fail e) (open_fds w)"
  | n w' where "sys c w = Some (Ret n, w')" "k n w' = Some x"
    "open_fds w' = fd_effect (c, Ret n) (open_fds w)"
  using assms by (auto simp: call_def open_fds_sys split: option.splits sysret.splits)

lemma call_if_Some:
  assumes "call_if b c w f k = Some x"
  obtains e w' where "b" "sys c w = Some (Fail e, w')" "x = f w'"
    "open_fds w' = fd_effect (c, Fail e) (open_fds w)"
  | w' where "k w' = Some x"
    "open_fds w' = open_fds w \<or> (\<exists>n. open_fds w' = fd_effect (c, Ret n) (open_fds w))"
  using assms by (auto simp: call_if_def elim!: call_Some split: if_splits)

lemma fd_effect_fail [simp]: "(\<And>fd. c \<noteq> Sys_close fd) \<Longrightarrow> fd_effect (c, Fail e) M = M"
  by (cases c) auto

lemma sys_Some_iff:
  "sys c w = Some (r, w') \<longleftrightarrow>
     (\<exists>rs. script w = r # rs \<and> w' = w\<lparr>script := rs, trace := trace w @ [(c, r)]\<rparr>)"
  by (auto simp: sys_def split: list.splits)

end
