(* ===== verification/Udp_Server.thy ===== *)
theory Udp_Server
  imports Frame_Pool Metrics_Model Posix
begin

text \<open>
  The receiving side of engine v1, \<^verbatim>\<open>src/src/common/net/v1/udp_server.hpp\<close>: opening the
  sockets, the \<^verbatim>\<open>epoll\<close> loop, and what happens to each received datagram. The free and
  ready rings are used here and by the consumer thread; interleaving with it is the subject
  of theory \<open>Engine_V1\<close>.
\<close>

section \<open>State\<close>

record ServerHandle =
  running :: bool
  sock_fd :: int
  epfd :: int
  wake_fd :: int
  joinable :: bool       \<comment> \<open>\<^verbatim>\<open>io_thread.joinable()\<close>\<close>

definition handle_new :: ServerHandle where
  "handle_new = \<lparr>running = False, sock_fd = - 1, epfd = - 1, wake_fd = - 1, joinable = False\<rparr>"

section \<open>One datagram\<close>

text \<open>
  The body of the loop over the messages of one \<^verbatim>\<open>recvmmsg\<close> call. The receive buffers are
  2048 bytes, so a message holds the bytes of its datagram unless it was truncated.
\<close>

definition on_datagram :: "FramePool \<times> Metrics \<Rightarrow> rxmsg \<Rightarrow> FramePool \<times> Metrics" where
  "on_datagram pm msg =
     (let (pool, m) = pm in
      if rx_trunc msg \<or> length (rx_data msg) \<noteq> kWireSize then (pool, inc_drops 1 m)
      else case free_pop pool of
          (None, pool) \<Rightarrow> (pool, inc_drops 1 m)
        | (Some idx, pool) \<Rightarrow>
            (let pool = slot_write pool idx (take kWireSize (rx_data msg)) in
             case ready_push pool idx of
               (True, pool) \<Rightarrow> (pool, m)
             | (False, pool) \<Rightarrow> (snd (free_push pool idx), inc_drops 1 m)))"

section \<open>The receive loop\<close>

text \<open>
  Draining the socket: \<^verbatim>\<open>recvmmsg\<close> until it would block. Any other error, and a return of 0,
  also leave the loop; \<^verbatim>\<open>EINTR\<close> and a batch of messages continue it. \<^const>\<open>None\<close>: the
  answers given end inside the loop.
\<close>

fun drain_socket :: "rxret list \<Rightarrow> FramePool \<times> Metrics \<Rightarrow> ((FramePool \<times> Metrics) \<times> rxret list) option" where
  "drain_socket [] pm = None"
| "drain_socket (Rx [] # rs) pm = Some (pm, rs)"
| "drain_socket (Rx (m # ms) # rs) pm = drain_socket rs (foldl on_datagram pm (m # ms))"
| "drain_socket (Rx_fail e # rs) pm =
     (if e = EAGAIN \<or> e = EWOULDBLOCK then Some (pm, rs)
      else if e = EINTR then drain_socket rs pm
      else Some (pm, rs))"

text \<open>
  The events of one \<^verbatim>\<open>epoll_wait\<close>. The wake descriptor is drained by reads whose data is not
  used, and clears \<^verbatim>\<open>running\<close>; an event for a descriptor other than the socket is skipped; an
  error event clears \<^verbatim>\<open>running\<close> and leaves the loop over the events.
\<close>

fun on_events :: "epoll_ev list \<Rightarrow> ServerHandle \<Rightarrow> FramePool \<times> Metrics \<Rightarrow> rxret list \<Rightarrow>
    (ServerHandle \<times> (FramePool \<times> Metrics) \<times> rxret list) option" where
  "on_events [] h pm rx = Some (h, pm, rx)"
| "on_events (ev # es) h pm rx =
     (if ev_fd ev = wake_fd h then on_events es (h\<lparr>running := False\<rparr>) pm rx
      else if ev_fd ev \<noteq> sock_fd h then on_events es h pm rx
      else if ev_err ev then Some (h\<lparr>running := False\<rparr>, pm, rx)
      else case drain_socket rx pm of
          None \<Rightarrow> None
        | Some (pm', rx') \<Rightarrow> on_events es h pm' rx')"

text \<open>
  The loop on \<^verbatim>\<open>running\<close>. \<open>stops\<close> gives, for each test of the loop condition, whether another
  thread has cleared \<^verbatim>\<open>running\<close> in the meantime (\<^verbatim>\<open>stop_server\<close>).
\<close>

fun serve :: "bool list \<Rightarrow> evret list \<Rightarrow> ServerHandle \<Rightarrow> FramePool \<times> Metrics \<Rightarrow> rxret list \<Rightarrow>
    (ServerHandle \<times> (FramePool \<times> Metrics) \<times> rxret list \<times> evret list) option" where
  "serve [] ws h pm rx = None"
| "serve (stop # stops) ws h pm rx =
     (let h = (if stop then h\<lparr>running := False\<rparr> else h) in
      if \<not> running h then Some (h, pm, rx, ws)
      else case ws of
          [] \<Rightarrow> None
        | Ev_fail e # ws' \<Rightarrow> if e = EINTR then serve stops ws' h pm rx else Some (h, pm, rx, ws')
        | Evs es # ws' \<Rightarrow>
            (case on_events es h pm rx of
               None \<Rightarrow> None
             | Some (h', pm', rx') \<Rightarrow> serve stops ws' h' pm' rx'))"

section \<open>Opening and closing\<close>

text \<open>\<open>inet_pton\<close> is the library function: the address of a dotted-quad string, if it is one.\<close>

definition make_recv_socket ::
  "(string \<Rightarrow> u32 option) \<Rightarrow> u16 \<Rightarrow> string option \<Rightarrow> int \<Rightarrow> world \<Rightarrow> (int \<times> world) option" where
  "make_recv_socket inet_pton port bind_ip rcvbuf_bytes w =
     call (Sys_socket_dgram True) w (\<lambda>w. (- 1, w)) (\<lambda>n w.
     let fd = int n; bail = (\<lambda>w. (- 1, sys_close fd w)) in
     call (Sys_setsockopt fd SO_REUSEADDR 1) w bail (\<lambda>_ w.
     call_if (0 < rcvbuf_bytes) (Sys_setsockopt fd SO_RCVBUF rcvbuf_bytes) w bail (\<lambda>w.
     case (if bind_ip = None \<or> bind_ip = Some [] then Some INADDR_ANY else inet_pton (the bind_ip)) of
       None \<Rightarrow> Some (bail w)
     | Some a \<Rightarrow>
         call (Sys_bind fd \<lparr>sin_inet = True, sin_port = port, sin_addr = a\<rparr>) w bail (\<lambda>_ w.
         Some (fd, w)))))"

text \<open>
  The part of \<^verbatim>\<open>run_server_loop\<close> before the loop: the result tells whether the loop is
  entered. On each failure the descriptors opened so far are closed and \<^verbatim>\<open>running\<close> is cleared.
\<close>

definition server_setup ::
  "(string \<Rightarrow> u32 option) \<Rightarrow> u16 \<Rightarrow> string option \<Rightarrow> int \<Rightarrow> ServerHandle \<Rightarrow> world \<Rightarrow>
     (bool \<times> ServerHandle \<times> world) option" where
  "server_setup inet_pton port bind_ip rcvbuf_bytes h w =
     do { (fd, w) \<leftarrow> make_recv_socket inet_pton port bind_ip rcvbuf_bytes w;
          let h = h\<lparr>sock_fd := fd\<rparr>;
          if sock_fd h = - 1 then Some (False, h\<lparr>running := False\<rparr>, w)
          else
            call Sys_epoll_create w
              (\<lambda>w. (False, h\<lparr>epfd := - 1, sock_fd := - 1, running := False\<rparr>, sys_close (sock_fd h) w)) (\<lambda>ep w.
            let h = h\<lparr>epfd := int ep\<rparr> in
            call Sys_eventfd w
              (\<lambda>w. (False, h\<lparr>wake_fd := - 1, epfd := - 1, sock_fd := - 1, running := False\<rparr>,
                 sys_close (sock_fd h) (sys_close (epfd h) w))) (\<lambda>wk w.
            let h = h\<lparr>wake_fd := int wk\<rparr>;
                bail = (\<lambda>w. (False, h\<lparr>wake_fd := - 1, epfd := - 1, sock_fd := - 1, running := False\<rparr>,
                  sys_close (sock_fd h) (sys_close (epfd h) (sys_close (wake_fd h) w)))) in
            call (Sys_epoll_add (epfd h) (sock_fd h)) w bail (\<lambda>_ w.
            call (Sys_epoll_add (epfd h) (wake_fd h)) w bail (\<lambda>_ w.
            Some (True, h, w))))) }"

text \<open>The part after the loop.\<close>

definition server_teardown :: "ServerHandle \<Rightarrow> world \<Rightarrow> ServerHandle \<times> world" where
  "server_teardown h w =
     (let w = (if epfd h \<noteq> - 1 then sys_close (epfd h) w else w);
          w = (if sock_fd h \<noteq> - 1 then sys_close (sock_fd h) w else w);
          w = (if wake_fd h \<noteq> - 1 then sys_close (wake_fd h) w else w)
      in (h\<lparr>epfd := - 1, sock_fd := - 1, wake_fd := - 1\<rparr>, w))"

definition run_server_loop ::
  "(string \<Rightarrow> u32 option) \<Rightarrow> u16 \<Rightarrow> string option \<Rightarrow> int \<Rightarrow> bool list \<Rightarrow>
     ServerHandle \<Rightarrow> FramePool \<times> Metrics \<Rightarrow> world \<Rightarrow> (ServerHandle \<times> (FramePool \<times> Metrics) \<times> world) option" where
  "run_server_loop inet_pton port bind_ip rcvbuf_bytes stops h pm w =
     do { (entered, h, w) \<leftarrow> server_setup inet_pton port bind_ip rcvbuf_bytes h w;
          if \<not> entered then Some (h, pm, w)
          else do { (h, pm, rx, ws) \<leftarrow> serve stops (evs w) h pm (rxs w);
                    let (h, w) = server_teardown h (w\<lparr>rxs := rx, evs := ws\<rparr>);
                    Some (h, pm, w) } }"

text \<open>
  \<^verbatim>\<open>start_server\<close> starts the thread that runs the loop; assigning to a thread object that is
  still joinable terminates the program (\<^const>\<open>None\<close>). \<^verbatim>\<open>stop_server\<close> wakes the loop and joins
  the thread, unless \<^verbatim>\<open>running\<close> was already false.
\<close>

definition start_server :: "ServerHandle \<Rightarrow> (bool \<times> ServerHandle) option" where
  "start_server h =
     (if running h then Some (False, h)
      else if joinable h then None
      else Some (True, h\<lparr>running := True, joinable := True\<rparr>))"

definition stop_server :: "ServerHandle \<Rightarrow> ServerHandle" where
  "stop_server h =
     (if \<not> running h then h\<lparr>running := False\<rparr>
      else (let h = h\<lparr>running := False\<rparr> in if joinable h then h\<lparr>joinable := False\<rparr> else h))"

section \<open>What a datagram does to the pool\<close>

text \<open>The frames waiting in the ready ring, oldest first.\<close>

definition ready_frames :: "FramePool \<Rightarrow> bytes list" where
  "ready_frames p = map (\<lambda>i. slots p ! unat i) (rb_list (ready p))"

definition acceptable :: "FramePool \<Rightarrow> rxmsg \<Rightarrow> bool" where
  "acceptable p msg \<longleftrightarrow> \<not> rx_trunc msg \<and> length (rx_data msg) = kWireSize \<and> rb_list (free p) \<noteq> []"

lemma free_pop_ready: "free_pop p = (r, p') \<Longrightarrow> ready p' = ready p \<and> slots p' = slots p"
  by (auto simp: free_pop_def split: prod.splits)

lemma free_pop_none_iff:
  assumes "fp_owned p held"
  shows "fst (free_pop p) = None \<longleftrightarrow> rb_list (free p) = []"
proof -
  have "fst (free_pop p) = fst (rb_pop (free p))"
    by (simp add: free_pop_def split: prod.split)
  moreover have "rb_inv (free p)"
    using assms by (simp add: fp_owned_def fp_inv_def)
  ultimately show ?thesis
    by (simp add: ring.pop_result split: list.split)
qed

lemma slot_write_frames:
  assumes "fp_owned p (i # held)"
  shows "ready_frames (slot_write p i bs) = ready_frames p \<and> slots (slot_write p i bs) ! unat i = bs \<and>
    (\<forall>j\<in>set held. slots (slot_write p i bs) ! unat j = slots p ! unat j)"
proof -
  have i: "unat i < length (slots p)" "i \<notin> set (rb_list (ready p))" "i \<notin> set held"
    using pool_facts [OF assms] by auto
  then have "(slots p)[unat i := bs] ! unat j = slots p ! unat j" if "j \<in> set (rb_list (ready p)) \<union> set held" for j
    using that by (metis Un_iff nth_list_update_neq word_unat_eq_iff)
  with i(1) show ?thesis by (simp add: ready_frames_def slot_write_def)
qed

lemma ready_push_frames:
  assumes "fp_owned p (i # held)"
  obtains p' where "ready_push p i = (True, p')" "fp_owned p' held"
    "ready_frames p' = ready_frames p @ [slots p ! unat i]" "free p' = free p" "slots p' = slots p"
proof -
  obtain p' where p': "ready_push p i = (True, p')" "fp_owned p' held"
    using ready_push_owned [OF assms] by blast
  obtain q where q: "rb_push (ready p) i = (True, q)" "p' = p\<lparr>ready := q\<rparr>"
    using p'(1) by (auto simp: ready_push_def split: prod.splits)
  have "rb_inv (ready p)" using assms by (simp add: fp_owned_def fp_inv_def)
  then have "rb_list q = rb_list (ready p) @ [i]"
    using ring.push_True [of "ready p" i q] q(1) by simp
  then show thesis using that p' q(2) by (simp add: ready_frames_def)
qed

lemma store_and_publish:
  assumes "fp_owned p (i # held)" and "length bs = kWireSize"
  obtains p' where "ready_push (slot_write p i bs) i = (True, p')" "fp_owned p' held"
    "ready_frames p' = ready_frames p @ [bs]" "free p' = free p"
proof -
  have own: "fp_owned (slot_write p i bs) (i # held)" using assms by (rule slot_write_owned)
  note w = slot_write_frames [OF assms(1), of bs]
  show thesis by (rule ready_push_frames [OF own]) (use that w in \<open>simp add: slot_write_def\<close>)
qed

lemma on_datagram_spec:
  assumes "fp_owned p held"
  shows "fp_owned (fst (on_datagram (p, m) msg)) held \<and>
    ready_frames (fst (on_datagram (p, m) msg)) =
      ready_frames p @ (if acceptable p msg then [rx_data msg] else []) \<and>
    snd (on_datagram (p, m) msg) = (if acceptable p msg then m else inc_drops 1 m) \<and>
    rb_list (free (fst (on_datagram (p, m) msg))) =
      (if acceptable p msg then tl (rb_list (free p)) else rb_list (free p))"
proof (cases "rx_trunc msg \<or> length (rx_data msg) \<noteq> kWireSize")
  case True
  with assms show ?thesis by (auto simp: on_datagram_def acceptable_def)
next
  case False
  show ?thesis
  proof (cases "free_pop p")
    case (Pair r p1)
    show ?thesis
    proof (cases r)
      case None
      with Pair have "rb_list (free p) = []" "p1 = p"
        using free_pop_none_iff [OF assms] free_pop_none by auto
      with assms False Pair None show ?thesis by (simp add: on_datagram_def acceptable_def)
    next
      case (Some i)
      with Pair have ne: "rb_list (free p) \<noteq> []"
        using free_pop_none_iff [OF assms] by auto
      have "fp_owned p1 (i # held)"
        using assms Pair Some by (auto intro: free_pop_some)
      moreover have "length (rx_data msg) = kWireSize" using False by simp
      ultimately obtain p' where p': "ready_push (slot_write p1 i (rx_data msg)) i = (True, p')"
        "fp_owned p' held" "ready_frames p' = ready_frames p1 @ [rx_data msg]" "free p' = free p1"
        by (rule store_and_publish)
      moreover have "ready_frames p1 = ready_frames p"
        using free_pop_ready [OF Pair] by (simp add: ready_frames_def)
      moreover have "rb_list (free p1) = tl (rb_list (free p))"
        using assms Pair ring.pop_contents [of "free p"]
        by (auto simp: free_pop_def fp_owned_def fp_inv_def split: prod.splits)
      ultimately show ?thesis
        using False Pair Some ne by (simp add: on_datagram_def acceptable_def Let_def)
    qed
  qed
qed

section \<open>Batches\<close>

definition well_formed :: "rxmsg \<Rightarrow> bool" where
  "well_formed msg \<longleftrightarrow> \<not> rx_trunc msg \<and> length (rx_data msg) = kWireSize"

lemma acceptable_iff: "acceptable p msg \<longleftrightarrow> well_formed msg \<and> rb_list (free p) \<noteq> []"
  by (auto simp: acceptable_def well_formed_def)

lemma batch_spec:
  assumes "fp_owned p held"
  shows "let (p', m') = foldl on_datagram (p, m) ms;
      acc = take (length (rb_list (free p))) (map rx_data (filter well_formed ms)) in
    fp_owned p' held \<and> ready_frames p' = ready_frames p @ acc \<and>
    m' = inc_drops (of_nat (length ms - length acc)) m"
  using assms
proof (induction ms arbitrary: p m)
  case Nil
  then show ?case by (simp add: inc_drops_def)
next
  case (Cons x ms)
  obtain p1 m1 where pm: "on_datagram (p, m) x = (p1, m1)" by fastforce
  note spec = on_datagram_spec [OF Cons.prems, of m x, unfolded pm fst_conv snd_conv]
  let ?n = "length (rb_list (free p))" and ?n1 = "length (rb_list (free p1))"
  let ?good = "map rx_data (filter well_formed ms)"
  obtain p' m' where run: "foldl on_datagram (p1, m1) ms = (p', m')" by fastforce
  have IH: "fp_owned p' held" "ready_frames p' = ready_frames p1 @ take ?n1 ?good"
    "m' = inc_drops (of_nat (length ms - length (take ?n1 ?good))) m1"
    using Cons.IH [of p1 m1] spec run by (auto simp: Let_def)
  have le: "length (take ?n1 ?good) \<le> length ms"
    by (metis length_map length_filter_le length_take min.coboundedI1 min.commute)
  show ?case
  proof (cases "acceptable p x")
    case True
    then obtain n where n: "?n = Suc n" "?n1 = n"
      using spec by (cases "rb_list (free p)") (auto simp: acceptable_iff)
    have "length (x # ms) - length (take ?n (map rx_data (filter well_formed (x # ms)))) =
        length ms - length (take ?n1 ?good)"
      using True by (simp only: acceptable_iff n) simp
    with True IH spec n run show ?thesis
      by (simp add: pm Let_def acceptable_iff del: length_rb_list length_take)
  next
    case False
    then have t: "take ?n (map rx_data (filter well_formed (x # ms))) = take ?n1 ?good"
      using spec by (auto simp: acceptable_iff simp del: length_rb_list)
    have "Suc (length ms) - length (take ?n1 ?good) = Suc (length ms - length (take ?n1 ?good))"
      using le by (rule Suc_diff_le)
    with False IH spec run show ?thesis
      unfolding t by (simp add: pm Let_def inc_drops_def del: length_rb_list length_take)
  qed
qed

text \<open>
  C17. A batch of datagrams: with every slot accounted for, the frames appended to the ready
  ring are, in order and byte for byte, the first \<open>n\<close> untruncated 44-byte datagrams of the
  batch, where \<open>n\<close> is the number of free slots; every other datagram is counted as a drop,
  nothing else is counted, and every slot is still accounted for.
\<close>

theorem udp_batch_accounting:
  assumes "fp_owned p []"
  shows "let (p', m') = foldl on_datagram (p, m) ms;
      acc = take (length (rb_list (free p))) (map rx_data (filter well_formed ms)) in
    fp_owned p' [] \<and> ready_frames p' = ready_frames p @ acc \<and>
    m' = inc_drops (of_nat (length ms - length acc)) m"
  using assms by (rule batch_spec)

definition pool4 :: FramePool where
  "pool4 = fp_init (fp_new 4 0)"

lemma pool4_owned: "fp_owned pool4 []"
  unfolding pool4_def by (simp add: fp_init_owned fp_new_inv rb_static_ok_def)

theorem udp_batch_accounting_witness:
  "let ms = [\<lparr>rx_data = replicate kWireSize 1, rx_trunc = False, rx_peer = no_addr\<rparr>,
        \<lparr>rx_data = [1, 2], rx_trunc = False, rx_peer = no_addr\<rparr>];
      (p', m') = foldl on_datagram (pool4, metrics_zero) ms;
      acc = take (length (rb_list (free pool4))) (map rx_data (filter well_formed ms)) in
    fp_owned p' [] \<and> ready_frames p' = ready_frames pool4 @ acc \<and>
    m' = inc_drops (of_nat (length ms - length acc)) metrics_zero"
  using udp_batch_accounting [OF pool4_owned, of metrics_zero
      "[\<lparr>rx_data = replicate kWireSize 1, rx_trunc = False, rx_peer = no_addr\<rparr>,
        \<lparr>rx_data = [1, 2], rx_trunc = False, rx_peer = no_addr\<rparr>]"]
  by (simp only: Let_def)

section \<open>Descriptors and the thread\<close>

lemma make_recv_socket_fds:
  assumes "make_recv_socket inet port ip rb w = Some (fd, w')"
  shows "fd = - 1 \<and> open_fds w' = open_fds w \<or> 0 \<le> fd \<and> open_fds w' = add_mset fd (open_fds w)"
  using assms unfolding make_recv_socket_def Let_def
  by (elim call_Some call_if_Some; auto split: option.splits elim!: call_Some)

lemma server_setup_fds:
  assumes "server_setup inet port ip rb h w = Some (ok, h', w')"
  shows "if ok then running h' = running h \<and> 0 \<le> sock_fd h' \<and> 0 \<le> epfd h' \<and> 0 \<le> wake_fd h' \<and>
      open_fds w' = {#sock_fd h', epfd h', wake_fd h'#} + open_fds w
    else \<not> running h' \<and> sock_fd h' = - 1 \<and> open_fds w' = open_fds w"
proof -
  obtain fd w1 where sock: "make_recv_socket inet port ip rb w = Some (fd, w1)"
    using assms by (auto simp: server_setup_def bind_eq_Some_conv)
  note fds = make_recv_socket_fds [OF this]
  show ?thesis
  proof (cases "fd = - 1")
    case True
    with assms fds show ?thesis by (auto simp: server_setup_def sock)
  next
    case False
    with assms fds show ?thesis
      by (simp add: server_setup_def sock Let_def) (elim call_Some; clarsimp simp: add_mset_commute)+
  qed
qed

lemma server_setup_joinable:
  "server_setup inet port ip rb h w = Some (ok, h', w') \<Longrightarrow> joinable h' = joinable h"
  by (auto simp: server_setup_def Let_def bind_eq_Some_conv elim!: call_Some split: if_splits)

lemma batch_owned: "fp_owned (fst pm) held \<Longrightarrow> fp_owned (fst (foldl on_datagram pm ms)) held"
  using batch_spec [of "fst pm" held "snd pm" ms] by (auto simp: Let_def split: prod.splits)

lemma drain_owned:
  "fp_owned (fst pm) held \<Longrightarrow> drain_socket rs pm = Some (pm', rs') \<Longrightarrow> fp_owned (fst pm') held"
proof (induction rs pm rule: drain_socket.induct)
  case (3 m ms rs pm)
  have "fp_owned (fst (foldl on_datagram pm (m # ms))) held"
    using "3.prems"(1) by (rule batch_owned)
  with "3.IH" "3.prems"(2) show ?case by simp
qed (auto split: if_splits)

lemma on_events_keeps:
  "on_events es h pm rx = Some (h', pm', rx') \<Longrightarrow>
   sock_fd h' = sock_fd h \<and> epfd h' = epfd h \<and> wake_fd h' = wake_fd h \<and>
   (fp_owned (fst pm) held \<longrightarrow> fp_owned (fst pm') held)"
proof (induction es arbitrary: h pm rx)
  case Nil
  then show ?case by simp
next
  case (Cons ev es)
  consider "ev_fd ev = wake_fd h" | "ev_fd ev \<noteq> wake_fd h" "ev_fd ev \<noteq> sock_fd h"
    | "ev_fd ev \<noteq> wake_fd h" "ev_fd ev = sock_fd h" "ev_err ev"
    | pm1 rx1 where "ev_fd ev \<noteq> wake_fd h" "ev_fd ev = sock_fd h" "\<not> ev_err ev"
      "drain_socket rx pm = Some (pm1, rx1)" "on_events es h pm1 rx1 = Some (h', pm', rx')"
    using Cons.prems by (auto split: if_splits option.splits)
  then show ?case
  proof cases
    case 4
    then show ?thesis using Cons.IH [OF 4(5)] drain_owned [of pm held rx pm1 rx1] by auto
  qed (use Cons in \<open>auto dest: Cons.IH\<close>)
qed

lemma serve_keeps:
  "serve stops ws h pm rx = Some (h', pm', rx', ws') \<Longrightarrow>
   sock_fd h' = sock_fd h \<and> epfd h' = epfd h \<and> wake_fd h' = wake_fd h \<and>
   (fp_owned (fst pm) held \<longrightarrow> fp_owned (fst pm') held)"
proof (induction stops arbitrary: ws h pm rx)
  case Nil
  then show ?case by simp
next
  case (Cons stop stops)
  let ?h = "if stop then h\<lparr>running := False\<rparr> else h"
  have fds: "sock_fd ?h = sock_fd h" "epfd ?h = epfd h" "wake_fd ?h = wake_fd h" by simp_all
  consider "h' = ?h" "pm' = pm"
    | ws1 where "serve stops ws1 ?h pm rx = Some (h', pm', rx', ws')"
    | es ws1 h1 pm1 rx1 where "on_events es ?h pm rx = Some (h1, pm1, rx1)"
      "serve stops ws1 h1 pm1 rx1 = Some (h', pm', rx', ws')"
    using Cons.prems by (auto simp: Let_def split: if_splits list.splits evret.splits option.splits)
  then show ?case
  proof cases
    case 1
    with fds show ?thesis by simp
  next
    case 2
    with Cons.IH fds show ?thesis by metis
  next
    case 3
    from on_events_keeps [OF 3(1), of held] Cons.IH [OF 3(2)] fds show ?thesis by simp
  qed
qed

text \<open>
  C34. The server leaks nothing: whenever \<open>run_server_loop\<close> returns, after a failed start or
  after serving, exactly the descriptors are open that were open before, the handle no
  longer names the socket, and every slot of the pool is accounted for.
\<close>

theorem udp_server_no_leak:
  assumes "run_server_loop inet port ip rb stops h (p, m) w = Some (h', (p', m'), w')"
    and "fp_owned p []"
  shows "open_fds w' = open_fds w \<and> sock_fd h' = - 1 \<and> fp_owned p' []"
proof -
  obtain ok h1 w1 where st: "server_setup inet port ip rb h w = Some (ok, h1, w1)"
    using assms(1) by (auto simp: run_server_loop_def bind_eq_Some_conv)
  note fds = server_setup_fds [OF st]
  show ?thesis
  proof (cases ok)
    case False
    with assms fds st show ?thesis by (auto simp: run_server_loop_def)
  next
    case True
    with assms(1) st obtain h2 rx ws where
      loop: "serve stops (evs w1) h1 (p, m) (rxs w1) = Some (h2, (p', m'), rx, ws)"
      and down: "server_teardown h2 (w1\<lparr>rxs := rx, evs := ws\<rparr>) = (h', w')"
      by (auto simp: run_server_loop_def bind_eq_Some_conv split: prod.splits)
        (metis prod.exhaust)
    have "open_fds (w1\<lparr>rxs := rx, evs := ws\<rparr>) = open_fds w1"
      by (simp add: open_fds_def)
    with True fds down serve_keeps [OF loop, of "[]"] assms(2) show ?thesis
      by (auto simp: server_teardown_def Let_def)
  qed
qed

definition ok_world :: "sysret list \<Rightarrow> rxret list \<Rightarrow> evret list \<Rightarrow> world" where
  "ok_world rs rx es = \<lparr>script = rs, rxs = rx, evs = es, trace = []\<rparr>"

text \<open>A run that serves one datagram and is then woken up.\<close>

definition demo_world :: world where
  "demo_world = ok_world [Ret 3, Ret 0, Ret 0, Ret 4, Ret 5, Ret 0, Ret 0]
     [Rx [\<lparr>rx_data = [9], rx_trunc = False, rx_peer = no_addr\<rparr>], Rx_fail EAGAIN]
     [Evs [\<lparr>ev_fd = 3, ev_err = False, ev_rdhup = False\<rparr>],
      Evs [\<lparr>ev_fd = 5, ev_err = False, ev_rdhup = False\<rparr>]]"

lemma demo_run:
  "\<exists>h' p' m' w'. run_server_loop (\<lambda>_. Some 0) 8888 (Some ''127.0.0.1'') 0 [False, False, False]
     (handle_new\<lparr>running := True\<rparr>) (pool4, metrics_zero) demo_world = Some (h', (p', m'), w')"
  by (simp add: run_server_loop_def server_setup_def make_recv_socket_def call_def call_if_def sys_def
      demo_world_def ok_world_def handle_new_def on_datagram_def kWireSize_def server_teardown_def
      split: prod.split)

theorem udp_server_no_leak_witness:
  "\<exists>h' p' m' w'. run_server_loop (\<lambda>_. Some 0) 8888 (Some ''127.0.0.1'') 0 [False, False, False]
     (handle_new\<lparr>running := True\<rparr>) (pool4, metrics_zero) demo_world = Some (h', (p', m'), w') \<and>
     open_fds w' = open_fds demo_world \<and> sock_fd h' = - 1 \<and> fp_owned p' []"
  using demo_run udp_server_no_leak [OF _ pool4_owned] by blast

text \<open>
  When the server thread ends because its socket could not be set up, \<open>stop_server\<close>
  returns without joining it: the thread object stays joinable, so starting the server
  again, or destroying the handle, terminates the program.
\<close>

lemma failed_start_never_joined:
  assumes "server_setup inet port ip rb h w = Some (False, h', w')" and "joinable h"
  shows "joinable (stop_server h') \<and> \<not> running (stop_server h') \<and> start_server (stop_server h') = None"
  using server_setup_fds [OF assms(1)] server_setup_joinable [OF assms(1)] assms(2)
  by (simp add: stop_server_def start_server_def)

lemma failed_start_never_joined_witness:
  "\<exists>h h' w'. start_server handle_new = Some (True, h) \<and>
     server_setup (\<lambda>_. None) 8888 (Some ''x'') 0 h (ok_world [Ret 3, Ret 0] [] []) = Some (False, h', w') \<and>
     joinable (stop_server h') \<and> \<not> running (stop_server h') \<and> start_server (stop_server h') = None"
proof -
  let ?h = "handle_new\<lparr>running := True, joinable := True\<rparr>"
  have start: "start_server handle_new = Some (True, ?h)"
    by (simp add: start_server_def handle_new_def)
  obtain h' w' where st:
    "server_setup (\<lambda>_. None) 8888 (Some ''x'') 0 ?h (ok_world [Ret 3, Ret 0] [] []) = Some (False, h', w')"
    by (simp add: server_setup_def make_recv_socket_def call_def call_if_def sys_def ok_world_def)
  from start st failed_start_never_joined [OF st] show ?thesis by auto
qed

text \<open>
  Draining the socket ends: as soon as some \<open>recvmmsg\<close> answers that it would block, the
  loop has returned, whatever batches and interruptions came before.
\<close>

lemma drain_socket_returns:
  "Rx_fail EAGAIN \<in> set rs \<Longrightarrow> \<exists>pm' rs'. drain_socket rs pm = Some (pm', rs')"
  by (induction rs pm rule: drain_socket.induct) auto

lemma drain_socket_returns_witness:
  "\<exists>pm' rs'. drain_socket [Rx_fail EINTR, Rx_fail EAGAIN] (pool4, metrics_zero) = Some (pm', rs')"
  by (rule drain_socket_returns) simp

end
