(* ===== verification/Engine_V1.thy ===== *)
theory Engine_V1
  imports Udp_Server Sequencing
begin

text \<open>
  The first engine, \<^verbatim>\<open>src/src/engine/v1/engine.cpp\<close>: a consumer thread takes the frames the
  UDP server puts into the ready ring, decodes them, tracks the sequence numbers, and gives
  the slots back to the free ring. The theory has the consumer's loop as it runs alone and
  the system of consumer, server thread and the caller of \<^verbatim>\<open>stop\<close> as a step relation.
\<close>

section \<open>State\<close>

record engine_v1 = seq_state +
  v1_running :: bool
  v1_m :: Metrics
  v1_consumer :: bool           \<comment> \<open>\<^verbatim>\<open>consumer_.joinable()\<close>\<close>
  v1_reporter :: bool
  v1_handle :: ServerHandle
  v1_pool :: FramePool

definition v1_new :: "size_t \<Rightarrow> engine_v1" where
  "v1_new junk = \<lparr>expected_seq_num = 0, seq_initialized = False, v1_running = False, v1_m = metrics_zero,
     v1_consumer = False, v1_reporter = False, v1_handle = handle_new, v1_pool = fp_new 4096 junk\<rparr>"

section \<open>The consumer\<close>

text \<open>The branches on the sequence number of a decoded message.\<close>

definition v1_on_message :: "engine_v1 \<Rightarrow> u64 \<Rightarrow> engine_v1" where
  "v1_on_message s n =
     (let s = s\<lparr>v1_m := inc_received 1 (v1_m s)\<rparr> in
      if \<not> seq_initialized s then
        s\<lparr>expected_seq_num := n + 1, seq_initialized := True, v1_m := inc_processed 1 (v1_m s)\<rparr>
      else if n = expected_seq_num s then
        s\<lparr>expected_seq_num := expected_seq_num s + 1, v1_m := inc_processed 1 (v1_m s)\<rparr>
      else if n > expected_seq_num s then
        (let gap = n - expected_seq_num s;
             s = s\<lparr>v1_m := inc_seq_num_gaps gap (v1_m s)\<rparr>
         in s\<lparr>expected_seq_num := n + 1, v1_m := inc_processed 1 (v1_m s)\<rparr>)
      else s\<lparr>v1_m := inc_drops 1 (v1_m s)\<rparr>)"

interpretation v1: metered_sequencer v1_on_message seq_state.truncate v1_m
  by unfold_locales
    (auto simp: v1_on_message_def seq_state.defs advance_def classify_def Let_def)

text \<open>
  Decoding and counting the frame of a popped slot; \<open>msg\<close> is the local variable that the
  iterations share. \<^const>\<open>None\<close> is an access outside the slots.
\<close>

definition v1_process :: "endian \<Rightarrow> size_t \<Rightarrow> MarketDataMsg \<times> engine_v1 \<Rightarrow> (MarketDataMsg \<times> engine_v1) option" where
  "v1_process e idx ms =
     (let (msg, s) = ms in
      if unat idx < length (slots (v1_pool s)) then
        do { (ok, msg) \<leftarrow> decode e (slots (v1_pool s) ! unat idx) kWireSize msg;
             Some (msg, if ok then v1_on_message s (seq_num msg)
                        else s\<lparr>v1_m := inc_decode_error 1 (v1_m s)\<rparr>) }
      else None)"

text \<open>One iteration, and the loop; \<open>stops\<close> says before which tests \<^verbatim>\<open>running_\<close> is cleared.\<close>

definition v1_iter :: "endian \<Rightarrow> MarketDataMsg \<times> engine_v1 \<Rightarrow> (MarketDataMsg \<times> engine_v1) option" where
  "v1_iter e ms =
     (case ready_pop (v1_pool (snd ms)) of
        (None, pool) \<Rightarrow> Some (fst ms, (snd ms)\<lparr>v1_pool := pool\<rparr>)
      | (Some idx, pool) \<Rightarrow>
          do { (msg, s) \<leftarrow> v1_process e idx (fst ms, (snd ms)\<lparr>v1_pool := pool\<rparr>);
               Some (msg, s\<lparr>v1_pool := snd (free_push (v1_pool s) idx)\<rparr>) })"

fun process_loop :: "endian \<Rightarrow> bool list \<Rightarrow> MarketDataMsg \<times> engine_v1 \<Rightarrow> engine_v1 option" where
  "process_loop e [] ms = None"
| "process_loop e (stop # stops) ms =
     (let s = (if stop then (snd ms)\<lparr>v1_running := False\<rparr> else snd ms) in
      if v1_running s \<or> \<not> rb_empty (ready (v1_pool s)) then
        do { ms' \<leftarrow> v1_iter e (fst ms, s); process_loop e stops ms' }
      else Some s)"

section \<open>Starting, stopping, reporting\<close>

text \<open>
  \<^verbatim>\<open>run\<close>; assigning a new thread to a joinable thread object terminates the program
  (\<^const>\<open>None\<close>).
\<close>

definition v1_run :: "engine_v1 \<Rightarrow> (bool \<times> engine_v1) option" where
  "v1_run s =
     (let s = s\<lparr>v1_running := True, v1_pool := fp_init (v1_pool s)\<rparr> in
      do { (ok, h) \<leftarrow> start_server (v1_handle s);
           let s = s\<lparr>v1_handle := h\<rparr>;
           if \<not> ok then Some (False, s\<lparr>v1_running := False\<rparr>)
           else if v1_consumer s \<or> v1_reporter s then None
           else Some (True, s\<lparr>v1_consumer := True, v1_reporter := True\<rparr>) })"

definition v1_stop :: "engine_v1 \<Rightarrow> bool \<times> engine_v1" where
  "v1_stop s =
     (True, s\<lparr>v1_running := False, v1_handle := stop_server (v1_handle s), v1_consumer := False,
        v1_reporter := False\<rparr>)"

text \<open>
  The reporter thread with a timer: each round has the value of \<^verbatim>\<open>running_\<close> at the loop
  test, the result of reading the timer, \<^verbatim>\<open>running_\<close> after it, and the counters at that
  time. The result is the list of logged lines. Without a timer it sleeps instead, and only
  \<^verbatim>\<open>running_\<close> matters.
\<close>

fun report_loop :: "(bool \<times> sysret \<times> bool \<times> Metrics) list \<Rightarrow> string list option" where
  "report_loop [] = None"
| "report_loop ((run1, r, run2, m) # rounds) =
     (if \<not> run1 then Some []
      else case r of
          Fail e \<Rightarrow> if e = EINTR then report_loop rounds else Some []
        | Ret _ \<Rightarrow>
            if \<not> run2 then Some []
            else map_option (Cons (''Metrics '' @ metrics_to_string (snapshot m))) (report_loop rounds))"

fun report_sleep :: "(bool \<times> bool \<times> Metrics) list \<Rightarrow> string list option" where
  "report_sleep [] = None"
| "report_sleep ((run1, run2, m) # rounds) =
     (if \<not> run1 then Some []
      else if \<not> run2 then Some []
      else map_option (Cons (''Metrics '' @ metrics_to_string (snapshot m))) (report_sleep rounds))"

section \<open>What one iteration does\<close>

definition frame_seq :: "bytes \<Rightarrow> u64" where
  "frame_seq bs = seq_num (wire_msg bs)"

abbreviation v1_sm :: "engine_v1 \<Rightarrow> seq_state \<times> Metrics" where
  "v1_sm s \<equiv> (seq_state.truncate s, v1_m s)"

lemma v1_on_message_keeps [simp]:
  "v1_pool (v1_on_message s n) = v1_pool s" "v1_running (v1_on_message s n) = v1_running s"
  by (simp_all add: v1_on_message_def Let_def)

lemma v1_sm_upd [simp]:
  "seq_state.truncate (s\<lparr>v1_pool := p\<rparr>) = seq_state.truncate s"
  "seq_state.truncate (s\<lparr>v1_running := r\<rparr>) = seq_state.truncate s"
  "seq_state.truncate (s\<lparr>v1_m := m\<rparr>) = seq_state.truncate s"
  by (simp_all add: seq_state.defs)

lemma slot_frame_length:
  assumes "fp_owned p held" and "unat i < length (slots p)"
  shows "length (slots p ! unat i) = kWireSize"
  using assms by (auto simp: fp_owned_def fp_inv_def)

lemma v1_process_spec:
  assumes "fp_owned (v1_pool s) (i # held)"
  shows "v1_process e i (msg, s) = Some (wire_msg (slots (v1_pool s) ! unat i),
    v1_on_message s (frame_seq (slots (v1_pool s) ! unat i)))"
proof -
  have "unat i < length (slots (v1_pool s))"
    using pool_facts [OF assms] by blast
  with slot_frame_length [OF assms this] show ?thesis
    by (simp add: v1_process_def decode_wire_msg frame_seq_def)
qed

lemma ready_pop_frames:
  assumes "fp_owned p held" and "ready_pop p = (Some i, p')"
  shows "ready_frames p = (slots p ! unat i) # ready_frames p' \<and> slots p' = slots p \<and> free p' = free p \<and>
    rb_list (ready p) = i # rb_list (ready p')"
proof -
  obtain q where q: "rb_pop (ready p) = (Some i, q)" "p' = p\<lparr>ready := q\<rparr>"
    using assms(2) by (auto simp: ready_pop_def split: prod.splits)
  have "rb_inv (ready p)"
    using assms(1) by (simp add: fp_owned_def fp_inv_def)
  from ring.pop_Some [OF this q(1)] have "rb_list (ready p) = i # rb_list q" ..
  with q(2) show ?thesis by (simp add: ready_frames_def)
qed

lemma free_push_frames: "ready_frames (snd (free_push p i)) = ready_frames p \<and> ready (snd (free_push p i)) = ready p"
  by (simp add: free_push_def ready_frames_def split: prod.split)

lemma v1_iter_spec:
  assumes "fp_owned (v1_pool s) []" and "ready_frames (v1_pool s) = f # fs"
  obtains s' where "v1_iter e (msg, s) = Some (wire_msg f, s')" "fp_owned (v1_pool s') []"
    "ready_frames (v1_pool s') = fs" "v1_sm s' = seq_step (v1_sm s) (frame_seq f)"
    "v1_running s' = v1_running s"
proof -
  have inv: "rb_inv (ready (v1_pool s))"
    using assms(1) by (simp add: fp_owned_def fp_inv_def)
  obtain i "is" where "rb_list (ready (v1_pool s)) = i # is"
    using assms(2) by (cases "rb_list (ready (v1_pool s))") (auto simp: ready_frames_def)
  then have "fst (rb_pop (ready (v1_pool s))) = Some i"
    using ring.pop_result [OF inv] by simp
  then obtain p where pop: "ready_pop (v1_pool s) = (Some i, p)"
    by (cases "rb_pop (ready (v1_pool s))") (simp add: ready_pop_def)
  note fr = ready_pop_frames [OF assms(1) pop]
  let ?s = "s\<lparr>v1_pool := p\<rparr>"
  have own: "fp_owned p [i]" using ready_pop_some [OF assms(1) pop] by simp
  have f: "slots p ! unat i = f" "ready_frames p = fs" using fr assms(2) by auto
  let ?s1 = "v1_on_message ?s (frame_seq f)"
  let ?s2 = "?s1\<lparr>v1_pool := snd (free_push p i)\<rparr>"
  have "v1_iter e (msg, s) = Some (wire_msg f, ?s2)"
    using v1_process_spec [of ?s i "[]" e msg] own f by (simp add: v1_iter_def pop)
  moreover have "fp_owned (v1_pool ?s2) []"
    using free_snk.push_ok [OF own] by simp
  moreover have "ready_frames (v1_pool ?s2) = fs"
    using f(2) free_push_frames [of p i] by simp
  moreover have "v1_sm ?s2 = seq_step (v1_sm s) (frame_seq f)"
    using v1.handle_step [of ?s "frame_seq f"] by simp
  ultimately show thesis using that by simp
qed

lemma ready_empty_iff:
  "fp_owned p held \<Longrightarrow> rb_empty (ready p) \<longleftrightarrow> ready_frames p = []"
  using rb_empty_iff [of "ready p"] by (simp add: ready_frames_def fp_owned_def fp_inv_def)

lemma drain_loop:
  assumes "fp_owned (v1_pool s) []" and "length (ready_frames (v1_pool s)) < length stops"
    and "\<not> v1_running s"
  shows "\<exists>s'. process_loop e stops (msg, s) = Some s' \<and> fp_owned (v1_pool s') [] \<and>
    ready_frames (v1_pool s') = [] \<and>
    v1_sm s' = seq_run (v1_sm s) (map frame_seq (ready_frames (v1_pool s)))"
  using assms
proof (induction stops arbitrary: msg s)
  case Nil
  then show ?case by simp
next
  case (Cons st stops)
  have same: "(if st then s\<lparr>v1_running := False\<rparr> else s) = s"
    using Cons.prems(3) by (cases s) simp
  have step: "process_loop e (st # stops) (msg, s) =
      (if ready_frames (v1_pool s) = [] then Some s
       else do { ms' \<leftarrow> v1_iter e (msg, s); process_loop e stops ms' })"
    unfolding process_loop.simps snd_conv fst_conv same
    using Cons.prems(3) ready_empty_iff [OF Cons.prems(1)] by simp
  show ?case
  proof (cases "ready_frames (v1_pool s)")
    case Nil
    then show ?thesis
      using Cons.prems(1) unfolding step by (simp add: seq_run_def)
  next
    case (Cons f fs)
    obtain s1 where s1: "v1_iter e (msg, s) = Some (wire_msg f, s1)" "fp_owned (v1_pool s1) []"
      "ready_frames (v1_pool s1) = fs" "v1_sm s1 = seq_step (v1_sm s) (frame_seq f)"
      "v1_running s1 = v1_running s"
      using v1_iter_spec [OF Cons.prems(1) Cons] by metis
    from Cons.IH [OF s1(2), of "wire_msg f"] Cons.prems(2,3) s1 Cons
    show ?thesis
      unfolding step by (simp add: seq_run_Cons)
  qed
qed

text \<open>
  C21. Shutting down drains the ring: once \<^verbatim>\<open>running_\<close> is false and nothing more arrives, the
  consumer's loop returns after at most one test more than there are frames; by then every
  waiting frame has been decoded and counted, in order, and every slot is free again.
\<close>

theorem v1_shutdown_drains:
  assumes "fp_owned (v1_pool s) []" and "length (ready_frames (v1_pool s)) \<le> length stops"
  shows "\<exists>s'. process_loop e (True # stops) (msg, s) = Some s' \<and> fp_owned (v1_pool s') [] \<and>
    ready_frames (v1_pool s') = [] \<and>
    v1_sm s' = seq_run (v1_sm s) (map frame_seq (ready_frames (v1_pool s)))"
proof -
  let ?s = "s\<lparr>v1_running := False\<rparr>"
  have "process_loop e (True # stops) (msg, s) = process_loop e (True # stops) (msg, ?s)"
    by (simp add: Let_def)
  then show ?thesis
    using drain_loop [of ?s "True # stops" e msg] assms by (simp del: process_loop.simps)
qed

text \<open>An engine with one frame waiting.\<close>

definition v1_one_frame :: engine_v1 where
  "v1_one_frame = (v1_new 0)\<lparr>v1_pool := fst (on_datagram (pool4, metrics_zero)
     \<lparr>rx_data = wire_layout (zero_msg\<lparr>seq_num := 7\<rparr>), rx_trunc = False, rx_peer = no_addr\<rparr>)\<rparr>"

lemma pool4_free: "length (rb_list (free pool4)) = 4" "ready_frames pool4 = []"
  using fp_init_owned [OF fp_new_inv, of 4 0]
  by (simp_all add: rb_static_ok_def pool4_def ready_frames_def fp_new_def rb_new_def del: length_rb_list)

lemma v1_one_frame_facts:
  "fp_owned (v1_pool v1_one_frame) []"
  "ready_frames (v1_pool v1_one_frame) = [wire_layout (zero_msg\<lparr>seq_num := 7\<rparr>)]"
proof -
  let ?d = "\<lparr>rx_data = wire_layout (zero_msg\<lparr>seq_num := 7\<rparr>), rx_trunc = False, rx_peer = no_addr\<rparr>"
  have "acceptable pool4 ?d"
    using pool4_free(1) by (auto simp: acceptable_def simp del: length_rb_list)
  then show "fp_owned (v1_pool v1_one_frame) []"
    "ready_frames (v1_pool v1_one_frame) = [wire_layout (zero_msg\<lparr>seq_num := 7\<rparr>)]"
    using on_datagram_spec [OF pool4_owned, of metrics_zero ?d] pool4_free(2)
    by (simp_all add: v1_one_frame_def)
qed

theorem v1_shutdown_drains_witness:
  "\<exists>s'. process_loop Little [True, False] (zero_msg, v1_one_frame) = Some s' \<and> fp_owned (v1_pool s') [] \<and>
    ready_frames (v1_pool s') = [] \<and>
    v1_sm s' = seq_run (v1_sm v1_one_frame) (map frame_seq (ready_frames (v1_pool v1_one_frame)))"
  by (rule v1_shutdown_drains) (simp_all add: v1_one_frame_facts)

section \<open>The threads together\<close>

text \<open>
  The positions of the two threads in their loops. The server's thread is between two
  datagrams, holds a slot number it popped from the free ring and has not written yet, has
  copied the datagram into the slot, or has been refused by the ready ring and is about to give
  the slot back.
\<close>

datatype consumer_pc = At_test | At_pop | Holding size_t | Returning size_t | Finished

datatype io_pc = Io_idle | Io_popped size_t bytes | Io_copied size_t bytes | Io_refused size_t

text \<open>
  The system: the engine, the consumer's position and its local message, the server thread's
  position and whether it still runs, and three ghost fields: the frames the server published,
  the frames the consumer has counted, and the datagrams the server dropped. Each ring operation,
  each copy of a frame, each test and each counter update is a step of its own, so the threads
  interleave between any two of them. Theory \<open>Ring_Concurrent\<close> justifies one step per ring
  operation for a ring with one producer and one consumer; counter updates are single atomic
  additions, which commute, so the counting of one message is one step.
\<close>

record v1_sys =
  eng :: engine_v1
  pc :: consumer_pc
  local_msg :: MarketDataMsg
  io_on :: bool
  io_at :: io_pc
  accepted :: "bytes list"
  counted :: "bytes list"
  io_drops :: u64

abbreviation sys_pool :: "v1_sys \<Rightarrow> FramePool" where
  "sys_pool s \<equiv> v1_pool (eng s)"

abbreviation drop_one :: "v1_sys \<Rightarrow> v1_sys" where
  "drop_one s \<equiv> s\<lparr>eng := (eng s)\<lparr>v1_m := inc_drops 1 (v1_m (eng s))\<rparr>, io_drops := io_drops s + 1\<rparr>"

abbreviation with_pool :: "v1_sys \<Rightarrow> FramePool \<Rightarrow> v1_sys" where
  "with_pool s p \<equiv> s\<lparr>eng := (eng s)\<lparr>v1_pool := p\<rparr>\<rparr>"

text \<open>The server's thread, datagram by datagram.\<close>

inductive v1_io_step :: "v1_sys \<Rightarrow> v1_sys \<Rightarrow> bool" where
  io_malformed: "io_on s \<Longrightarrow> io_at s = Io_idle \<Longrightarrow> rx_trunc (d :: rxmsg) \<or> length (rx_data d) \<noteq> kWireSize \<Longrightarrow>
    v1_io_step s (drop_one s)"
| io_no_slot: "io_on s \<Longrightarrow> io_at s = Io_idle \<Longrightarrow> \<not> (rx_trunc (d :: rxmsg) \<or> length (rx_data d) \<noteq> kWireSize) \<Longrightarrow>
    free_pop (sys_pool s) = (None, p) \<Longrightarrow> v1_io_step s (drop_one (with_pool s p))"
| io_pop: "io_on s \<Longrightarrow> io_at s = Io_idle \<Longrightarrow> \<not> (rx_trunc (d :: rxmsg) \<or> length (rx_data d) \<noteq> kWireSize) \<Longrightarrow>
    free_pop (sys_pool s) = (Some i, p) \<Longrightarrow>
    v1_io_step s ((with_pool s p)\<lparr>io_at := Io_popped i (take kWireSize (rx_data d))\<rparr>)"
| io_copy: "io_at s = Io_popped i bs \<Longrightarrow>
    v1_io_step s ((with_pool s (slot_write (sys_pool s) i bs))\<lparr>io_at := Io_copied i bs\<rparr>)"
| io_publish: "io_at s = Io_copied i bs \<Longrightarrow> ready_push (sys_pool s) i = (True, p) \<Longrightarrow>
    v1_io_step s ((with_pool s p)\<lparr>io_at := Io_idle, accepted := accepted s @ [bs]\<rparr>)"
| io_refuse: "io_at s = Io_copied i bs \<Longrightarrow> ready_push (sys_pool s) i = (False, p) \<Longrightarrow>
    v1_io_step s ((drop_one (with_pool s p))\<lparr>io_at := Io_refused i\<rparr>)"
| io_return: "io_at s = Io_refused i \<Longrightarrow> free_push (sys_pool s) i = (ok, p) \<Longrightarrow>
    v1_io_step s ((with_pool s p)\<lparr>io_at := Io_idle\<rparr>)"

text \<open>The whole system: the server's thread, the caller of \<^verbatim>\<open>stop\<close>, and the consumer.\<close>

inductive v1_step :: "endian \<Rightarrow> v1_sys \<Rightarrow> v1_sys \<Rightarrow> bool" for e where
  io: "v1_io_step s s' \<Longrightarrow> v1_step e s s'"
| stop_flag: "v1_step e s (s\<lparr>eng := (eng s)\<lparr>v1_running := False\<rparr>\<rparr>)"
| stop_io: "\<not> v1_running (eng s) \<Longrightarrow> io_at s = Io_idle \<Longrightarrow> v1_step e s (s\<lparr>io_on := False\<rparr>)"
| test_in: "pc s = At_test \<Longrightarrow> v1_running (eng s) \<or> \<not> rb_empty (ready (sys_pool s)) \<Longrightarrow>
    v1_step e s (s\<lparr>pc := At_pop\<rparr>)"
| test_out: "pc s = At_test \<Longrightarrow> \<not> v1_running (eng s) \<Longrightarrow> rb_empty (ready (sys_pool s)) \<Longrightarrow>
    v1_step e s (s\<lparr>pc := Finished\<rparr>)"
| pop_none: "pc s = At_pop \<Longrightarrow> ready_pop (sys_pool s) = (None, p) \<Longrightarrow>
    v1_step e s ((with_pool s p)\<lparr>pc := At_test\<rparr>)"
| pop_some: "pc s = At_pop \<Longrightarrow> ready_pop (sys_pool s) = (Some i, p) \<Longrightarrow>
    v1_step e s ((with_pool s p)\<lparr>pc := Holding i\<rparr>)"
| count: "pc s = Holding i \<Longrightarrow> v1_process e i (local_msg s, eng s) = Some (msg, en) \<Longrightarrow>
    v1_step e s (s\<lparr>pc := Returning i, local_msg := msg, eng := en,
      counted := counted s @ [slots (sys_pool s) ! unat i]\<rparr>)"
| give_back: "pc s = Returning i \<Longrightarrow> free_push (sys_pool s) i = (ok, p) \<Longrightarrow>
    v1_step e s ((with_pool s p)\<lparr>pc := At_test\<rparr>)"

definition v1_init :: "engine_v1 \<Rightarrow> v1_sys" where
  "v1_init en = \<lparr>eng = en, pc = At_test, local_msg = zero_msg, io_on = True, io_at = Io_idle, accepted = [],
     counted = [], io_drops = 0\<rparr>"

inductive v1_reach :: "endian \<Rightarrow> engine_v1 \<Rightarrow> v1_sys \<Rightarrow> bool" for e en where
  v1_reach_init: "v1_reach e en (v1_init en)"
| v1_reach_step: "v1_reach e en s \<Longrightarrow> v1_step e s s' \<Longrightarrow> v1_reach e en s'"

text \<open>The slots each thread holds, and the frame the consumer has taken but not counted.\<close>

primrec held_slots :: "consumer_pc \<Rightarrow> size_t list" where
  "held_slots At_test = []"
| "held_slots At_pop = []"
| "held_slots (Holding i) = [i]"
| "held_slots (Returning i) = [i]"
| "held_slots Finished = []"

primrec io_slots :: "io_pc \<Rightarrow> size_t list" where
  "io_slots Io_idle = []"
| "io_slots (Io_popped i bs) = [i]"
| "io_slots (Io_copied i bs) = [i]"
| "io_slots (Io_refused i) = [i]"

fun in_hand :: "v1_sys \<Rightarrow> bytes list" where
  "in_hand s = (case pc s of Holding i \<Rightarrow> [slots (sys_pool s) ! unat i] | _ \<Rightarrow> [])"

text \<open>What the server thread's position says about the slot it holds.\<close>

primrec io_ok :: "bytes list \<Rightarrow> io_pc \<Rightarrow> bool" where
  "io_ok sl Io_idle = True"
| "io_ok sl (Io_popped i bs) = (length bs = kWireSize)"
| "io_ok sl (Io_copied i bs) = (sl ! unat i = bs)"
| "io_ok sl (Io_refused i) = False"

definition v1_inv :: "seq_state \<times> Metrics \<Rightarrow> v1_sys \<Rightarrow> bool" where
  "v1_inv sm s \<longleftrightarrow> fp_owned (sys_pool s) (io_slots (io_at s) @ held_slots (pc s)) \<and> io_ok (slots (sys_pool s)) (io_at s) \<and>
     accepted s = counted s @ in_hand s @ ready_frames (sys_pool s) \<and>
     v1_sm (eng s) = (fst (seq_run sm (map frame_seq (counted s))),
       inc_drops (io_drops s) (snd (seq_run sm (map frame_seq (counted s)))))"

lemma inc_drops_account: "inc_drops k (account v m) = account v (inc_drops k m)"
  by (cases v) (simp_all add: metrics_simps)

lemma inc_drops_received: "inc_drops k (inc_received n m) = inc_received n (inc_drops k m)"
  by (simp add: metrics_simps)

lemma inc_drops_inc_drops: "inc_drops a (inc_drops b m) = inc_drops (b + a) m"
  by (simp add: metrics_simps)

lemma inc_drops_0 [simp]: "inc_drops 0 m = m"
  by (simp add: metrics_simps)

text \<open>
  Each step that changes the pool keeps the slots and frames of the other thread: what a step
  has to provide to keep the invariant, stated once for the two kinds of steps.
\<close>

lemma io_step_inv:
  assumes "v1_inv sm s" and "fp_owned p (io_slots at @ held_slots (pc s))"
    and "\<And>i. i \<in> set (held_slots (pc s)) \<Longrightarrow> slots p ! unat i = slots (sys_pool s) ! unat i"
    and "ready_frames p = ready_frames (sys_pool s) @ fs" and "io_ok (slots p) at"
  shows "v1_inv sm ((with_pool s p)\<lparr>io_at := at, accepted := accepted s @ fs\<rparr>)"
proof -
  have "in_hand (with_pool s p\<lparr>io_at := at, accepted := accepted s @ fs\<rparr>) = in_hand s"
    using assms(3) by (simp split: consumer_pc.split)
  with assms show ?thesis by (simp add: v1_inv_def del: in_hand.simps)
qed

lemma drop_one_inv: "v1_inv sm s \<Longrightarrow> v1_inv sm (drop_one s)"
  by (simp add: v1_inv_def inc_drops_inc_drops split: consumer_pc.splits)

lemma fp_owned_swap: "fp_owned p (a @ i # b) \<longleftrightarrow> fp_owned p (i # a @ b)"
  by (simp add: fp_owned_def)

lemma push_slots:
  "ready_push p i = (ok, p') \<Longrightarrow> slots p' = slots p" "free_push p i = (ok, p') \<Longrightarrow> slots p' = slots p"
  by (auto simp: free_push_def ready_push_def split: prod.splits)

lemma v1_inv_io_pop:
  assumes "v1_inv sm s" and "io_at s = Io_idle" and "free_pop (sys_pool s) = (Some i, p)" and "length bs = kWireSize"
  shows "v1_inv sm ((with_pool s p)\<lparr>io_at := Io_popped i bs\<rparr>)"
proof -
  have own: "fp_owned (sys_pool s) (held_slots (pc s))" using assms(1,2) by (simp add: v1_inv_def)
  have "slots p = slots (sys_pool s)" "ready_frames p = ready_frames (sys_pool s) @ []"
    using free_pop_ready [OF assms(3)] by (simp_all add: ready_frames_def)
  with io_step_inv [OF assms(1), of p "Io_popped i bs" "[]"] free_pop_some [OF own assms(3)] assms(4)
  show ?thesis by simp
qed

lemma v1_inv_io_copy:
  assumes "v1_inv sm s" and "io_at s = Io_popped i bs"
  shows "v1_inv sm ((with_pool s (slot_write (sys_pool s) i bs))\<lparr>io_at := Io_copied i bs\<rparr>)"
proof -
  let ?p = "slot_write (sys_pool s) i bs"
  have own: "fp_owned (sys_pool s) (i # held_slots (pc s))" and len: "length bs = kWireSize"
    using assms by (simp_all add: v1_inv_def)
  note w = slot_write_frames [OF own, of bs] slot_write_owned [OF own len, of i]
  with io_step_inv [OF assms(1), of ?p "Io_copied i bs" "[]"] show ?thesis by simp
qed

lemma v1_inv_io_publish:
  assumes "v1_inv sm s" and "io_at s = Io_copied i bs" and "ready_push (sys_pool s) i = (ok, p)"
  shows "ok \<and> v1_inv sm ((with_pool s p)\<lparr>io_at := Io_idle, accepted := accepted s @ [bs]\<rparr>)"
proof -
  have own: "fp_owned (sys_pool s) (i # held_slots (pc s))" and bs: "slots (sys_pool s) ! unat i = bs"
    using assms by (simp_all add: v1_inv_def)
  obtain p' where "ready_push (sys_pool s) i = (True, p')" "fp_owned p' (held_slots (pc s))"
    "ready_frames p' = ready_frames (sys_pool s) @ [bs]" "slots p' = slots (sys_pool s)"
    using ready_push_frames [OF own] bs by metis
  with io_step_inv [OF assms(1), of p Io_idle "[bs]"] assms(3) show ?thesis by simp
qed

lemma v1_inv_pop_some:
  assumes "v1_inv sm s" and "pc s = At_pop" and "ready_pop (sys_pool s) = (Some i, p)"
  shows "v1_inv sm ((with_pool s p)\<lparr>pc := Holding i\<rparr>)"
proof -
  have own: "fp_owned (sys_pool s) (io_slots (io_at s))" using assms(1,2) by (simp add: v1_inv_def)
  note fr = ready_pop_frames [OF own assms(3)] ready_pop_some [OF own assms(3)]
  with assms(1,2) show ?thesis by (simp add: v1_inv_def fp_owned_swap)
qed

lemma v1_inv_give_back:
  assumes "v1_inv sm s" and "pc s = Returning i" and "free_push (sys_pool s) i = (ok, p)"
  shows "v1_inv sm ((with_pool s p)\<lparr>pc := At_test\<rparr>)"
proof -
  have own: "fp_owned (sys_pool s) (i # io_slots (io_at s))"
    using assms(1,2) by (simp add: v1_inv_def fp_owned_swap)
  with assms push_slots(2) [OF assms(3)] free_snk.push_ok [OF own] free_push_frames [of "sys_pool s" i] show ?thesis by (simp add: v1_inv_def)
qed

lemma v1_inv_count:
  assumes "v1_inv sm s" and "pc s = Holding i" and "v1_process e i (local_msg s, eng s) = Some (msg, en)"
  shows "v1_inv sm (s\<lparr>pc := Returning i, local_msg := msg, eng := en,
    counted := counted s @ [slots (sys_pool s) ! unat i]\<rparr>)"
proof -
  have own: "fp_owned (sys_pool s) (i # io_slots (io_at s))"
    using assms(1,2) by (simp add: v1_inv_def fp_owned_swap)
  note pr = v1_process_spec [OF own, of e "local_msg s"]
  let ?f = "frame_seq (slots (sys_pool s) ! unat i)"
  have "v1_sm en = seq_step (v1_sm (eng s)) ?f"
    using assms(3) pr v1.handle_step [of "eng s" ?f] by simp
  moreover have "v1_pool en = sys_pool s" using assms(3) pr by auto
  ultimately show ?thesis
    using assms(1,2)
    by (simp add: v1_inv_def seq_run_append seq_step_def seq_run_def inc_drops_account inc_drops_received)
qed

lemma v1_inv_io_step:
  assumes "v1_io_step s s'" and "v1_inv sm s"
  shows "v1_inv sm s'"
  using assms
proof (induction rule: v1_io_step.induct)
  case (io_malformed s d)
  from io_malformed.prems show ?case by (rule drop_one_inv)
next
  case (io_no_slot s d p)
  then have "with_pool s p = s" using free_pop_none by fastforce
  with io_no_slot.prems show ?case using drop_one_inv by simp
next
  case (io_pop s d i p)
  then show ?case by (intro v1_inv_io_pop) simp_all
next
  case (io_copy s i bs)
  then show ?case by (intro v1_inv_io_copy) simp_all
next
  case (io_publish s i bs p)
  then show ?case using v1_inv_io_publish by blast
next
  case (io_refuse s i bs p)
  then show ?case using v1_inv_io_publish by blast
next
  case (io_return s i ok p)
  then show ?case by (simp add: v1_inv_def)
qed

lemma v1_inv_step:
  assumes "v1_step e s s'" and "v1_inv sm s"
  shows "v1_inv sm s'"
  using assms
proof (induction rule: v1_step.induct)
  case (io s s')
  then show ?case by (rule v1_inv_io_step)
next
  case (count s i msg en)
  then show ?case by (intro v1_inv_count) simp_all
next
  case (pop_some s i p)
  then show ?case by (intro v1_inv_pop_some) simp_all
next
  case (give_back s i ok p)
  then show ?case by (intro v1_inv_give_back) simp_all
next
  case (pop_none s p)
  then show ?case using ready_pop_none [OF pop_none.hyps(2)] by (simp add: v1_inv_def)
qed (simp_all add: v1_inv_def split: consumer_pc.splits)

lemma v1_reach_inv:
  assumes "v1_reach e en s" and "fp_owned (v1_pool en) []" and "ready_frames (v1_pool en) = []"
  shows "v1_inv (v1_sm en) s"
  using assms(1)
proof induction
  case v1_reach_init
  with assms(2,3) show ?case by (simp add: v1_inv_def v1_init_def seq_run_def)
next
  case (v1_reach_step s s')
  then show ?case using v1_inv_step by blast
qed

text \<open>The consumer is never stuck on a slot it took.\<close>

lemma v1_process_enabled:
  assumes "v1_inv sm s" and "pc s = Holding i"
  shows "\<exists>msg en. v1_process e i (local_msg s, eng s) = Some (msg, en)"
  using v1_process_spec [of "eng s" i "io_slots (io_at s)" e "local_msg s"] assms
  by (simp add: v1_inv_def fp_owned_swap)

lemma io_slot_private:
  assumes "v1_inv sm s" and "i \<in> set (io_slots (io_at s))"
  shows "unat i < length (slots (sys_pool s)) \<and> i \<notin> set (held_slots (pc s)) \<and> i \<notin> set (rb_list (ready (sys_pool s)))"
  using assms pool_facts [of "sys_pool s" i "held_slots (pc s)"] by (cases "io_at s") (auto simp: v1_inv_def)

text \<open>
  C2. Nothing is lost or counted twice in the running engine, whatever the interleaving of the
  server's and the consumer's single operations: in every state the threads can reach, each
  frame the server published is, in order of arrival, already counted, in the consumer's hands,
  or waiting in the ready ring with its bytes complete; the sequence state and the counters are
  those of the sequencing specification run on the counted frames, with the datagrams the
  server dropped added to the drops; every slot is free, ready, or held by exactly one of the two
  threads; the slot the server writes lies inside the pool, is not the consumer's and is not in
  the ready ring; the ready ring never refuses a slot, so the server never pushes to the free
  ring; and the consumer can always decode the slot it holds.
\<close>

theorem v1_conservation:
  assumes "v1_reach e en s" and "fp_owned (v1_pool en) []" and "ready_frames (v1_pool en) = []"
  shows "accepted s = counted s @ in_hand s @ ready_frames (sys_pool s) \<and>
    fp_owned (sys_pool s) (io_slots (io_at s) @ held_slots (pc s)) \<and>
    (let sm = seq_run (v1_sm en) (map frame_seq (counted s)) in
      v1_sm (eng s) = (fst sm, inc_drops (io_drops s) (snd sm))) \<and>
    (\<forall>i\<in>set (io_slots (io_at s)). unat i < length (slots (sys_pool s)) \<and> i \<notin> set (held_slots (pc s)) \<and>
      i \<notin> set (rb_list (ready (sys_pool s)))) \<and>
    (\<forall>i. io_at s \<noteq> Io_refused i) \<and>
    (\<forall>i. pc s = Holding i \<longrightarrow> (\<exists>ms. v1_process e i (local_msg s, eng s) = Some ms))"
proof -
  note inv = v1_reach_inv [OF assms]
  have "io_at s \<noteq> Io_refused i" for i using inv by (auto simp: v1_inv_def)
  moreover have "\<exists>ms. v1_process e i (local_msg s, eng s) = Some ms" if "pc s = Holding i" for i
    using v1_process_enabled [OF inv that] by blast
  ultimately show ?thesis using inv io_slot_private [OF inv] by (simp add: v1_inv_def Let_def)
qed

text \<open>
  A run in which the server accepts a datagram after the consumer has seen \<^verbatim>\<open>running_\<close> false
  and the ring empty.
\<close>

definition late_frame :: bytes where
  "late_frame = wire_layout zero_msg"

definition late_dgram :: rxmsg where
  "late_dgram = \<lparr>rx_data = late_frame, rx_trunc = False, rx_peer = no_addr\<rparr>"

lemma io_delivers:
  assumes "v1_reach e en s" and "io_on s" and "io_at s = Io_idle" and "v1_inv sm s"
    and "free_pop (sys_pool s) = (Some i, p)"
  obtains p' where "v1_reach e en ((with_pool s p')\<lparr>accepted := accepted s @ [late_frame]\<rparr>)"
proof -
  let ?s1 = "(with_pool s p)\<lparr>io_at := Io_popped i late_frame\<rparr>"
  let ?s2 = "(with_pool ?s1 (slot_write p i late_frame))\<lparr>io_at := Io_copied i late_frame\<rparr>"
  have d: "rx_data late_dgram = late_frame" "length late_frame = kWireSize" "\<not> rx_trunc late_dgram"
    by (simp_all add: late_dgram_def late_frame_def)
  have "v1_io_step s ?s1"
    using v1_io_step.io_pop [OF assms(2,3) _ assms(5), of late_dgram] d by simp
  then have 1: "v1_step e s ?s1" by (rule v1_step.io)
  have "v1_io_step ?s1 ?s2" using v1_io_step.io_copy [of ?s1 i late_frame] by simp
  then have 2: "v1_step e ?s1 ?s2" by (rule v1_step.io)
  have inv: "v1_inv sm ?s2" using v1_inv_step 1 2 assms(4) by blast
  obtain ok p' where push: "ready_push (sys_pool ?s2) i = (ok, p')" by fastforce
  have "ok" using v1_inv_io_publish [OF inv _ push, of late_frame] by simp
  with v1_io_step.io_publish [of ?s2 i late_frame p'] push
  have "v1_io_step ?s2 ((with_pool s p')\<lparr>accepted := accepted s @ [late_frame]\<rparr>)"
    using assms(3) by (cases s) simp
  then have "v1_step e ?s2 ((with_pool s p')\<lparr>accepted := accepted s @ [late_frame]\<rparr>)" by (rule v1_step.io)
  with 1 2 assms(1) show thesis using that v1_reach_step by blast
qed

lemma late_run:
  assumes "fp_owned (v1_pool en) []" and "ready_frames (v1_pool en) = []" and "rb_list (free (v1_pool en)) \<noteq> []"
  obtains s where "v1_reach e en s" "pc s = Finished" "\<not> io_on s" "accepted s = [late_frame]" "counted s = []"
proof -
  let ?s1 = "(v1_init en)\<lparr>eng := en\<lparr>v1_running := False\<rparr>\<rparr>"
  let ?s2 = "?s1\<lparr>pc := Finished\<rparr>"
  have "v1_step e (v1_init en) ?s1"
    using v1_step.stop_flag [of e "v1_init en"] by (simp add: v1_init_def)
  moreover have "v1_step e ?s1 ?s2"
    using ready_empty_iff [OF assms(1)] assms(2) by (intro v1_step.test_out) (simp_all add: v1_init_def)
  ultimately have r2: "v1_reach e en ?s2" by (meson v1_reach_init v1_reach_step)
  obtain i p where "free_pop (sys_pool ?s2) = (Some i, p)"
    using free_pop_none_iff [OF assms(1)] assms(3) by (cases "free_pop (v1_pool en)") auto
  then obtain p' where r3: "v1_reach e en ((with_pool ?s2 p')\<lparr>accepted := accepted ?s2 @ [late_frame]\<rparr>)"
    using io_delivers [OF r2 _ _ v1_reach_inv [OF r2 assms(1,2)]] by (auto simp: v1_init_def)
  let ?s3 = "(with_pool ?s2 p')\<lparr>accepted := accepted ?s2 @ [late_frame]\<rparr>"
  have "v1_step e ?s3 (?s3\<lparr>io_on := False\<rparr>)"
    by (intro v1_step.stop_io) (simp_all add: v1_init_def)
  with r3 have "v1_reach e en (?s3\<lparr>io_on := False\<rparr>)" by (rule v1_reach_step)
  then show thesis
    by (rule that) (simp_all add: v1_init_def)
qed

lemma v1_demo_start:
  "fp_owned (v1_pool ((v1_new 0)\<lparr>v1_pool := pool4\<rparr>)) []"
  "ready_frames (v1_pool ((v1_new 0)\<lparr>v1_pool := pool4\<rparr>)) = []"
  "rb_list (free (v1_pool ((v1_new 0)\<lparr>v1_pool := pool4\<rparr>))) \<noteq> []"
  using pool4_owned pool4_free by (auto simp del: length_rb_list)

theorem v1_conservation_witness:
  "\<exists>s en. v1_reach Little en s \<and> accepted s = [late_frame] \<and>
    accepted s = counted s @ in_hand s @ ready_frames (sys_pool s) \<and>
    fp_owned (sys_pool s) (io_slots (io_at s) @ held_slots (pc s))"
  by (metis late_run [OF v1_demo_start] v1_conservation [OF _ v1_demo_start(1,2)])

text \<open>
  C36. \<^verbatim>\<open>stop\<close> clears \<^verbatim>\<open>running_\<close> before it stops the server, so the consumer can leave while
  the server still accepts: from any idle engine with a free slot the threads can end with a
  frame that was accepted, and is neither counted nor dropped.
\<close>

theorem v1_stop_can_strand_frames:
  assumes "fp_owned (v1_pool en) []" and "ready_frames (v1_pool en) = []" and "rb_list (free (v1_pool en)) \<noteq> []"
  shows "\<exists>s. v1_reach e en s \<and> pc s = Finished \<and> \<not> io_on s \<and> ready_frames (sys_pool s) = [late_frame] \<and>
    counted s = []"
proof -
  obtain s where s: "v1_reach e en s" "pc s = Finished" "\<not> io_on s" "accepted s = [late_frame]" "counted s = []"
    by (rule late_run [OF assms])
  from v1_reach_inv [OF s(1) assms(1,2)] s show ?thesis
    by (auto simp: v1_inv_def)
qed

theorem v1_stop_can_strand_frames_witness:
  "\<exists>s. v1_reach Little ((v1_new 0)\<lparr>v1_pool := pool4\<rparr>) s \<and> pc s = Finished \<and> \<not> io_on s \<and>
    ready_frames (sys_pool s) = [late_frame] \<and> counted s = []"
  by (rule v1_stop_can_strand_frames [OF v1_demo_start])

text \<open>
  The life cycle: a successful \<^verbatim>\<open>run\<close> starts the threads on a pool in which every slot is
  free, as the conservation result needs; after \<^verbatim>\<open>stop\<close> the engine can be run again; but
  \<^verbatim>\<open>run\<close> on a running engine returns false only after emptying the pool under the threads
  and clearing \<^verbatim>\<open>running_\<close>.
\<close>

lemma v1_lifecycle:
  assumes "v1_run s = Some (True, s1)" and "fp_inv (v1_pool s)"
  shows "fp_owned (v1_pool s1) [] \<and> ready_frames (v1_pool s1) = [] \<and> v1_running s1 \<and>
    (\<exists>s2. v1_run (snd (v1_stop s1)) = Some (True, s2)) \<and>
    (\<exists>s3. v1_run s1 = Some (False, s3) \<and> \<not> v1_running s3 \<and> v1_pool s3 = fp_init (v1_pool s1))"
proof -
  have "v1_pool s1 = fp_init (v1_pool s)" "v1_running s1" "running (v1_handle s1)" "joinable (v1_handle s1)"
    using assms(1) by (auto simp: v1_run_def start_server_def Let_def bind_eq_Some_conv split: if_splits)
  then show ?thesis
    using fp_init_owned [OF assms(2)]
    by (simp add: ready_frames_def v1_run_def v1_stop_def start_server_def stop_server_def Let_def)
qed

lemma v1_lifecycle_witness:
  "\<exists>s1. v1_run (v1_new 0) = Some (True, s1) \<and> fp_owned (v1_pool s1) [] \<and> v1_running s1 \<and>
    (\<exists>s2. v1_run (snd (v1_stop s1)) = Some (True, s2))"
proof -
  obtain s1 where s1: "v1_run (v1_new 0) = Some (True, s1)"
    by (simp add: v1_run_def v1_new_def start_server_def handle_new_def Let_def)
  have "fp_inv (v1_pool (v1_new 0))"
    unfolding v1_new_def engine_v1.simps by (rule fp_new_inv) (simp add: rb_static_ok_def)
  from s1 v1_lifecycle [OF s1 this] show ?thesis by blast
qed

end
