(* ===== verification/Packet_Parse.thy ===== *)
theory Packet_Parse
  imports Protocol
begin

text \<open>
  Finding the UDP payload in an Ethernet frame: \<^verbatim>\<open>extract_udp_payload\<close> of
  \<^verbatim>\<open>src/src/engine/v3/engine.cpp\<close>. The header structs come from DPDK, so their sizes, the
  offsets of the fields that are read and the two constants are an argument, \<open>rte_layout\<close>;
  \<open>std_layout\<close> is the layout of the protocol standards.
\<close>

section \<open>Headers\<close>

record rte_layout =
  ether_hdr_len :: nat         \<comment> \<open>\<^verbatim>\<open>sizeof(rte_ether_hdr)\<close>\<close>
  ether_type_at :: nat
  ipv4_hdr_len :: nat          \<comment> \<open>\<^verbatim>\<open>sizeof(rte_ipv4_hdr)\<close>\<close>
  version_ihl_at :: nat
  total_length_at :: nat
  next_proto_id_at :: nat
  udp_hdr_len :: nat           \<comment> \<open>\<^verbatim>\<open>sizeof(rte_udp_hdr)\<close>\<close>
  dst_port_at :: nat
  dgram_len_at :: nat
  ETHER_TYPE_IPV4 :: u16
  IPPROTO_UDP :: u8

definition std_layout :: rte_layout where
  "std_layout = \<lparr>ether_hdr_len = 14, ether_type_at = 12, ipv4_hdr_len = 20, version_ihl_at = 0,
     total_length_at = 2, next_proto_id_at = 9, udp_hdr_len = 8, dst_port_at = 2, dgram_len_at = 4,
     ETHER_TYPE_IPV4 = 2048, IPPROTO_UDP = 17\<rparr>"

text \<open>The fields of a struct lie inside it.\<close>

definition layout_ok :: "rte_layout \<Rightarrow> bool" where
  "layout_ok L \<longleftrightarrow> ether_type_at L + 2 \<le> ether_hdr_len L \<and> version_ihl_at L + 1 \<le> ipv4_hdr_len L \<and>
     total_length_at L + 2 \<le> ipv4_hdr_len L \<and> next_proto_id_at L + 1 \<le> ipv4_hdr_len L \<and>
     dst_port_at L + 2 \<le> udp_hdr_len L \<and> dgram_len_at L + 2 \<le> udp_hdr_len L"

lemma std_layout_ok: "layout_ok std_layout"
  by (simp add: layout_ok_def std_layout_def)

text \<open>Reading a byte and a big-endian 16-bit field; \<^const>\<open>None\<close> is a read outside the buffer.\<close>

definition read_byte :: "bytes \<Rightarrow> nat \<Rightarrow> u8 option" where
  "read_byte data off = (if off < length data then Some (data ! off) else None)"

definition read_be16 :: "bytes \<Rightarrow> nat \<Rightarrow> u16 option" where
  "read_be16 data off = map_option (\<lambda>bs. from_le (rev bs)) (mem_read data off 2)"

section \<open>The parser\<close>

text \<open>
  A packet: the bytes its pointer points to, \<^const>\<open>None\<close> for a null pointer, the length the
  driver gives, and the buffer's handle. All sums below stay far under \<open>2 ^ 64\<close>, because the
  header fields have at most 16 bits.
\<close>

record PacketView =
  pv_data :: "bytes option"
  pv_len :: nat
  pv_handle :: nat

text \<open>
  The result: the returned flag, the payload pointer as an offset into the frame
  (\<^const>\<open>None\<close> for null), and the payload length.
\<close>

type_synonym extract_result = "bool \<times> nat option \<times> nat"

definition extract_udp_payload :: "rte_layout \<Rightarrow> PacketView \<Rightarrow> u16 \<Rightarrow> extract_result option" where
  "extract_udp_payload L packet expected_dst_port =
     (let no = (False, None, 0); len = pv_len packet in
      case pv_data packet of
        None \<Rightarrow> Some no
      | Some frame \<Rightarrow>
        if len < ether_hdr_len L then Some no else
        do { ether_type \<leftarrow> read_be16 frame (ether_type_at L);
             if ether_type \<noteq> ETHER_TYPE_IPV4 L then Some no else
             if len < ether_hdr_len L + ipv4_hdr_len L then Some no else
             do { version_ihl \<leftarrow> read_byte frame (ether_hdr_len L + version_ihl_at L);
                  let version = drop_bit 4 version_ihl;
                  let ip_hdr_len = unat (and version_ihl 15) * 4;
                  if version \<noteq> 4 \<or> ip_hdr_len < ipv4_hdr_len L then Some no else
                  let ip_offset = ether_hdr_len L in
                  if len < ip_offset + ip_hdr_len + udp_hdr_len L then Some no else
                  do { proto \<leftarrow> read_byte frame (ether_hdr_len L + next_proto_id_at L);
                       if proto \<noteq> IPPROTO_UDP L then Some no else
                       do { total \<leftarrow> read_be16 frame (ether_hdr_len L + total_length_at L);
                            let ip_total_len = unat total;
                            if ip_total_len < ip_hdr_len + udp_hdr_len L then Some no else
                            let udp_offset = ip_offset + ip_hdr_len in
                            if len < ip_offset + ip_total_len then Some no else
                            do { dst_port \<leftarrow> read_be16 frame (udp_offset + dst_port_at L);
                                 if expected_dst_port \<noteq> 0 \<and> dst_port \<noteq> expected_dst_port then Some no else
                                 do { dlen \<leftarrow> read_be16 frame (udp_offset + dgram_len_at L);
                                      let udp_len = unat dlen;
                                      if udp_len < udp_hdr_len L then Some no else
                                      let payload_len = udp_len - udp_hdr_len L in
                                      Some (udp_offset + udp_hdr_len L + payload_len \<le> len,
                                        Some (udp_offset + udp_hdr_len L), payload_len) } } } } } })"

section \<open>Safety\<close>

definition be16 :: "bytes \<Rightarrow> nat \<Rightarrow> u16" where
  "be16 data off = from_le (rev (take 2 (drop off data)))"

lemma read_be16_in: "off + 2 \<le> length data \<Longrightarrow> read_be16 data off = Some (be16 data off)"
  by (simp add: read_be16_def mem_read_def be16_def)

lemma read_byte_in: "off < length data \<Longrightarrow> read_byte data off = Some (data ! off)"
  by (simp add: read_byte_def)

text \<open>What an accepted packet looks like.\<close>

definition ip_hdr_bytes :: "rte_layout \<Rightarrow> bytes \<Rightarrow> nat" where
  "ip_hdr_bytes L frame = unat (and (frame ! (ether_hdr_len L + version_ihl_at L)) 15) * 4"

definition is_udp_packet :: "rte_layout \<Rightarrow> bytes \<Rightarrow> nat \<Rightarrow> u16 \<Rightarrow> bool" where
  "is_udp_packet L frame len port \<longleftrightarrow>
     (let ihl = ip_hdr_bytes L frame; ip = ether_hdr_len L; udp = ip + ihl in
      be16 frame (ether_type_at L) = ETHER_TYPE_IPV4 L \<and>
      drop_bit 4 (frame ! (ip + version_ihl_at L)) = 4 \<and> ipv4_hdr_len L \<le> ihl \<and>
      frame ! (ip + next_proto_id_at L) = IPPROTO_UDP L \<and>
      ihl + udp_hdr_len L \<le> unat (be16 frame (ip + total_length_at L)) \<and>
      ip + unat (be16 frame (ip + total_length_at L)) \<le> len \<and>
      (port = 0 \<or> be16 frame (udp + dst_port_at L) = port) \<and>
      udp_hdr_len L \<le> unat (be16 frame (udp + dgram_len_at L)) \<and>
      udp + unat (be16 frame (udp + dgram_len_at L)) \<le> len)"

lemma extract_null: "extract_udp_payload L p port = Some (False, None, 0)" if "pv_data p = None"
  using that by (simp add: extract_udp_payload_def)

lemma is_udp_packet_long:
  assumes "layout_ok L" and "is_udp_packet L frame len port"
  shows "ether_hdr_len L + ipv4_hdr_len L + udp_hdr_len L \<le> len \<and>
    ether_hdr_len L + ip_hdr_bytes L frame + udp_hdr_len L \<le> len"
  using assms by (auto simp: is_udp_packet_def Let_def)

lemma extract_eq:
  assumes ok: "layout_ok L" and data: "pv_data p = Some frame" and len: "pv_len p \<le> length frame"
  obtains k n where "extract_udp_payload L p port = Some (is_udp_packet L frame (pv_len p) port, k, n)"
    and "is_udp_packet L frame (pv_len p) port \<Longrightarrow>
      k = Some (ether_hdr_len L + ip_hdr_bytes L frame + udp_hdr_len L) \<and>
      n = unat (be16 frame (ether_hdr_len L + ip_hdr_bytes L frame + dgram_len_at L)) - udp_hdr_len L"
proof (cases "ether_hdr_len L + ipv4_hdr_len L \<le> pv_len p \<and>
    ether_hdr_len L + ip_hdr_bytes L frame + udp_hdr_len L \<le> pv_len p \<and> ipv4_hdr_len L \<le> ip_hdr_bytes L frame")
  case True
  have r16: "read_be16 frame (ether_type_at L) = Some (be16 frame (ether_type_at L))"
    "read_be16 frame (ether_hdr_len L + total_length_at L) = Some (be16 frame (ether_hdr_len L + total_length_at L))"
    "read_be16 frame (ether_hdr_len L + ip_hdr_bytes L frame + dst_port_at L) =
      Some (be16 frame (ether_hdr_len L + ip_hdr_bytes L frame + dst_port_at L))"
    "read_be16 frame (ether_hdr_len L + ip_hdr_bytes L frame + dgram_len_at L) =
      Some (be16 frame (ether_hdr_len L + ip_hdr_bytes L frame + dgram_len_at L))"
    using True ok len by (auto simp: layout_ok_def intro!: read_be16_in)
  have r8: "read_byte frame (ether_hdr_len L + version_ihl_at L) = Some (frame ! (ether_hdr_len L + version_ihl_at L))"
    "read_byte frame (ether_hdr_len L + next_proto_id_at L) = Some (frame ! (ether_hdr_len L + next_proto_id_at L))"
    using True ok len by (auto simp: layout_ok_def intro!: read_byte_in)
  have "\<exists>k n. extract_udp_payload L p port = Some (is_udp_packet L frame (pv_len p) port, k, n) \<and>
      (is_udp_packet L frame (pv_len p) port \<longrightarrow>
       k = Some (ether_hdr_len L + ip_hdr_bytes L frame + udp_hdr_len L) \<and>
       n = unat (be16 frame (ether_hdr_len L + ip_hdr_bytes L frame + dgram_len_at L)) - udp_hdr_len L)"
    using True unfolding extract_udp_payload_def data Let_def option.case r8 bind.bind_lunit
      ip_hdr_bytes_def [symmetric] r16 is_udp_packet_def
    by auto
  then show thesis using that by blast
next
  case False
  then have no: "\<not> is_udp_packet L frame (pv_len p) port"
    using is_udp_packet_long [OF ok, of frame "pv_len p" port] by (auto simp: is_udp_packet_def Let_def)
  have r16: "read_be16 frame (ether_type_at L) = Some (be16 frame (ether_type_at L))" if "ether_hdr_len L \<le> pv_len p"
    using that ok len by (auto simp: layout_ok_def intro!: read_be16_in)
  have r8: "read_byte frame (ether_hdr_len L + version_ihl_at L) = Some (frame ! (ether_hdr_len L + version_ihl_at L))"
    if "ether_hdr_len L + ipv4_hdr_len L \<le> pv_len p"
    using that ok len by (auto simp: layout_ok_def intro!: read_byte_in)
  have "extract_udp_payload L p port = Some (False, None, 0)"
    using False r16 r8 by (auto simp: extract_udp_payload_def data Let_def ip_hdr_bytes_def not_le)
  then show thesis using that no by simp
qed

text \<open>
  C13. The parser stays inside the packet: for every layout whose fields lie in their structs
  and every packet whose buffer is at least as long as the driver says, it returns without
  reading outside the buffer, and accepts exactly the IPv4 UDP packets for the port; the
  payload it then reports begins after the three headers and ends inside the packet.
\<close>

theorem extract_udp_payload_safe:
  assumes "layout_ok L" and "pv_data p = Some frame" and "pv_len p \<le> length frame"
  shows "\<exists>ok k n. extract_udp_payload L p port = Some (ok, k, n) \<and>
    ok = is_udp_packet L frame (pv_len p) port \<and>
    (ok \<longrightarrow> (\<exists>off. k = Some off \<and> ether_hdr_len L + ipv4_hdr_len L + udp_hdr_len L \<le> off \<and> off + n \<le> pv_len p))"
proof -
  obtain k n where kn: "extract_udp_payload L p port = Some (is_udp_packet L frame (pv_len p) port, k, n)"
    "is_udp_packet L frame (pv_len p) port \<Longrightarrow>
      k = Some (ether_hdr_len L + ip_hdr_bytes L frame + udp_hdr_len L) \<and>
      n = unat (be16 frame (ether_hdr_len L + ip_hdr_bytes L frame + dgram_len_at L)) - udp_hdr_len L"
    using extract_eq [OF assms, of port] by blast
  then show ?thesis
    by (auto simp: is_udp_packet_def Let_def)
qed

theorem extract_udp_payload_safe_witness:
  "\<exists>ok k n. extract_udp_payload std_layout \<lparr>pv_data = Some (replicate 60 69), pv_len = 60, pv_handle = 1\<rparr> 8888 =
      Some (ok, k, n) \<and>
    ok = is_udp_packet std_layout (replicate 60 69) 60 8888"
  using extract_udp_payload_safe [OF std_layout_ok,
      of "\<lparr>pv_data = Some (replicate 60 69), pv_len = 60, pv_handle = 1\<rparr>" "replicate 60 69" 8888]
  by auto

section \<open>Completeness\<close>

text \<open>
  An Ethernet frame with an IPv4 UDP packet, header fields given one by one; \<open>opts\<close> are the
  bytes of the IP header after the protocol field, \<open>pad\<close> what follows the IP packet.
\<close>

definition udp_frame ::
  "bytes \<Rightarrow> u8 \<Rightarrow> u8 \<Rightarrow> u16 \<Rightarrow> bytes \<Rightarrow> bytes \<Rightarrow> u16 \<Rightarrow> u16 \<Rightarrow> u16 \<Rightarrow> u16 \<Rightarrow> bytes \<Rightarrow> bytes \<Rightarrow> bytes" where
  "udp_frame macs vihl tos tlen mid opts sport dport dlen csum payload pad =
     macs @ be 2 (2048 :: u16) @ [vihl, tos] @ be 2 tlen @ mid @ [17] @ opts @
     be 2 sport @ be 2 dport @ be 2 dlen @ be 2 csum @ payload @ pad"

lemma be16_append: "off = length pre \<Longrightarrow> be16 (pre @ be 2 v @ post) off = v"
  by (simp add: be16_def from_le_rev_be)

lemma udp_frame_packet:
  assumes "length macs = 12" and "length mid = 5" and "length opts = 4 * ihl - 10"
    and "drop_bit 4 vihl = 4" and "unat (and vihl 15) = ihl" and "5 \<le> ihl"
    and "unat dlen = 8 + length payload" and "4 * ihl + 8 \<le> unat tlen"
    and "unat tlen \<le> 4 * ihl + 8 + length payload + length pad" and "port = 0 \<or> dport = port"
    and frame_def: "frame = udp_frame macs vihl tos tlen mid opts sport dport dlen csum payload pad"
  shows "is_udp_packet std_layout frame (length frame) port \<and> ip_hdr_bytes std_layout frame = 4 * ihl \<and>
    be16 frame (14 + 4 * ihl + 4) = dlen \<and> take (length payload) (drop (14 + 4 * ihl + 8) frame) = payload"
proof -
  let ?ip = "[vihl, tos] @ be 2 tlen @ mid @ [17] @ opts"
  have 1: "be16 frame 12 = 2048"
    using be16_append [of 12 macs 2048] assms(1) by (simp add: frame_def udp_frame_def)
  have 2: "frame ! 14 = vihl"
    using assms(1) by (simp add: frame_def udp_frame_def nth_append)
  have 3: "be16 frame 16 = tlen"
    using be16_append [of 16 "macs @ be 2 2048 @ [vihl, tos]" tlen] assms(1)
    by (simp add: frame_def udp_frame_def)
  have 4: "frame ! 23 = 17"
    using assms(1,2) by (simp add: frame_def udp_frame_def nth_append)
  have off: "length (macs @ be 2 (2048 :: u16) @ ?ip) = 14 + 4 * ihl"
    using assms(1,2,3,6) by simp
  have 5: "be16 frame (14 + 4 * ihl + 2) = dport"
    using be16_append [of "14 + 4 * ihl + 2" "macs @ be 2 2048 @ ?ip @ be 2 sport" dport] off
    by (simp add: frame_def udp_frame_def)
  have 6: "be16 frame (14 + 4 * ihl + 4) = dlen"
    using be16_append [of "14 + 4 * ihl + 4" "macs @ be 2 2048 @ ?ip @ be 2 sport @ be 2 dport" dlen] off
    by (simp add: frame_def udp_frame_def)
  have "frame = (macs @ be 2 (2048 :: u16) @ ?ip @ be 2 sport @ be 2 dport @ be 2 dlen @ be 2 csum) @ payload @ pad"
    by (simp add: frame_def udp_frame_def)
  moreover have "length (macs @ be 2 (2048 :: u16) @ ?ip @ be 2 sport @ be 2 dport @ be 2 dlen @ be 2 csum) = 14 + 4 * ihl + 8"
    using off by simp
  ultimately have 7: "drop (14 + 4 * ihl + 8) frame = payload @ pad"
    "length frame = 14 + 4 * ihl + 8 + length payload + length pad"
    by (metis append_eq_conv_conj, metis (no_types, lifting) add.assoc length_append)
  have ihl: "ip_hdr_bytes std_layout frame = 4 * ihl"
    using 2 assms(5) by (simp add: ip_hdr_bytes_def std_layout_def)
  then show ?thesis
    using 1 2 3 4 5 6 7 assms(4,6-10) by (simp add: is_udp_packet_def std_layout_def Let_def)
qed

lemma udp_frame_extract:
  assumes "length macs = 12" and "length mid = 5" and "length opts = 4 * ihl - 10"
    and "drop_bit 4 vihl = 4" and "unat (and vihl 15) = ihl" and "5 \<le> ihl"
    and "unat dlen = 8 + length payload" and "4 * ihl + 8 \<le> unat tlen"
    and "unat tlen \<le> 4 * ihl + 8 + length payload + length pad" and "port = 0 \<or> dport = port"
    and frame: "frame = udp_frame macs vihl tos tlen mid opts sport dport dlen csum payload pad"
  shows "extract_udp_payload std_layout \<lparr>pv_data = Some frame, pv_len = length frame, pv_handle = h\<rparr> port =
      Some (True, Some (14 + 4 * ihl + 8), length payload) \<and>
    take (length payload) (drop (14 + 4 * ihl + 8) frame) = payload"
proof -
  note pk = udp_frame_packet [OF assms(1-10) frame]
  let ?p = "\<lparr>pv_data = Some frame, pv_len = length frame, pv_handle = h\<rparr>"
  obtain k n where "extract_udp_payload std_layout ?p port =
      Some (is_udp_packet std_layout frame (pv_len ?p) port, k, n)"
    and "is_udp_packet std_layout frame (pv_len ?p) port \<Longrightarrow>
      k = Some (ether_hdr_len std_layout + ip_hdr_bytes std_layout frame + udp_hdr_len std_layout) \<and>
      n = unat (be16 frame (ether_hdr_len std_layout + ip_hdr_bytes std_layout frame + dgram_len_at std_layout)) -
        udp_hdr_len std_layout"
    using extract_eq [OF std_layout_ok, of ?p frame port] by auto
  with pk assms(7) show ?thesis by (simp add: std_layout_def)
qed

text \<open>
  C29. Every well-formed packet is accepted: in an Ethernet frame that carries an IPv4 header
  of any legal length, a UDP header with the expected port and a payload whose length both
  headers agree on, with any padding after it, the parser finds exactly the payload.
\<close>

theorem extract_udp_payload_complete:
  assumes "length macs = 12" and "length mid = 5" and "length opts = 4 * ihl - 10"
    and "drop_bit 4 vihl = 4" and "unat (and vihl 15) = ihl" and "5 \<le> ihl"
    and "unat dlen = 8 + length payload" and "unat tlen = 4 * ihl + unat dlen"
    and "port = 0 \<or> dport = port"
    and "frame = udp_frame macs vihl tos tlen mid opts sport dport dlen csum payload pad"
  shows "\<exists>k. extract_udp_payload std_layout \<lparr>pv_data = Some frame, pv_len = length frame, pv_handle = h\<rparr> port =
      Some (True, Some k, length payload) \<and> take (length payload) (drop k frame) = payload"
proof -
  have "4 * ihl + 8 \<le> unat tlen" "unat tlen \<le> 4 * ihl + 8 + length payload + length pad"
    using assms(7,8) by simp_all
  from udp_frame_extract [OF assms(1-7) this assms(9,10)] show ?thesis by blast
qed

definition demo_frame :: "bytes \<Rightarrow> bytes" where
  "demo_frame payload = udp_frame (replicate 12 1) 69 0 (of_nat (28 + length payload)) (replicate 5 0)
     (replicate 10 0) 1000 8888 (of_nat (8 + length payload)) 0 payload [0, 0]"

lemma unat_u16: "n < 65536 \<Longrightarrow> unat (of_nat n :: u16) = n"
  by (simp add: unat_of_nat_small)

theorem extract_udp_payload_complete_witness:
  "\<exists>k. extract_udp_payload std_layout \<lparr>pv_data = Some (demo_frame [1, 2, 3]),
      pv_len = length (demo_frame [1, 2, 3]), pv_handle = 9\<rparr> 8888 = Some (True, Some k, length [1, 2, 3 :: u8]) \<and>
    take (length [1, 2, 3 :: u8]) (drop k (demo_frame [1, 2, 3])) = [1, 2, 3]"
  by (rule extract_udp_payload_complete [where ihl = 5, OF _ _ _ _ _ _ _ _ _ demo_frame_def])
    (simp_all add: unat_u16)

text \<open>
  C39. The UDP length is compared with the frame only, not with the IP length: for any bytes
  that follow an IP packet with an empty UDP datagram there is a UDP length with which they
  are reported as its payload.
\<close>

theorem udp_length_beyond_ip_accepted:
  assumes "length trailer < 65000"
  shows "\<exists>frame k. unat (be16 frame 16) = 28 \<and>
    extract_udp_payload std_layout \<lparr>pv_data = Some frame, pv_len = length frame, pv_handle = h\<rparr> port =
      Some (True, Some k, length trailer) \<and>
    take (length trailer) (drop k frame) = trailer \<and> (trailer \<noteq> [] \<longrightarrow> 14 + 28 < k + length trailer)"
proof -
  let ?f = "udp_frame (replicate 12 1) 69 0 28 (replicate 5 0) (replicate 10 0) 1000 port
    (of_nat (8 + length trailer)) 0 trailer []"
  have "be16 ?f 16 = 28"
    using be16_append [of 16 "replicate 12 1 @ be 2 2048 @ [69, 0]" 28] by (simp add: udp_frame_def)
  moreover have "extract_udp_payload std_layout \<lparr>pv_data = Some ?f, pv_len = length ?f, pv_handle = h\<rparr> port =
      Some (True, Some (14 + 4 * 5 + 8), length trailer) \<and>
      take (length trailer) (drop (14 + 4 * 5 + 8) ?f) = trailer"
    using assms by (intro udp_frame_extract [OF _ _ _ _ _ _ _ _ _ _ refl])
      (simp_all add: unat_u16 del: of_nat_add)
  ultimately show ?thesis
    by (intro exI [of _ ?f] exI [of _ 42]) (auto simp: unat_u16)
qed

theorem udp_length_beyond_ip_accepted_witness:
  "\<exists>frame k. unat (be16 frame 16) = 28 \<and>
    extract_udp_payload std_layout \<lparr>pv_data = Some frame, pv_len = length frame, pv_handle = 0\<rparr> 8888 =
      Some (True, Some k, length (replicate 44 (7 :: u8))) \<and>
    take (length (replicate 44 (7 :: u8))) (drop k frame) = replicate 44 7 \<and>
    (replicate 44 (7 :: u8) \<noteq> [] \<longrightarrow> 14 + 28 < k + length (replicate 44 (7 :: u8)))"
  by (rule udp_length_beyond_ip_accepted) simp

end
