(* ===== verification/Engine_V3.thy ===== *)
theory Engine_V3
  imports Packet_Parse Sequencing
begin

text \<open>
  The DPDK engine, \<^verbatim>\<open>src/src/engine/v3/engine.cpp\<close>: the receive source, the handling of one
  packet and the receive loop. The DPDK functions are not part of the program: what they
  answer is an argument (\<open>dpdk\<close>), and every call is recorded.
\<close>

section \<open>The DPDK functions\<close>

datatype dpdk_call =
    Rte_pool_create string
  | Rte_pool_free
  | Rte_dev_configure u16
  | Rte_rx_queue_setup u16
  | Rte_dev_start u16
  | Rte_promiscuous u16
  | Rte_dev_stop u16
  | Rte_dev_close u16
  | Rte_eal_init
  | Rte_dev_count

text \<open>
  The answers to come, as the C return values (for the pool, negative means null); the packets
  each \<^verbatim>\<open>rte_eth_rx_burst\<close> will deliver; the calls made, with their results; and the buffers
  delivered and freed.
\<close>

record dpdk =
  answers :: "int list"
  bursts :: "PacketView list list"
  calls :: "(dpdk_call \<times> int) list"
  delivered :: "nat list"
  freed :: "nat list"

definition rte :: "dpdk_call \<Rightarrow> dpdk \<Rightarrow> (int \<times> dpdk) option" where
  "rte c d = (case answers d of [] \<Rightarrow> None
     | r # rs \<Rightarrow> Some (r, d\<lparr>answers := rs, calls := calls d @ [(c, r)]\<rparr>))"

definition rte_void :: "dpdk_call \<Rightarrow> dpdk \<Rightarrow> dpdk" where
  "rte_void c d = d\<lparr>calls := calls d @ [(c, 0)]\<rparr>"

section \<open>The receive source\<close>

record DpdkConfig =
  port_id :: u16
  queue_id :: u16
  promiscuous :: bool
  mempool_name :: string

record DpdkRxSourceImpl =
  dcfg :: DpdkConfig
  mbuf_pool :: bool              \<comment> \<open>\<^verbatim>\<open>mbuf_pool_ != nullptr\<close>\<close>
  is_open :: bool

definition default_dpdk_config :: DpdkConfig where
  "default_dpdk_config = \<lparr>port_id = 0, queue_id = 0, promiscuous = True, mempool_name = ''md_engine_rx''\<rparr>"

definition dpdk_create :: "DpdkConfig \<Rightarrow> DpdkRxSourceImpl" where
  "dpdk_create c = \<lparr>dcfg = c, mbuf_pool = False, is_open = False\<rparr>"

definition reset_mbuf_pool :: "DpdkRxSourceImpl \<times> dpdk \<Rightarrow> DpdkRxSourceImpl \<times> dpdk" where
  "reset_mbuf_pool sd =
     (if mbuf_pool (fst sd) then ((fst sd)\<lparr>mbuf_pool := False\<rparr>, rte_void Rte_pool_free (snd sd)) else sd)"

text \<open>Creating the pool, if there is none.\<close>

definition open_pool :: "DpdkRxSourceImpl \<times> dpdk \<Rightarrow> (bool \<times> DpdkRxSourceImpl \<times> dpdk) option" where
  "open_pool sd =
     (let (s, d) = sd in
      if mbuf_pool s then Some (True, s, d)
      else do { (r, d) \<leftarrow> rte (Rte_pool_create (mempool_name (dcfg s) @ ''_'' @ show_nat (unat (port_id (dcfg s))))) d;
                if r < 0 then Some (False, s, d) else Some (True, s\<lparr>mbuf_pool := True\<rparr>, d) })"

definition dpdk_open :: "DpdkRxSourceImpl \<times> dpdk \<Rightarrow> (bool \<times> DpdkRxSourceImpl \<times> dpdk) option" where
  "dpdk_open sd =
     (let (s, d) = sd; port = port_id (dcfg s) in
      if is_open s then Some (True, s, d)
      else if queue_id (dcfg s) \<noteq> 0 then Some (False, s, d)
      else
      do { (ok, s, d) \<leftarrow> open_pool (s, d);
           if \<not> ok then Some (False, s, d) else
           do { (configure_ret, d) \<leftarrow> rte (Rte_dev_configure port) d;
                if configure_ret < 0 then Some (False, reset_mbuf_pool (s, d)) else
                do { (queue_ret, d) \<leftarrow> rte (Rte_rx_queue_setup port) d;
                     if queue_ret < 0 then Some (False, reset_mbuf_pool (s, rte_void (Rte_dev_close port) d)) else
                     do { (ret, d) \<leftarrow> rte (Rte_dev_start port) d;
                          if ret < 0 then Some (False, reset_mbuf_pool (s, rte_void (Rte_dev_close port) d)) else
                          if promiscuous (dcfg s) then
                            do { (_, d) \<leftarrow> rte (Rte_promiscuous port) d;
                                 Some (True, s\<lparr>is_open := True\<rparr>, d) }
                          else Some (True, s\<lparr>is_open := True\<rparr>, d) } } } })"

definition dpdk_close :: "DpdkRxSourceImpl \<times> dpdk \<Rightarrow> DpdkRxSourceImpl \<times> dpdk" where
  "dpdk_close sd =
     (let (s, d) = sd; port = port_id (dcfg s) in
      if \<not> is_open s \<and> \<not> mbuf_pool s then (s, d)
      else reset_mbuf_pool
        (if is_open s
         then (s\<lparr>is_open := False\<rparr>, rte_void (Rte_dev_close port) (rte_void (Rte_dev_stop port) d))
         else (s, d)))"

text \<open>
  \<^verbatim>\<open>poll\<close> asks for at most \<^verbatim>\<open>min(capacity, 256)\<close> packets. \<^const>\<open>None\<close>: the driver has no
  further answer, or delivers more than the array holds.
\<close>

definition kMaxBurst :: nat where
  "kMaxBurst = 256"

definition poll :: "nat \<Rightarrow> dpdk \<Rightarrow> (PacketView list \<times> dpdk) option" where
  "poll capacity d =
     (let burst = (if capacity < kMaxBurst then capacity else kMaxBurst) in
      case bursts d of [] \<Rightarrow> None
      | ps # bs \<Rightarrow> if burst < length ps then None
                 else Some (ps, d\<lparr>bursts := bs, delivered := delivered d @ map pv_handle ps\<rparr>))"

definition release :: "PacketView list \<Rightarrow> dpdk \<Rightarrow> dpdk" where
  "release ps d = d\<lparr>freed := freed d @ map pv_handle ps\<rparr>"

definition init_eal :: "dpdk \<Rightarrow> (bool \<times> dpdk) option" where
  "init_eal d =
     do { (ret, d) \<leftarrow> rte Rte_eal_init d;
          if ret < 0 then Some (False, d)
          else do { (port_count, d) \<leftarrow> rte Rte_dev_count d;
                    Some (port_count \<noteq> 0, d) } }"

section \<open>The engine\<close>

record EngineConfig =
  burst_size :: nat
  udp_dst_port :: u16
  log_each_packet :: bool

definition default_engine_config :: EngineConfig where
  "default_engine_config = \<lparr>burst_size = 32, udp_dst_port = 8888, log_each_packet = False\<rparr>"

datatype v3_log =
    Log_decode_failed nat
  | Log_packet nat nat MarketDataMsg
  | Log_gap u64 u64 u64            \<comment> \<open>expected, got, gap\<close>
  | Log_out_of_order u64 u64

record engine_v3 = seq_state +
  v3_cfg :: EngineConfig
  v3_source :: "DpdkRxSourceImpl option"
  v3_log :: "v3_log list"

definition v3_new :: "EngineConfig \<Rightarrow> engine_v3" where
  "v3_new c = \<lparr>expected_seq_num = 0, seq_initialized = False, v3_cfg = c, v3_source = None, v3_log = []\<rparr>"

definition attach :: "engine_v3 \<Rightarrow> DpdkRxSourceImpl \<Rightarrow> bool \<times> engine_v3" where
  "attach s rs = (if v3_source s \<noteq> None then (False, s) else (True, s\<lparr>v3_source := Some rs\<rparr>))"

text \<open>The branches on the sequence number.\<close>

definition v3_on_message :: "engine_v3 \<Rightarrow> u64 \<Rightarrow> engine_v3" where
  "v3_on_message s n =
     (if \<not> seq_initialized s then s\<lparr>expected_seq_num := n + 1, seq_initialized := True\<rparr>
      else if n = expected_seq_num s then s\<lparr>expected_seq_num := expected_seq_num s + 1\<rparr>
      else if n > expected_seq_num s then
        s\<lparr>v3_log := v3_log s @ [Log_gap (expected_seq_num s) n (n - expected_seq_num s)],
          expected_seq_num := n + 1\<rparr>
      else s\<lparr>v3_log := v3_log s @ [Log_out_of_order (expected_seq_num s) n]\<rparr>)"

interpretation v3: sequencer v3_on_message seq_state.truncate
  by unfold_locales (auto simp: v3_on_message_def seq_state.defs advance_def classify_def)

definition process_one :: "rte_layout \<Rightarrow> endian \<Rightarrow> engine_v3 \<Rightarrow> PacketView \<Rightarrow> engine_v3 option" where
  "process_one L e s packet =
     (case pv_data packet of
        None \<Rightarrow> Some s
      | Some frame \<Rightarrow>
          do { (ok, payload, payload_len) \<leftarrow> extract_udp_payload L packet (udp_dst_port (v3_cfg s));
               if \<not> ok then Some s else
               do { (dok, msg) \<leftarrow> decode e (drop (the payload) frame) payload_len zero_msg;
                    if \<not> dok then Some (s\<lparr>v3_log := v3_log s @ [Log_decode_failed payload_len]\<rparr>)
                    else
                      let s = (if log_each_packet (v3_cfg s)
                               then s\<lparr>v3_log := v3_log s @ [Log_packet (pv_len packet) payload_len msg]\<rparr> else s)
                      in Some (v3_on_message s (seq_num msg)) } })"

fun process_all :: "rte_layout \<Rightarrow> endian \<Rightarrow> engine_v3 \<Rightarrow> PacketView list \<Rightarrow> engine_v3 option" where
  "process_all L e s [] = Some s"
| "process_all L e s (p # ps) = do { s \<leftarrow> process_one L e s p; process_all L e s ps }"

text \<open>
  The receive loop; \<open>stops\<close> gives the value of its stop condition (\<^verbatim>\<open>request_stop\<close> or the signal
  flag) at each test.
\<close>

fun v3_loop :: "rte_layout \<Rightarrow> endian \<Rightarrow> bool list \<Rightarrow> nat \<Rightarrow> engine_v3 \<times> dpdk \<Rightarrow> (engine_v3 \<times> dpdk) option" where
  "v3_loop L e [] burst sd = None"
| "v3_loop L e (stop # stops) burst sd =
     (if stop then Some sd
      else do { (ps, d) \<leftarrow> poll burst (snd sd);
                s \<leftarrow> process_all L e (fst sd) ps;
                let d = (if 0 < length ps then release ps d else d);
                v3_loop L e stops burst (s, d) })"

definition v3_run :: "rte_layout \<Rightarrow> endian \<Rightarrow> bool list \<Rightarrow> engine_v3 \<Rightarrow> dpdk \<Rightarrow> (bool \<times> engine_v3 \<times> dpdk) option" where
  "v3_run L e stops s d =
     (case v3_source s of
        None \<Rightarrow> Some (False, s, d)
      | Some src \<Rightarrow>
          do { (ok, src, d) \<leftarrow> dpdk_open (src, d);
               let s = s\<lparr>v3_source := Some src\<rparr>;
               if \<not> ok then Some (False, s, d) else
               let burst = (if burst_size (v3_cfg s) < kMaxBurst then burst_size (v3_cfg s) else kMaxBurst) in
               do { (s, d) \<leftarrow> v3_loop L e stops burst (s, d);
                    let (src, d) = dpdk_close (the (v3_source s), d);
                    Some (True, s\<lparr>v3_source := Some src\<rparr>, d) } })"

section \<open>Packets\<close>

text \<open>The driver's promise on a packet: its buffer holds at least the length it reports.\<close>

definition packet_ok :: "PacketView \<Rightarrow> bool" where
  "packet_ok p \<longleftrightarrow> (case pv_data p of None \<Rightarrow> True | Some frame \<Rightarrow> pv_len p \<le> length frame)"

text \<open>The message a packet carries for the engine, if any.\<close>

definition packet_msg :: "rte_layout \<Rightarrow> u16 \<Rightarrow> PacketView \<Rightarrow> MarketDataMsg option" where
  "packet_msg L port p = (case pv_data p of
      None \<Rightarrow> None
    | Some frame \<Rightarrow>
        let udp = ether_hdr_len L + ip_hdr_bytes L frame in
        if is_udp_packet L frame (pv_len p) port \<and>
           kWireSize \<le> unat (be16 frame (udp + dgram_len_at L)) - udp_hdr_len L
        then Some (wire_msg (drop (udp + udp_hdr_len L) frame)) else None)"

lemma v3_upd [simp]:
  "seq_state.truncate (s\<lparr>v3_log := l\<rparr>) = seq_state.truncate s"
  "seq_state.truncate (s\<lparr>v3_source := src\<rparr>) = seq_state.truncate s"
  by (simp_all add: seq_state.defs)

lemma v3_on_message_keeps [simp]:
  "v3_cfg (v3_on_message s n) = v3_cfg s" "v3_source (v3_on_message s n) = v3_source s"
  by (simp_all add: v3_on_message_def)

lemma process_one_spec:
  assumes "layout_ok L" and "packet_ok p"
  obtains s' where "process_one L e s p = Some s'" "v3_cfg s' = v3_cfg s" "v3_source s' = v3_source s"
    "seq_state.truncate s' = (case packet_msg L (udp_dst_port (v3_cfg s)) p of
        None \<Rightarrow> seq_state.truncate s | Some m \<Rightarrow> advance (seq_state.truncate s) (seq_num m))"
proof (cases "pv_data p")
  case None
  then show thesis using that [of s] by (simp add: process_one_def packet_msg_def)
next
  case (Some frame)
  with assms(2) have len: "pv_len p \<le> length frame" by (simp add: packet_ok_def)
  let ?port = "udp_dst_port (v3_cfg s)"
  let ?udp = "ether_hdr_len L + ip_hdr_bytes L frame"
  obtain k n where ex: "extract_udp_payload L p ?port = Some (is_udp_packet L frame (pv_len p) ?port, k, n)"
    and kn: "is_udp_packet L frame (pv_len p) ?port \<Longrightarrow>
      k = Some (?udp + udp_hdr_len L) \<and> n = unat (be16 frame (?udp + dgram_len_at L)) - udp_hdr_len L"
    using extract_eq [OF assms(1) Some len, of ?port] by blast
  show thesis
  proof (cases "is_udp_packet L frame (pv_len p) ?port")
    case False
    then show thesis using that [of s] Some ex by (simp add: process_one_def packet_msg_def Let_def)
  next
    case True
    note kn = kn [OF True]
    have "?udp + unat (be16 frame (?udp + dgram_len_at L)) \<le> pv_len p"
      using True by (simp add: is_udp_packet_def Let_def)
    then have dlen: "n \<le> length (drop (?udp + udp_hdr_len L) frame)"
      using kn len by simp
    show thesis
    proof (cases "kWireSize \<le> n")
      case False
      then have "process_one L e s p = Some (s\<lparr>v3_log := v3_log s @ [Log_decode_failed n]\<rparr>)"
        using Some ex True kn by (simp add: process_one_def decode_def)
      moreover have "packet_msg L ?port p = None"
        using False kn Some by (simp add: packet_msg_def Let_def)
      ultimately show thesis using that by simp
    next
      case True2: True
      let ?m = "wire_msg (drop (?udp + udp_hdr_len L) frame)"
      let ?s = "if log_each_packet (v3_cfg s)
        then s\<lparr>v3_log := v3_log s @ [Log_packet (pv_len p) n ?m]\<rparr> else s"
      have "process_one L e s p = Some (v3_on_message ?s (seq_num ?m))"
        using Some ex True True2 kn dlen decode_wire_msg [of "drop (?udp + udp_hdr_len L) frame" n e zero_msg]
        by (simp add: process_one_def)
      moreover have "packet_msg L ?port p = Some ?m"
        using True True2 kn Some by (simp add: packet_msg_def Let_def)
      ultimately show thesis
        using that [of "v3_on_message ?s (seq_num ?m)"] v3.handle_seq [of ?s] by simp
    qed
  qed
qed

definition packet_seqs :: "rte_layout \<Rightarrow> u16 \<Rightarrow> PacketView list \<Rightarrow> u64 list" where
  "packet_seqs L port ps = map seq_num (List.map_filter (packet_msg L port) ps)"

lemma packet_seqs_simps [simp]:
  "packet_seqs L port [] = []"
  "packet_seqs L port (p # ps) =
     (case packet_msg L port p of None \<Rightarrow> [] | Some m \<Rightarrow> [seq_num m]) @ packet_seqs L port ps"
  by (simp_all add: packet_seqs_def List.map_filter_simps split: option.split)

lemma packet_seqs_append [simp]: "packet_seqs L port (ps @ qs) = packet_seqs L port ps @ packet_seqs L port qs"
  by (induction ps) simp_all

lemma process_all_spec:
  assumes "layout_ok L" and "\<forall>p\<in>set ps. packet_ok p"
  shows "\<exists>s'. process_all L e s ps = Some s' \<and> v3_cfg s' = v3_cfg s \<and> v3_source s' = v3_source s \<and>
    seq_state.truncate s' = foldl advance (seq_state.truncate s) (packet_seqs L (udp_dst_port (v3_cfg s)) ps)"
  using assms(2)
proof (induction ps arbitrary: s)
  case Nil
  then show ?case by simp
next
  case (Cons p ps)
  obtain s1 where s1: "process_one L e s p = Some s1" "v3_cfg s1 = v3_cfg s" "v3_source s1 = v3_source s"
    "seq_state.truncate s1 = (case packet_msg L (udp_dst_port (v3_cfg s)) p of
        None \<Rightarrow> seq_state.truncate s | Some m \<Rightarrow> advance (seq_state.truncate s) (seq_num m))"
    using process_one_spec [OF assms(1), of p e s] Cons.prems by auto
  with Cons.IH [of s1] Cons.prems show ?case
    by (auto split: option.split)
qed

text \<open>
  C10. The engine loop is total and follows the sequencing specification: for any packets the
  driver delivers, well-formed or not, as long as each burst is no larger than asked for and
  each buffer is as long as the driver says, the loop stops when it is told to, never reads
  outside a packet, and has advanced the expected sequence number by exactly the messages
  in UDP packets to the configured port, in order; and it has freed exactly the packet
  buffers it was given.
\<close>

theorem v3_loop_total:
  assumes "layout_ok L" and "burst \<le> kMaxBurst"
    and "\<forall>ps\<in>set (take n (bursts d)). length ps \<le> burst \<and> (\<forall>p\<in>set ps. packet_ok p)"
    and "n \<le> length (bursts d)"
  shows "\<exists>s' d'. v3_loop L e (replicate n False @ [True]) burst (s, d) = Some (s', d') \<and>
    seq_state.truncate s' =
      foldl advance (seq_state.truncate s) (packet_seqs L (udp_dst_port (v3_cfg s)) (concat (take n (bursts d)))) \<and>
    freed d' = freed d @ map pv_handle (concat (take n (bursts d)))"
  using assms(3,4)
proof (induction n arbitrary: s d)
  case 0
  then show ?case by simp
next
  case (Suc n)
  then obtain ps bs where bs: "bursts d = ps # bs" by (cases "bursts d") auto
  with Suc.prems have ps: "length ps \<le> burst" "\<forall>p\<in>set ps. packet_ok p" by auto
  let ?d1 = "d\<lparr>bursts := bs, delivered := delivered d @ map pv_handle ps\<rparr>"
  let ?d2 = "if 0 < length ps then release ps ?d1 else ?d1"
  have poll: "poll burst d = Some (ps, ?d1)"
    using ps(1) assms(2) by (auto simp: poll_def bs kMaxBurst_def)
  obtain s1 where s1: "process_all L e s ps = Some s1" "v3_cfg s1 = v3_cfg s"
    "seq_state.truncate s1 = foldl advance (seq_state.truncate s) (packet_seqs L (udp_dst_port (v3_cfg s)) ps)"
    using process_all_spec [OF assms(1) ps(2), of e s] by auto
  have d2: "bursts ?d2 = bs" "freed ?d2 = freed d @ map pv_handle ps"
    by (auto simp: release_def)
  obtain s' d' where "v3_loop L e (replicate n False @ [True]) burst (s1, ?d2) = Some (s', d')"
    "seq_state.truncate s' = foldl advance (seq_state.truncate s1)
      (packet_seqs L (udp_dst_port (v3_cfg s1)) (concat (take n bs)))"
    "freed d' = freed ?d2 @ map pv_handle (concat (take n bs))"
    using Suc.IH [of ?d2 s1] Suc.prems bs unfolding d2 by auto
  with s1 d2 show ?case by (simp add: bs poll)
qed

text \<open>A run of two bursts, with a packet to another port in the second.\<close>

definition demo_dpdk :: dpdk where
  "demo_dpdk = \<lparr>answers = [], bursts = [[\<lparr>pv_data = Some (demo_frame (wire_layout zero_msg)),
       pv_len = length (demo_frame (wire_layout zero_msg)), pv_handle = 1\<rparr>],
     [\<lparr>pv_data = Some (demo_frame []), pv_len = 20, pv_handle = 2\<rparr>]], calls = [], delivered = [], freed = []\<rparr>"

theorem v3_loop_total_witness:
  "\<exists>s' d'. v3_loop std_layout Little (replicate 2 False @ [True]) 32 (v3_new default_engine_config, demo_dpdk) =
      Some (s', d') \<and>
    seq_state.truncate s' = foldl advance (seq_state.truncate (v3_new default_engine_config))
      (packet_seqs std_layout (udp_dst_port (v3_cfg (v3_new default_engine_config)))
        (concat (take 2 (bursts demo_dpdk)))) \<and>
    freed d' = freed demo_dpdk @ map pv_handle (concat (take 2 (bursts demo_dpdk)))"
  by (rule v3_loop_total [OF std_layout_ok])
    (simp_all add: kMaxBurst_def demo_dpdk_def packet_ok_def demo_frame_def udp_frame_def)

section \<open>Resources\<close>

text \<open>What the calls so far hold: mempools, configured ports, started ports.\<close>

fun rte_effect :: "dpdk_call \<times> int \<Rightarrow> int \<times> int \<times> int \<Rightarrow> int \<times> int \<times> int" where
  "rte_effect (Rte_pool_create n, r) (a, b, c) = (if r < 0 then a else a + 1, b, c)"
| "rte_effect (Rte_pool_free, r) (a, b, c) = (a - 1, b, c)"
| "rte_effect (Rte_dev_configure p, r) (a, b, c) = (a, if r < 0 then b else b + 1, c)"
| "rte_effect (Rte_dev_close p, r) (a, b, c) = (a, b - 1, c)"
| "rte_effect (Rte_dev_start p, r) (a, b, c) = (a, b, if r < 0 then c else c + 1)"
| "rte_effect (Rte_dev_stop p, r) (a, b, c) = (a, b, c - 1)"
| "rte_effect _ abc = abc"

definition holds :: "dpdk \<Rightarrow> int \<times> int \<times> int" where
  "holds d = fold rte_effect (calls d) (0, 0, 0)"

lemma holds_rte: "rte c d = Some (r, d') \<Longrightarrow>
    holds d' = rte_effect (c, r) (holds d) \<and> delivered d' = delivered d \<and> freed d' = freed d"
  by (auto simp: rte_def holds_def split: list.splits)

lemma holds_rte_void [simp]:
  "holds (rte_void c d) = rte_effect (c, 0) (holds d)"
  "delivered (rte_void c d) = delivered d" "freed (rte_void c d) = freed d"
  by (simp_all add: rte_void_def holds_def)

text \<open>The source's flags say what it holds, on top of what was held before.\<close>

definition src_inv :: "int \<times> int \<times> int \<Rightarrow> DpdkRxSourceImpl \<times> dpdk \<Rightarrow> bool" where
  "src_inv base sd \<longleftrightarrow> (is_open (fst sd) \<longrightarrow> mbuf_pool (fst sd)) \<and>
     holds (snd sd) = (fst base + of_bool (mbuf_pool (fst sd)), fst (snd base) + of_bool (is_open (fst sd)),
       snd (snd base) + of_bool (is_open (fst sd)))"

lemma reset_mbuf_pool_eq:
  "reset_mbuf_pool (s, d) = (s', d') \<Longrightarrow> s' = s\<lparr>mbuf_pool := False\<rparr> \<and> delivered d' = delivered d \<and>
    freed d' = freed d \<and>
    holds d' = (if mbuf_pool s then rte_effect (Rte_pool_free, 0) (holds d) else holds d)"
  by (auto simp: reset_mbuf_pool_def split: if_splits)

lemma open_pool_eq:
  assumes "open_pool (s, d) = Some (ok, s', d')" and "src_inv base (s, d)" and "\<not> is_open s"
  shows "src_inv base (s', d') \<and> is_open s' = is_open s \<and> mbuf_pool s' = ok \<and> dcfg s' = dcfg s \<and>
    delivered d' = delivered d \<and> freed d' = freed d"
  using assms
  by (cases base) (auto simp: open_pool_def src_inv_def bind_eq_Some_conv dest!: holds_rte split: if_splits)

lemma dpdk_open_inv:
  assumes "dpdk_open (s, d) = Some (ok, s', d')" and "src_inv base (s, d)"
  shows "src_inv base (s', d') \<and> delivered d' = delivered d \<and> freed d' = freed d \<and> (ok \<longrightarrow> is_open s') \<and>
    (\<not> ok \<longrightarrow> \<not> is_open s' \<and> (queue_id (dcfg s) = 0 \<longrightarrow> \<not> mbuf_pool s'))"
proof (cases "is_open s \<or> queue_id (dcfg s) \<noteq> 0")
  case True
  with assms show ?thesis by (auto simp: dpdk_open_def Let_def split: if_splits)
next
  case False
  with assms(1) obtain ok1 s1 d1 where p: "open_pool (s, d) = Some (ok1, s1, d1)"
    by (auto simp: dpdk_open_def Let_def bind_eq_Some_conv)
  have inv1: "src_inv base (s1, d1)" "is_open s1 = is_open s" "mbuf_pool s1 = ok1" "dcfg s1 = dcfg s"
    "delivered d1 = delivered d" "freed d1 = freed d"
    using open_pool_eq [OF p assms(2)] False by auto
  from assms(1) False inv1 show ?thesis
    by (cases base) (auto simp: dpdk_open_def p Let_def src_inv_def bind_eq_Some_conv
        dest!: holds_rte reset_mbuf_pool_eq split: if_splits)
qed

lemma dpdk_close_inv:
  assumes "dpdk_close (s, d) = (s', d')" and "src_inv base (s, d)"
  shows "holds d' = base \<and> \<not> is_open s' \<and> \<not> mbuf_pool s' \<and> delivered d' = delivered d \<and> freed d' = freed d"
  using assms
  by (cases base) (auto simp: dpdk_close_def src_inv_def Let_def dest!: reset_mbuf_pool_eq split: if_splits)

lemma process_all_source: "process_all L e s ps = Some s' \<Longrightarrow> v3_source s' = v3_source s"
proof (induction ps arbitrary: s)
  case (Cons p ps)
  then obtain s1 where "process_one L e s p = Some s1" "process_all L e s1 ps = Some s'"
    by (auto simp: bind_eq_Some_conv)
  moreover from this(1) have "v3_source s1 = v3_source s"
    by (auto simp: process_one_def bind_eq_Some_conv Let_def split: option.splits if_splits)
  ultimately show ?case using Cons.IH by simp
qed simp

lemma v3_loop_buffers:
  "v3_loop L e stops burst (s, d) = Some (s', d') \<Longrightarrow>
   v3_source s' = v3_source s \<and> calls d' = calls d \<and>
   (\<exists>hs. delivered d' = delivered d @ hs \<and> freed d' = freed d @ hs)"
proof (induction stops arbitrary: s d)
  case (Cons st stops)
  show ?case
  proof (cases st)
    case True
    with Cons.prems show ?thesis by simp
  next
    case False
    then obtain ps d1 s1 where p: "poll burst d = Some (ps, d1)" "process_all L e s ps = Some s1"
      "v3_loop L e stops burst (s1, if 0 < length ps then release ps d1 else d1) = Some (s', d')"
      using Cons.prems by (auto simp: bind_eq_Some_conv Let_def)
    let ?d2 = "if 0 < length ps then release ps d1 else d1"
    have "delivered ?d2 = delivered d @ map pv_handle ps" "freed ?d2 = freed d @ map pv_handle ps"
      "calls ?d2 = calls d"
      using p(1) by (auto simp: poll_def release_def Let_def split: list.splits if_splits)
    with Cons.IH [OF p(3)] process_all_source [OF p(2)] show ?thesis
      by fastforce
  qed
qed simp

lemma v3_run_resources:
  assumes "v3_run L e stops s d = Some (ok, s', d')" and "v3_source s = Some src"
    and inv: "src_inv base (src, d)" and "is_open src \<or> \<not> mbuf_pool src"
  shows "holds d' = base \<and> (\<exists>hs. delivered d' = delivered d @ hs \<and> freed d' = freed d @ hs) \<and>
    (\<exists>src'. v3_source s' = Some src' \<and> \<not> is_open src' \<and> \<not> mbuf_pool src')"
proof -
  obtain ok1 src1 d1 where op: "dpdk_open (src, d) = Some (ok1, src1, d1)"
    using assms(1,2) by (auto simp: v3_run_def bind_eq_Some_conv)
  note o = dpdk_open_inv [OF op inv]
  show ?thesis
  proof (cases ok1)
    case False
    have "\<not> mbuf_pool src1"
      using op False o assms(4) by (cases "queue_id (dcfg src) = 0") (auto simp: dpdk_open_def Let_def split: if_splits)
    with False assms(1,2) op o show ?thesis
      by (cases base) (auto simp: v3_run_def src_inv_def)
  next
    case True
    let ?s = "s\<lparr>v3_source := Some src1\<rparr>"
    let ?burst = "if burst_size (v3_cfg s) < kMaxBurst then burst_size (v3_cfg s) else kMaxBurst"
    obtain s2 d2 where loop: "v3_loop L e stops ?burst (?s, d1) = Some (s2, d2)"
      and fin: "(case dpdk_close (the (v3_source s2), d2) of (src, d) \<Rightarrow> Some (True, s2\<lparr>v3_source := Some src\<rparr>, d)) =
        Some (ok, s', d')"
      using True assms(1,2) op by (auto simp: v3_run_def Let_def bind_eq_Some_conv cong: if_cong)
    obtain src3 d3 where cl: "dpdk_close (src1, d2) = (src3, d3)" by fastforce
    note lp = v3_loop_buffers [OF loop]
    then have "holds d2 = holds d1" by (simp add: holds_def)
    with o have "src_inv base (src1, d2)" by (simp add: src_inv_def)
    from dpdk_close_inv [OF cl this] lp o fin cl show ?thesis by auto
  qed
qed

text \<open>
  A run gives everything back: when \<^verbatim>\<open>run\<close> returns, with success or not, on a source that
  was closed, no mempool, configured port or started port remains beyond those held
  before, every packet buffer delivered was freed once, in order, and the source is closed,
  ready to be opened again.
\<close>

lemma v3_run_gives_back:
  assumes "v3_run L e stops s d = Some (ok, s', d')"
    and "v3_source s = Some src" and "\<not> is_open src" and "\<not> mbuf_pool src"
  shows "holds d' = holds d \<and> (\<exists>hs. delivered d' = delivered d @ hs \<and> freed d' = freed d @ hs) \<and>
    (\<exists>src'. v3_source s' = Some src' \<and> \<not> is_open src' \<and> \<not> mbuf_pool src')"
proof -
  have "src_inv (holds d) (src, d)" using assms(3,4) by (simp add: src_inv_def)
  from v3_run_resources [OF assms(1,2) this] assms(4) show ?thesis by simp
qed

lemma v3_run_gives_back_witness:
  "\<exists>s' d'. v3_run std_layout Little [False, True]
      ((v3_new default_engine_config)\<lparr>v3_source := Some (dpdk_create default_dpdk_config)\<rparr>)
      (demo_dpdk\<lparr>answers := [0, 0, 0, 0, 0]\<rparr>) = Some (True, s', d') \<and> holds d' = holds (demo_dpdk\<lparr>answers := [0, 0, 0, 0, 0]\<rparr>) \<and>
    freed d' = delivered d'"
proof -
  let ?s = "(v3_new default_engine_config)\<lparr>v3_source := Some (dpdk_create default_dpdk_config)\<rparr>"
  let ?d = "demo_dpdk\<lparr>answers := [0, 0, 0, 0, 0]\<rparr>"
  let ?p = "\<lparr>pv_data = Some (demo_frame (wire_layout zero_msg)),
    pv_len = length (demo_frame (wire_layout zero_msg)), pv_handle = 1\<rparr>"
  have s2: "\<exists>s2. process_one std_layout Little (?s\<lparr>v3_source := src\<rparr>) ?p = Some s2 \<and> v3_source s2 = src" for src
    using process_one_spec [OF std_layout_ok, of ?p Little "?s\<lparr>v3_source := src\<rparr>"] by (auto simp: packet_ok_def)
  have "\<exists>s' d'. v3_run std_layout Little [False, True] ?s ?d = Some (True, s', d')"
    using s2 [of "Some \<lparr>dcfg = default_dpdk_config, mbuf_pool = True, is_open = True\<rparr>"]
    by (auto simp: v3_run_def dpdk_open_def open_pool_def rte_def dpdk_create_def default_dpdk_config_def
        default_engine_config_def v3_new_def demo_dpdk_def poll_def kMaxBurst_def Let_def case_prod_unfold)
  then obtain s' d' where run: "v3_run std_layout Little [False, True] ?s ?d = Some (True, s', d')"
    by blast
  from v3_run_gives_back [OF run] have "holds d' = holds ?d" "\<exists>hs. delivered d' = delivered ?d @ hs \<and> freed d' = freed ?d @ hs"
    by (simp_all add: dpdk_create_def)
  with run show ?thesis by (auto simp: demo_dpdk_def)
qed

end
