(* ===== verification/Latency.thy ===== *)
theory Latency
  imports MD_Prelude "HOL-Library.Multiset"
begin

text \<open>
  The latency histogram of engine v2: \<^verbatim>\<open>record_latency\<close> and \<^verbatim>\<open>snapshot_latency\<close> of
  \<^verbatim>\<open>src/src/engine/v2/engine.cpp\<close>. The loop around \<^verbatim>\<open>compare_exchange_weak\<close> is an atomic
  maximum: it retries until the stored value is at least the new one.
\<close>

section \<open>The histogram\<close>

definition kLatencyBucketWidthNs :: u64 where
  "kLatencyBucketWidthNs = 1000"

definition kLatencyBucketCount :: nat where
  "kLatencyBucketCount = 20000"

record Latency =
  latency_buckets :: "u64 list"
  latency_samples :: u64
  latency_max_ns :: u64

record LatencySnapshot =
  samples :: u64
  p50_ns :: u64
  p99_ns :: u64
  p999_ns :: u64
  max_ns :: u64
  overflow :: u64

definition latency_reset :: Latency where
  "latency_reset = \<lparr>latency_buckets = replicate (kLatencyBucketCount + 1) 0, latency_samples = 0,
     latency_max_ns = 0\<rparr>"

definition record_latency :: "u64 \<Rightarrow> Latency \<Rightarrow> Latency" where
  "record_latency latency_ns l =
     (let bucket = min (unat (latency_ns div kLatencyBucketWidthNs)) kLatencyBucketCount in
      l\<lparr>latency_buckets := (latency_buckets l)[bucket := latency_buckets l ! bucket + 1],
        latency_samples := latency_samples l + 1,
        latency_max_ns := (if latency_max_ns l < latency_ns then latency_ns else latency_max_ns l)\<rparr>)"

text \<open>The search in \<^verbatim>\<open>quantile_ns\<close>, from bucket \<open>i\<close> on.\<close>

fun quantile_from :: "u64 \<Rightarrow> u64 \<Rightarrow> nat \<Rightarrow> u64 \<Rightarrow> u64 list \<Rightarrow> u64" where
  "quantile_from target mx i seen [] = mx"
| "quantile_from target mx i seen (c # cs) =
     (let seen = seen + c in
      if target \<le> seen then
        if kLatencyBucketCount \<le> i then mx else (of_nat i + 1) * kLatencyBucketWidthNs
      else quantile_from target mx (i + 1) seen cs)"

definition quantile_ns :: "u64 \<Rightarrow> u64 \<Rightarrow> u64 list \<Rightarrow> u64 \<Rightarrow> u64 \<Rightarrow> u64" where
  "quantile_ns smp mx counts numerator denominator =
     (let target = max 1 ((smp * numerator + denominator - 1) div denominator)
      in quantile_from target mx 0 0 counts)"

definition snapshot_latency :: "Latency \<Rightarrow> LatencySnapshot \<times> Latency" where
  "snapshot_latency l =
     (let counts = latency_buckets l; smp = latency_samples l; mx = latency_max_ns l;
          snap = \<lparr>samples = smp, p50_ns = 0, p99_ns = 0, p999_ns = 0, max_ns = mx,
            overflow = counts ! kLatencyBucketCount\<rparr>;
          l' = l\<lparr>latency_buckets := map (\<lambda>_. 0) counts, latency_samples := 0, latency_max_ns := 0\<rparr>
      in if smp = 0 then (snap, l')
         else (snap\<lparr>p50_ns := quantile_ns smp mx counts 50 100, p99_ns := quantile_ns smp mx counts 99 100,
           p999_ns := quantile_ns smp mx counts 999 1000\<rparr>, l'))"

section \<open>Counting\<close>

abbreviation bucket_of :: "u64 \<Rightarrow> nat" where
  "bucket_of x \<equiv> min (unat x div 1000) kLatencyBucketCount"

lemma bucket_unfold: "min (unat (x div kLatencyBucketWidthNs)) kLatencyBucketCount = bucket_of x"
  by (simp add: kLatencyBucketWidthNs_def unat_div)

definition recorded :: "u64 list \<Rightarrow> Latency" where
  "recorded xs = fold record_latency xs latency_reset"

text \<open>The histogram after recording \<open>xs\<close>, as long as nothing wraps.\<close>

definition hist_inv :: "u64 list \<Rightarrow> Latency \<Rightarrow> bool" where
  "hist_inv xs l \<longleftrightarrow> length (latency_buckets l) = kLatencyBucketCount + 1 \<and>
     (\<forall>i \<le> kLatencyBucketCount. latency_buckets l ! i = of_nat (count_list (map bucket_of xs) i)) \<and>
     latency_samples l = of_nat (length xs) \<and>
     latency_max_ns l = fold max xs 0"

lemma hist_inv_record:
  assumes "hist_inv xs l"
  shows "hist_inv (xs @ [x]) (record_latency x l)"
proof -
  have "bucket_of x < length (latency_buckets l)"
    using assms by (simp add: hist_inv_def)
  with assms show ?thesis
    unfolding hist_inv_def record_latency_def Let_def bucket_unfold
    by (auto simp: nth_list_update max_def)
qed

lemma recorded_inv: "hist_inv xs (recorded xs)"
proof (induction xs rule: rev_induct)
  case Nil
  then show ?case by (auto simp: recorded_def hist_inv_def latency_reset_def nth_Cons')
next
  case (snoc x xs)
  from hist_inv_record [OF this] show ?case by (simp add: recorded_def)
qed

section \<open>Quantiles\<close>

lemma sorted_rank:
  assumes "sorted bs" and "1 \<le> t" and "t \<le> length bs"
  shows "t \<le> length (filter (\<lambda>b. b \<le> i) bs) \<longleftrightarrow> bs ! (t - 1) \<le> (i :: nat)"
  using assms
proof (induction bs arbitrary: t)
  case Nil
  then show ?case by simp
next
  case (Cons b bs)
  show ?case
  proof (cases "b \<le> i")
    case False
    with Cons.prems have "filter (\<lambda>b. b \<le> i) (b # bs) = []" by (auto simp: filter_empty_conv)
    moreover have "b \<le> (b # bs) ! (t - 1)"
      using Cons.prems by (cases "t - 1") auto
    ultimately show ?thesis using False Cons.prems(2) by simp
  next
    case True
    show ?thesis
    proof (cases "t = 1")
      case False
      then obtain u where u: "t = Suc u" "1 \<le> u" using Cons.prems(2) by (cases t) auto
      with True Cons show ?thesis by (auto simp: nth_Cons')
    qed (use True in simp)
  qed
qed

lemma count_list_filter_le:
  "length (filter (\<lambda>b. b \<le> i) bs) = (\<Sum>j\<le>i. count_list bs j)" for bs :: "nat list"
proof (induction bs)
  case (Cons b bs)
  have "(\<Sum>j\<le>i. count_list (b # bs) j) = (\<Sum>j\<le>i. count_list bs j + (if b = j then 1 else 0))"
    by (intro sum.cong) auto
  also have "\<dots> = (\<Sum>j\<le>i. count_list bs j) + (if b \<le> i then 1 else 0)"
    by (simp add: sum.distrib)
  finally show ?case using Cons by simp
qed simp

text \<open>The search finds the first bucket whose cumulated count reaches the target.\<close>

lemma quantile_from_first:
  assumes "i \<le> k" and "k < i + length cs" and "\<And>j. j < length cs \<Longrightarrow> cs ! j = of_nat (f (i + j))"
    and "seen = of_nat (\<Sum>j<i. f j)" and "(\<Sum>j<i + length cs. f j) < 2 ^ 64" and "unat target \<le> (\<Sum>j\<le>k. f j)"
    and "\<And>m. m < k \<Longrightarrow> (\<Sum>j\<le>m. f j) < unat target"
  shows "quantile_from target mx i seen cs =
    (if kLatencyBucketCount \<le> k then mx else (of_nat k + 1) * kLatencyBucketWidthNs)"
  using assms
proof (induction cs arbitrary: i seen)
  case Nil
  then show ?case by simp
next
  case (Cons c cs)
  have c: "c = of_nat (f i)" using Cons.prems(3) [of 0] by simp
  then have seen: "seen + c = of_nat (\<Sum>j\<le>i. f j)"
    using Cons.prems(4) by (simp add: lessThan_Suc_atMost [symmetric])
  have "(\<Sum>j\<le>i. f j) \<le> (\<Sum>j<i + length (c # cs). f j)"
    by (rule sum_mono2) auto
  then have small: "(\<Sum>j\<le>i. f j) < 2 ^ 64" using Cons.prems(5) by simp
  then have le: "target \<le> seen + c \<longleftrightarrow> unat target \<le> (\<Sum>j\<le>i. f j)"
    unfolding seen word_le_nat_alt by (simp add: unat_of_nat_size del: of_nat_sum)
  show ?case
  proof (cases "i = k")
    case True
    then show ?thesis using le Cons.prems(6) by simp
  next
    case False
    then have "i < k" using Cons.prems(1) by simp
    then have "\<not> target \<le> seen + c" using le Cons.prems(7) [of i] by simp
    moreover have "quantile_from target mx (i + 1) (seen + c) cs =
      (if kLatencyBucketCount \<le> k then mx else (of_nat k + 1) * kLatencyBucketWidthNs)"
    proof (rule Cons.IH)
      show "cs ! j = of_nat (f (i + 1 + j))" if "j < length cs" for j
        using Cons.prems(3) [of "Suc j"] that by simp
      show "seen + c = of_nat (\<Sum>j<i + 1. f j)"
        using seen by (simp add: lessThan_Suc_atMost)
    qed (use \<open>i < k\<close> Cons.prems in auto)
    ultimately show ?thesis by (simp del: of_nat_Suc)
  qed
qed

definition rank :: "nat \<Rightarrow> nat \<Rightarrow> nat \<Rightarrow> nat" where
  "rank n num den = (n * num + den - 1) div den"

lemma rank_bounds:
  assumes "0 < n" and "1 \<le> num" and "num \<le> den"
  shows "1 \<le> rank n num den \<and> rank n num den \<le> n"
proof
  have "den \<le> n * num + den - 1" using assms by (cases n; cases num) auto
  then have "den div den \<le> (n * num + den - 1) div den" by (rule div_le_mono)
  then show "1 \<le> rank n num den" using assms by (simp add: rank_def)
  have "n * num \<le> n * den" using assms by simp
  then have "n * num + den - 1 < n * den + den" using assms by linarith
  then have "n * num + den - 1 < (n + 1) * den" by (simp add: algebra_simps)
  then show "rank n num den \<le> n"
    using assms by (simp add: rank_def div_less_iff_less_mult less_Suc_eq_le [symmetric])
qed

lemma target_eq:
  assumes "0 < n" and "n < 2 ^ 53" and "1 \<le> num" and "num \<le> den" and "den \<le> 1000"
  shows "unat (max 1 ((of_nat n * of_nat num + of_nat den - 1) div of_nat den) :: u64) = rank n num den"
proof -
  have "n * num \<le> 2 ^ 53 * 1000" using assms by (intro mult_mono) auto
  then have b: "n * num + den - 1 < 2 ^ 64" using assms by simp
  have "(of_nat n * of_nat num + of_nat den - 1 :: u64) = of_nat (n * num + den - 1)"
    using assms(3,4) by (simp add: of_nat_diff)
  then have "unat ((of_nat n * of_nat num + of_nat den - 1) div of_nat den :: u64) = rank n num den"
    using unat_of_nat_size [OF b] unat_of_nat_size [of den] assms by (simp only: unat_div rank_def) simp
  then show ?thesis
    using rank_bounds [OF assms(1,3,4)] by (auto simp: max_def word_le_nat_alt)
qed

text \<open>The upper edge of a sample's bucket; the maximum for samples beyond the last bucket.\<close>

definition upper_edge :: "u64 \<Rightarrow> u64 \<Rightarrow> u64" where
  "upper_edge mx s = (if unat s < 20000000 then (s div 1000 + 1) * 1000 else mx)"

lemma bucket_mono: "x \<le> y \<Longrightarrow> bucket_of x \<le> bucket_of y"
  by (intro min.mono div_le_mono) (simp_all add: word_le_nat_alt)

lemma sort_map_bucket: "map bucket_of (sort xs) = sort (map bucket_of xs)"
proof -
  have "sorted (map bucket_of (sort xs))"
    unfolding sorted_map by (rule sorted_wrt_mono_rel [OF bucket_mono sorted_sort])
  then show ?thesis
    by (intro properties_for_sort [symmetric]) simp_all
qed

lemma of_nat_div_1000: "of_nat (unat s div 1000) = s div 1000" for s :: u64
  using unat_less_size [of s] div_le_dividend [of "unat s" 1000]
  by (intro word_unat_eq_iff [THEN iffD2]) (simp add: unat_div unat_of_nat_size)

lemma quantile_ns_correct:
  assumes "xs \<noteq> []" and "length xs < 2 ^ 53" and "hist_inv xs l"
    and "1 \<le> num" and "num \<le> den" and "den \<le> 1000"
  shows "quantile_ns (latency_samples l) mx (latency_buckets l) (of_nat num) (of_nat den) =
    upper_edge mx (sort xs ! (rank (length xs) num den - 1))"
proof -
  let ?n = "length xs" and ?t = "rank (length xs) num den"
  let ?bs = "sort (map bucket_of xs)"
  let ?f = "count_list (map bucket_of xs)"
  let ?target = "max 1 ((of_nat ?n * of_nat num + of_nat den - 1) div of_nat den) :: u64"
  let ?k = "?bs ! (?t - 1)"
  have n: "0 < ?n" using assms(1) by simp
  have t: "unat ?target = ?t" using target_eq [OF n assms(2,4-6)] .
  have tb: "1 \<le> ?t" "?t \<le> ?n" using rank_bounds [OF n assms(4,5)] by auto
  have cum: "(\<Sum>j\<le>i. ?f j) = length (filter (\<lambda>b. b \<le> i) ?bs)" for i
  proof -
    have "length (filter (\<lambda>b. b \<le> i) ?bs) = length (filter (\<lambda>b. b \<le> i) (map bucket_of xs))"
      by (simp only: size_mset [symmetric] mset_filter mset_sort)
    then show ?thesis by (simp only: count_list_filter_le)
  qed
  have rank_iff: "?t \<le> (\<Sum>j\<le>i. ?f j) \<longleftrightarrow> ?k \<le> i" for i
    unfolding cum using tb by (intro sorted_rank) auto
  have kmem: "?k \<in> set (map bucket_of xs)"
    using tb nth_mem [of "?t - 1" ?bs] by simp
  then have kb: "?k \<le> kLatencyBucketCount" by auto
  have tot: "(\<Sum>j\<le>kLatencyBucketCount. ?f j) < 2 ^ 64"
    unfolding cum using assms(2) le_less_trans [OF length_filter_le, of ?bs "2 ^ 64"] by simp
  have "quantile_from ?target mx 0 0 (latency_buckets l) =
    (if kLatencyBucketCount \<le> ?k then mx else (of_nat ?k + 1) * kLatencyBucketWidthNs)"
  proof (rule quantile_from_first [where f = ?f])
    show "latency_buckets l ! j = of_nat (?f (0 + j))" if "j < length (latency_buckets l)" for j
      using assms(3) that by (simp add: hist_inv_def)
    show "(\<Sum>j<0 + length (latency_buckets l). ?f j) < 2 ^ 64"
      using assms(3) tot by (simp add: hist_inv_def lessThan_Suc_atMost)
    show "?k < 0 + length (latency_buckets l)"
      using assms(3) kb by (simp add: hist_inv_def)
    show "unat ?target \<le> (\<Sum>j\<le>?k. ?f j)" using t rank_iff [of ?k] by simp
    show "(\<Sum>j\<le>m. ?f j) < unat ?target" if "m < ?k" for m
      using t rank_iff [of m] that by simp
  qed simp_all
  moreover have k: "?k = bucket_of (sort xs ! (?t - 1))"
    unfolding sort_map_bucket [symmetric] using tb by (subst nth_map) auto
  moreover have "(of_nat (unat s div 1000) + 1) * kLatencyBucketWidthNs = (s div 1000 + 1) * 1000" for s :: u64
    by (simp add: kLatencyBucketWidthNs_def of_nat_div_1000)
  ultimately show ?thesis
    using assms(3) by (auto simp: quantile_ns_def Let_def hist_inv_def upper_edge_def kLatencyBucketCount_def
        min_def div_less_iff_less_mult not_less)
qed

lemma count_list_map_filter: "count_list (map f xs) b = length (filter (\<lambda>x. f x = b) xs)"
  by (induction xs) auto

lemma fold_max_0: "xs \<noteq> [] \<Longrightarrow> fold max xs 0 = Max (set xs)" for xs :: "u64 list"
  using Max.set_eq_fold [of 0 xs] by (simp add: max_def)

lemma upper_edge_bound:
  assumes "s \<le> mx"
  shows "s \<le> upper_edge mx s \<and> (unat s < 20000000 \<longrightarrow> unat s < unat (upper_edge mx s) \<and> unat (upper_edge mx s) \<le> unat s + 1000)"
proof (cases "unat s < 20000000")
  case False
  with assms show ?thesis by (simp add: upper_edge_def)
next
  case True
  have "unat s div 1000 \<le> unat s" by (rule div_le_dividend)
  with True have small: "(unat s div 1000 + 1) * 1000 < 2 ^ 64" by simp
  have "(s div 1000 + 1) * 1000 = of_nat ((unat s div 1000 + 1) * 1000)"
    by (simp only: of_nat_mult of_nat_add of_nat_div_1000 of_nat_1 of_nat_numeral)
  with small have eq: "unat (upper_edge mx s) = (unat s div 1000 + 1) * 1000"
    using True by (simp only: upper_edge_def if_True unat_of_nat_size)
  have "unat s = unat s div 1000 * 1000 + unat s mod 1000" by simp
  moreover have "unat s mod 1000 < 1000" by simp
  ultimately show ?thesis
    using eq by (simp add: word_le_nat_alt) linarith
qed



end
