(* ===== verification/Udp_Receiver.thy ===== *)
theory Udp_Receiver
  imports Posix "HOL-Library.Monad_Syntax"
begin

text \<open>
  The receiving socket of engine v2: \<^verbatim>\<open>src/src/common/net/v2/udp_receiver.cpp\<close>. The answers of
  the kernel are in the \<open>world\<close>. A datagram longer than the buffer is cut to the buffer's
  capacity and flagged as truncated, as \<^verbatim>\<open>recvmsg\<close> documents.
\<close>

section \<open>State\<close>

record ReceiverConfig =
  cfg_local_ip :: "string option"
  cfg_local_port :: u16
  cfg_remote_ip :: "string option"
  cfg_remote_port :: u16
  cfg_rcvbuf_bytes :: int
  cfg_connect_socket :: bool

record RxFrame =
  rf_data :: "bytes option"      \<comment> \<open>the buffer behind the pointer, \<^const>\<open>None\<close> for null\<close>
  rf_capacity :: nat
  rf_len :: nat
  rf_peer :: sockaddr_in
  rf_truncated :: bool

record ReceiverStats =
  received_packets :: u64
  received_bytes :: u64
  received_errors :: u64
  eagain :: u64

record Receiver =
  rx_fd :: int
  rx_epfd :: int
  rx_connected :: bool
  rx_remote :: sockaddr_in
  rx_stats :: ReceiverStats

definition stats_zero :: ReceiverStats where
  "stats_zero = \<lparr>received_packets = 0, received_bytes = 0, received_errors = 0, eagain = 0\<rparr>"

definition receiver_new :: Receiver where
  "receiver_new = \<lparr>rx_fd = - 1, rx_epfd = - 1, rx_connected = False, rx_remote = no_addr, rx_stats = stats_zero\<rparr>"

definition count_error :: "Receiver \<Rightarrow> Receiver" where
  "count_error r = r\<lparr>rx_stats := (rx_stats r)\<lparr>received_errors := received_errors (rx_stats r) + 1\<rparr>\<rparr>"

definition count_eagain :: "Receiver \<Rightarrow> Receiver" where
  "count_eagain r = r\<lparr>rx_stats := (rx_stats r)\<lparr>eagain := eagain (rx_stats r) + 1\<rparr>\<rparr>"

definition count_packet :: "nat \<Rightarrow> Receiver \<Rightarrow> Receiver" where
  "count_packet len r = r\<lparr>rx_stats := (rx_stats r)\<lparr>received_packets := received_packets (rx_stats r) + 1,
     received_bytes := received_bytes (rx_stats r) + of_nat len\<rparr>\<rparr>"

definition reset_frame :: "RxFrame \<Rightarrow> RxFrame" where
  "reset_frame f = f\<lparr>rf_len := 0, rf_peer := no_addr, rf_truncated := False\<rparr>"

text \<open>Moving: the source gives up its descriptors and keeps its statistics.\<close>

definition receiver_move :: "Receiver \<Rightarrow> Receiver \<times> Receiver" where
  "receiver_move other = (\<lparr>rx_fd = rx_fd other, rx_epfd = rx_epfd other, rx_connected = rx_connected other,
       rx_remote = rx_remote other, rx_stats = rx_stats other\<rparr>,
     other\<lparr>rx_fd := - 1, rx_epfd := - 1, rx_connected := False, rx_remote := no_addr\<rparr>)"

section \<open>Opening and closing\<close>

definition receiver_close :: "Receiver \<Rightarrow> world \<Rightarrow> Receiver \<times> world" where
  "receiver_close r w =
     (let w = (if 0 \<le> rx_epfd r then sys_close (rx_epfd r) w else w);
          w = (if 0 \<le> rx_fd r then sys_close (rx_fd r) w else w)
      in (r\<lparr>rx_fd := - 1, rx_epfd := - 1, rx_connected := False, rx_remote := no_addr\<rparr>, w))"

definition receiver_assign :: "Receiver \<Rightarrow> Receiver \<Rightarrow> world \<Rightarrow> (Receiver \<times> Receiver) \<times> world" where
  "receiver_assign r other w = (receiver_move other, snd (receiver_close r w))"

definition receiver_open ::
  "(string \<Rightarrow> u32 option) \<Rightarrow> ReceiverConfig \<Rightarrow> Receiver \<Rightarrow> world \<Rightarrow> (bool \<times> Receiver \<times> world) option" where
  "receiver_open inet_pton cfg r w =
     (let (r, w) = receiver_close r w in
      if cfg_local_port cfg = 0 then Some (False, r, w)
      else if cfg_connect_socket cfg \<and>
        (cfg_remote_ip cfg = None \<or> cfg_remote_ip cfg = Some [] \<or> cfg_remote_port cfg = 0) then Some (False, r, w)
      else
      call (Sys_socket_dgram True) w (\<lambda>w. (False, r, w)) (\<lambda>n w.
      let sockfd = int n; bail = (\<lambda>w. (False, r, sys_close sockfd w)) in
      call (Sys_setsockopt sockfd SO_REUSEADDR 1) w bail (\<lambda>_ w.
      call_if (0 < cfg_rcvbuf_bytes cfg) (Sys_setsockopt sockfd SO_RCVBUF (cfg_rcvbuf_bytes cfg)) w bail (\<lambda>w.
      case (if cfg_local_ip cfg = None \<or> cfg_local_ip cfg = Some [] then Some INADDR_ANY
            else inet_pton (the (cfg_local_ip cfg))) of
        None \<Rightarrow> Some (bail w)
      | Some a \<Rightarrow>
        call (Sys_bind sockfd \<lparr>sin_inet = True, sin_port = cfg_local_port cfg, sin_addr = a\<rparr>) w bail (\<lambda>_ w.
        if cfg_connect_socket cfg then
          (case inet_pton (the (cfg_remote_ip cfg)) of
             None \<Rightarrow> Some (bail w)
           | Some ra \<Rightarrow>
               let remote = \<lparr>sin_inet = True, sin_port = cfg_remote_port cfg, sin_addr = ra\<rparr> in
               call (Sys_connect sockfd remote) w bail (\<lambda>_ w.
               Some (True, r\<lparr>rx_remote := remote, rx_connected := True, rx_fd := sockfd\<rparr>, w)))
        else Some (True, r\<lparr>rx_remote := no_addr, rx_connected := False, rx_fd := sockfd\<rparr>, w))))))"

definition ensure_epoll :: "Receiver \<Rightarrow> world \<Rightarrow> (bool \<times> Receiver \<times> world) option" where
  "ensure_epoll r w =
     (if rx_fd r < 0 then Some (False, r, w)
      else if 0 \<le> rx_epfd r then Some (True, r, w)
      else call Sys_epoll_create w (\<lambda>w. (False, r, w)) (\<lambda>ep w.
        call (Sys_epoll_add (int ep) (rx_fd r)) w (\<lambda>w. (False, r, sys_close (int ep) w)) (\<lambda>_ w.
        Some (True, r\<lparr>rx_epfd := int ep\<rparr>, w))))"

section \<open>Receiving\<close>

text \<open>What a received message leaves in a frame.\<close>

definition deliver :: "Receiver \<Rightarrow> RxFrame \<Rightarrow> rxmsg \<Rightarrow> RxFrame" where
  "deliver r f m =
     (let bs = take (rf_capacity f) (rx_data m) in
      f\<lparr>rf_data := Some (bs @ drop (length bs) (the (rf_data f))), rf_len := length bs,
        rf_truncated := (rx_trunc m \<or> rf_capacity f < length (rx_data m)),
        rf_peer := (if rx_connected r then rx_remote r else rx_peer m)\<rparr>)"

fun receive_one_loop :: "rxret list \<Rightarrow> Receiver \<Rightarrow> RxFrame \<Rightarrow> ((bool \<times> Receiver \<times> RxFrame) \<times> rxret list) option" where
  "receive_one_loop [] r f = None"
| "receive_one_loop (Rx ms # rs) r f =
     (case ms of [m] \<Rightarrow> let f' = deliver r f m in Some ((True, count_packet (rf_len f') r, f'), rs) | _ \<Rightarrow> None)"
| "receive_one_loop (Rx_fail e # rs) r f =
     (if e = EINTR then receive_one_loop rs r f
      else if e = EAGAIN \<or> e = EWOULDBLOCK then Some ((False, count_eagain r, f), rs)
      else Some ((False, count_error r, f), rs))"

definition receive_one :: "Receiver \<Rightarrow> RxFrame \<Rightarrow> world \<Rightarrow> (bool \<times> Receiver \<times> RxFrame \<times> world) option" where
  "receive_one r f w =
     (let f = reset_frame f in
      if rx_fd r < 0 \<or> rf_data f = None \<or> rf_capacity f = 0 then Some (False, count_error r, f, w)
      else do { ((ok, r, f), rs) \<leftarrow> receive_one_loop (rxs w) r f;
                Some (ok, r, f, w\<lparr>rxs := rs\<rparr>) })"

text \<open>
  Preparing the first \<open>cnt\<close> frames of a batch: each is reset; one without a buffer ends the
  preparation. \<^const>\<open>None\<close>: there are fewer frames than \<open>cnt\<close>.
\<close>

fun prepare :: "nat \<Rightarrow> RxFrame list \<Rightarrow> (bool \<times> RxFrame list) option" where
  "prepare 0 fs = Some (True, fs)"
| "prepare (Suc n) [] = None"
| "prepare (Suc n) (f # fs) =
     (if rf_data f = None \<or> rf_capacity f = 0 then Some (False, reset_frame f # fs)
      else do { (ok, fs') \<leftarrow> prepare n fs; Some (ok, reset_frame f # fs') })"

text \<open>The results of \<^verbatim>\<open>recvmmsg\<close>, into the first frames.\<close>

fun deliver_all :: "Receiver \<Rightarrow> RxFrame list \<Rightarrow> rxmsg list \<Rightarrow> Receiver \<times> RxFrame list" where
  "deliver_all r (f # fs) (m # ms) =
     (let f' = deliver r f m; (r', fs') = deliver_all (count_packet (rf_len f') r) fs ms in (r', f' # fs'))"
| "deliver_all r fs ms = (r, fs)"

text \<open>\<^const>\<open>None\<close>: no further answer, or more messages than asked for.\<close>

fun batch_loop :: "rxret list \<Rightarrow> nat \<Rightarrow> Receiver \<Rightarrow> RxFrame list \<Rightarrow> ((int \<times> Receiver \<times> RxFrame list) \<times> rxret list) option" where
  "batch_loop [] cnt r fs = None"
| "batch_loop (Rx ms # rs) cnt r fs =
     (if ms = [] then Some ((- 1, r, fs), rs)
      else if cnt < length ms then None
      else let (r', fs') = deliver_all r fs ms in Some ((int (length ms), r', fs'), rs))"
| "batch_loop (Rx_fail e # rs) cnt r fs =
     (if e = EINTR then batch_loop rs cnt r fs
      else if e = EAGAIN \<or> e = EWOULDBLOCK then Some ((0, count_eagain r, fs), rs)
      else Some ((- 1, count_error r, fs), rs))"

definition receive_batch ::
  "Receiver \<Rightarrow> RxFrame list option \<Rightarrow> nat \<Rightarrow> world \<Rightarrow> (int \<times> Receiver \<times> RxFrame list option \<times> world) option" where
  "receive_batch r frames cnt w =
     (if rx_fd r < 0 \<or> cnt = 0 then Some (- 1, r, frames, w)
      else case frames of
          None \<Rightarrow> Some (- 1, count_error r, frames, w)
        | Some fs \<Rightarrow>
            do { (ok, fs) \<leftarrow> prepare cnt fs;
                 if \<not> ok then Some (- 1, count_error r, Some fs, w)
                 else do { ((n, r, fs), rs) \<leftarrow> batch_loop (rxs w) cnt r fs;
                           Some (n, r, Some fs, w\<lparr>rxs := rs\<rparr>) } })"

fun wait_loop :: "evret list \<Rightarrow> ((errno + epoll_ev option) \<times> evret list) option" where
  "wait_loop [] = None"
| "wait_loop (Evs [] # es) = Some (Inr None, es)"
| "wait_loop (Evs (ev # rest) # es) = Some (Inr (Some ev), es)"
| "wait_loop (Ev_fail e # es) = (if e = EINTR then wait_loop es else Some (Inl e, es))"

definition epoll_receive ::
  "Receiver \<Rightarrow> RxFrame list option \<Rightarrow> nat \<Rightarrow> world \<Rightarrow> (int \<times> Receiver \<times> RxFrame list option \<times> world) option" where
  "epoll_receive r frames cnt w =
     do { (ok, r, w) \<leftarrow> ensure_epoll r w;
          if \<not> ok then Some (- 1, count_error r, frames, w)
          else do { (res, es) \<leftarrow> wait_loop (evs w);
                    let w = w\<lparr>evs := es\<rparr>;
                    case res of
                      Inr None \<Rightarrow> Some (0, r, frames, w)
                    | Inl e \<Rightarrow> Some (- 1, count_error r, frames, w)
                    | Inr (Some ev) \<Rightarrow>
                        if ev_err ev then Some (- 1, count_error r, frames, w)
                        else receive_batch r frames cnt w } }"

section \<open>Descriptors\<close>

lemma receiver_close_fds:
  "receiver_close r w = (r', w') \<Longrightarrow> rx_fd r' = - 1 \<and> rx_epfd r' = - 1 \<and>
    open_fds w' = open_fds w - (if 0 \<le> rx_epfd r then {#rx_epfd r#} else {#}) -
      (if 0 \<le> rx_fd r then {#rx_fd r#} else {#})"
  by (auto simp: receiver_close_def Let_def)

lemma receiver_open_fds:
  assumes "receiver_open inet cfg r w = Some (ok, r', w')" and "receiver_close r w = (r0, w0)"
  shows "rx_epfd r' = - 1 \<and> (if ok then 0 \<le> rx_fd r' \<and> open_fds w' = add_mset (rx_fd r') (open_fds w0)
    else rx_fd r' = - 1 \<and> open_fds w' = open_fds w0)"
proof -
  have fd0: "rx_fd r0 = - 1" "rx_epfd r0 = - 1"
    using receiver_close_fds [OF assms(2)] by auto
  show ?thesis
    using assms(1) fd0 unfolding receiver_open_def assms(2) Let_def prod.case
    apply (simp split: if_splits)
    by (elim call_Some call_if_Some; auto split: option.splits if_splits elim!: call_Some)+
qed

text \<open>The descriptors a receiver holds, on top of those held by others.\<close>

definition receiver_holds :: "int multiset \<Rightarrow> Receiver \<Rightarrow> world \<Rightarrow> bool" where
  "receiver_holds base r w \<longleftrightarrow> (rx_fd r < 0 \<longrightarrow> rx_epfd r < 0) \<and>
     open_fds w = base + (if 0 \<le> rx_epfd r then {#rx_epfd r#} else {#}) + (if 0 \<le> rx_fd r then {#rx_fd r#} else {#})"

lemma open_fds_upd [simp]:
  "open_fds (w\<lparr>rxs := a\<rparr>) = open_fds w" "open_fds (w\<lparr>evs := b\<rparr>) = open_fds w"
  by (simp_all add: open_fds_def)

lemma counts_keep [simp]:
  "rx_fd (count_error r) = rx_fd r" "rx_epfd (count_error r) = rx_epfd r"
  "rx_fd (count_eagain r) = rx_fd r" "rx_epfd (count_eagain r) = rx_epfd r"
  "rx_fd (count_packet n r) = rx_fd r" "rx_epfd (count_packet n r) = rx_epfd r"
  "rx_connected (count_packet n r) = rx_connected r" "rx_remote (count_packet n r) = rx_remote r"
  by (simp_all add: count_error_def count_eagain_def count_packet_def)

lemma holds_counts [simp]:
  "receiver_holds base (count_error r) w \<longleftrightarrow> receiver_holds base r w"
  "receiver_holds base r (w\<lparr>rxs := a\<rparr>) \<longleftrightarrow> receiver_holds base r w"
  "receiver_holds base r (w\<lparr>evs := b\<rparr>) \<longleftrightarrow> receiver_holds base r w"
  by (simp_all add: receiver_holds_def)

lemma deliver_all_fds:
  "deliver_all r fs ms = (r', fs') \<Longrightarrow> rx_fd r' = rx_fd r \<and> rx_epfd r' = rx_epfd r"
  by (induction r fs ms arbitrary: fs' rule: deliver_all.induct) (auto simp: Let_def split: prod.splits)

lemma batch_loop_fds:
  "batch_loop rs c r fs = Some ((n, r', fs'), rs') \<Longrightarrow> rx_fd r' = rx_fd r \<and> rx_epfd r' = rx_epfd r"
  by (induction rs c r fs rule: batch_loop.induct)
    (auto simp: Let_def dest: deliver_all_fds split: if_splits prod.splits)

lemma receive_batch_holds:
  "receive_batch r fs c w = Some (n, r', fs', w') \<Longrightarrow> receiver_holds base r w \<Longrightarrow> receiver_holds base r' w'"
  by (auto simp: receive_batch_def bind_eq_Some_conv receiver_holds_def dest!: batch_loop_fds
      split: if_splits option.splits)

lemma ensure_epoll_holds:
  assumes "ensure_epoll r w = Some (ok, r', w')" and "receiver_holds base r w"
  shows "receiver_holds base r' w'"
  using assms unfolding ensure_epoll_def receiver_holds_def
  by (auto split: if_splits elim!: call_Some)

lemma epoll_receive_cases:
  assumes "epoll_receive r fs c w = Some (n, r', fs', w')"
  obtains (idle) ok r1 w1 es where "ensure_epoll r w = Some (ok, r1, w1)" "n \<le> 0" "fs' = fs"
    "r' = r1 \<or> r' = count_error r1" "w' = w1 \<or> w' = w1\<lparr>evs := es\<rparr>"
  | (batch) r1 w1 es where "ensure_epoll r w = Some (True, r1, w1)"
    "receive_batch r1 fs c (w1\<lparr>evs := es\<rparr>) = Some (n, r', fs', w')"
proof -
  obtain ok r1 w1 where e: "ensure_epoll r w = Some (ok, r1, w1)"
    using assms by (auto simp: epoll_receive_def bind_eq_Some_conv)
  show thesis
  proof (cases ok)
    case False
    with assms e show thesis by (intro idle [OF e]) (auto simp: epoll_receive_def)
  next
    case True
    with assms e obtain res es where l: "wait_loop (evs w1) = Some (res, es)"
      by (auto simp: epoll_receive_def bind_eq_Some_conv)
    consider "\<exists>ev. res = Inr (Some ev) \<and> \<not> ev_err ev" | "res = Inr None" | "\<exists>err. res = Inl err"
      | "\<exists>ev. res = Inr (Some ev) \<and> ev_err ev"
      by (metis option.exhaust sum.exhaust)
    then show thesis
    proof cases
      case 1
      with True assms e l show thesis by (intro batch [of r1 w1 es]) (auto simp: epoll_receive_def)
    qed (use True assms e l idle [OF e, of es] in \<open>auto simp: epoll_receive_def\<close>)
  qed
qed

lemma epoll_receive_holds:
  assumes "epoll_receive r fs c w = Some (n, r', fs', w')" and "receiver_holds base r w"
  shows "receiver_holds base r' w'"
  using assms(1)
proof (cases rule: epoll_receive_cases)
  case (idle ok r1 w1 es)
  from ensure_epoll_holds [OF idle(1) assms(2)] idle show ?thesis by auto
next
  case (batch r1 w1 es)
  from ensure_epoll_holds [OF batch(1) assms(2)] receive_batch_holds [OF batch(2)] show ?thesis by simp
qed

lemma receiver_close_holds:
  assumes "receiver_holds base r w" and "receiver_close r w = (r', w')"
  shows "open_fds w' = base \<and> receiver_holds base r' w'"
  using receiver_close_fds [OF assms(2)] assms(1) by (auto simp: receiver_holds_def)

text \<open>
  The receiver owns its descriptors: opening closes what was open before and, on every
  failure, also the new socket; receiving keeps the books, whether or not the epoll
  descriptor is created on the way; and closing returns to exactly the descriptors the
  receiver did not own.
\<close>

lemma receiver_no_leak:
  assumes "receiver_holds base r w" and "receiver_open inet cfg r w = Some (ok, r1, w1)"
  shows "receiver_holds base r1 w1 \<and> (\<not> ok \<longrightarrow> open_fds w1 = base) \<and> (ok \<longrightarrow> 0 \<le> rx_fd r1) \<and>
    (\<forall>fs c n r2 fs2 w2. epoll_receive r1 fs c w1 = Some (n, r2, fs2, w2) \<longrightarrow>
      open_fds (snd (receiver_close r2 w2)) = base)"
proof -
  obtain r0 w0 where c: "receiver_close r w = (r0, w0)" by fastforce
  have "open_fds w0 = base" using receiver_close_holds [OF assms(1) c] by simp
  with receiver_open_fds [OF assms(2) c]
  have holds: "receiver_holds base r1 w1" "\<not> ok \<longrightarrow> open_fds w1 = base" "ok \<longrightarrow> 0 \<le> rx_fd r1"
    by (auto simp: receiver_holds_def split: if_splits)
  moreover have "open_fds (snd (receiver_close r2 w2)) = base" if "epoll_receive r1 fs c w1 = Some (n, r2, fs2, w2)"
    for fs c n r2 fs2 w2
    using receiver_close_holds [OF epoll_receive_holds [OF that holds(1)]] by (metis prod.exhaust_sel)
  ultimately show ?thesis by blast
qed

definition demo_cfg :: ReceiverConfig where
  "demo_cfg = \<lparr>cfg_local_ip = None, cfg_local_port = 8888, cfg_remote_ip = None, cfg_remote_port = 0,
     cfg_rcvbuf_bytes = 0, cfg_connect_socket = False\<rparr>"

lemma receiver_no_leak_witness:
  "\<exists>r1 w1. receiver_open (\<lambda>_. None) demo_cfg receiver_new
      \<lparr>script = [Ret 3, Ret 0, Ret 0], rxs = [], evs = [], trace = []\<rparr> = Some (True, r1, w1) \<and>
    receiver_holds {#} r1 w1 \<and> 0 \<le> rx_fd r1"
proof -
  let ?w = "\<lparr>script = [Ret 3, Ret 0, Ret 0], rxs = [], evs = [], trace = []\<rparr>"
  have "\<exists>r1 w1. receiver_open (\<lambda>_. None) demo_cfg receiver_new ?w = Some (True, r1, w1)"
    by (simp add: receiver_open_def demo_cfg_def receiver_close_def receiver_new_def call_def call_if_def sys_def)
  then obtain r1 w1 where o: "receiver_open (\<lambda>_. None) demo_cfg receiver_new ?w = Some (True, r1, w1)" by blast
  have "receiver_holds {#} receiver_new ?w"
    by (simp add: receiver_holds_def receiver_new_def open_fds_def)
  from o receiver_no_leak [OF this o] show ?thesis by blast
qed

section \<open>Batches\<close>

text \<open>The kernel has a buffer for each frame.\<close>

definition frame_ready :: "RxFrame \<Rightarrow> bool" where
  "frame_ready f \<longleftrightarrow> rf_data f \<noteq> None \<and> 0 < rf_capacity f"

lemma prepare_ready:
  "\<forall>f\<in>set fs. frame_ready f \<Longrightarrow> prepare (length fs) fs = Some (True, map reset_frame fs)"
  by (induction fs) (simp_all add: frame_ready_def)

lemma deliver_count [simp]: "deliver (count_packet n r) f m = deliver r f m"
  by (simp add: deliver_def)

lemma deliver_all_spec:
  "length ms \<le> length fs \<Longrightarrow> deliver_all r fs ms =
    (fold (\<lambda>(f, m). count_packet (rf_len (deliver r f m))) (zip fs ms) r,
     map2 (deliver r) fs ms @ drop (length ms) fs)"
proof (induction r fs ms rule: deliver_all.induct)
  case (1 r f fs m ms)
  then show ?case by (simp add: Let_def split: prod.split)
qed auto

lemma fold_count_stats:
  "received_packets (rx_stats (fold (\<lambda>(f, m). count_packet (g f m)) ps r)) =
     received_packets (rx_stats r) + of_nat (length ps)"
  "received_bytes (rx_stats (fold (\<lambda>(f, m). count_packet (g f m)) ps r)) =
     received_bytes (rx_stats r) + of_nat (\<Sum>(f, m)\<leftarrow>ps. g f m)"
  "received_errors (rx_stats (fold (\<lambda>(f, m). count_packet (g f m)) ps r)) = received_errors (rx_stats r)"
  by (induction ps arbitrary: r) (auto simp: count_packet_def)

lemma batch_loop_eintr: "batch_loop (replicate k (Rx_fail EINTR) @ rs) c r fs = batch_loop rs c r fs"
  by (induction k) simp_all

lemma receive_batch_ok:
  assumes "0 \<le> rx_fd r" and "\<forall>f\<in>set fs. frame_ready f" and "ms \<noteq> []" and "length ms \<le> length fs"
    and "rxs w = replicate k (Rx_fail EINTR) @ Rx ms # rs"
  shows "\<exists>r'. receive_batch r (Some fs) (length fs) w =
      Some (int (length ms), r', Some (map2 (\<lambda>f. deliver r (reset_frame f)) fs ms @ map reset_frame (drop (length ms) fs)),
        w\<lparr>rxs := rs\<rparr>) \<and>
    received_packets (rx_stats r') = received_packets (rx_stats r) + of_nat (length ms) \<and>
    received_bytes (rx_stats r') = received_bytes (rx_stats r) +
      of_nat (\<Sum>(f, m)\<leftarrow>zip fs ms. min (rf_capacity f) (length (rx_data m))) \<and>
    received_errors (rx_stats r') = received_errors (rx_stats r)"
proof -
  have ne: "fs \<noteq> []" using assms(3,4) by auto
  let ?g = "\<lambda>f m. rf_len (deliver r f m)"
  have "?g (reset_frame f) m = min (rf_capacity f) (length (rx_data m))" for f m
    by (simp add: deliver_def reset_frame_def min.commute)
  then have sum: "(\<Sum>(f, m)\<leftarrow>zip (map reset_frame fs) ms. ?g f m) =
      (\<Sum>(f, m)\<leftarrow>zip fs ms. min (rf_capacity f) (length (rx_data m)))"
    by (simp add: zip_map1 comp_def case_prod_unfold)
  have "deliver_all r (map reset_frame fs) ms =
    (fold (\<lambda>(f, m). count_packet (?g f m)) (zip (map reset_frame fs) ms) r,
     map2 (\<lambda>f. deliver r (reset_frame f)) fs ms @ map reset_frame (drop (length ms) fs))"
    using assms(4) by (simp add: deliver_all_spec zip_map1 comp_def case_prod_unfold drop_map)
  moreover have "length (zip (map reset_frame fs) ms) = length ms"
    using assms(4) by simp
  ultimately show ?thesis
    using assms(1,3,4) ne fold_count_stats [of ?g "zip (map reset_frame fs) ms" r, unfolded sum]
    by (simp add: receive_batch_def prepare_ready [OF assms(2)] assms(5) batch_loop_eintr not_less)
qed

text \<open>
  C30. A batch arrives as the kernel delivered it: with a buffer in every frame and any
  number of interrupted calls before, \<open>receive_batch\<close> returns the number of messages. The
  frame of each message holds its bytes, cut to the capacity of the frame, over what the
  buffer held before, with the number of bytes, the truncation flag, and as the sender the
  peer the socket is connected to or else the source of the datagram; the frames behind the
  last message are reset; packets and bytes are counted.
\<close>

theorem receive_batch_delivers:
  assumes "0 \<le> rx_fd r" and "\<forall>f\<in>set fs. frame_ready f" and "ms \<noteq> []" and "length ms \<le> length fs"
    and "rxs w = replicate k (Rx_fail EINTR) @ Rx ms # rs"
  shows "\<exists>r' fs'. receive_batch r (Some fs) (length fs) w = Some (int (length ms), r', Some fs', w\<lparr>rxs := rs\<rparr>) \<and>
    length fs' = length fs \<and>
    (\<forall>i<length ms. let n = min (rf_capacity (fs ! i)) (length (rx_data (ms ! i))) in
      rf_data (fs' ! i) = Some (take n (rx_data (ms ! i)) @ drop n (the (rf_data (fs ! i)))) \<and>
      rf_capacity (fs' ! i) = rf_capacity (fs ! i) \<and> rf_len (fs' ! i) = n \<and>
      rf_truncated (fs' ! i) = (rx_trunc (ms ! i) \<or> rf_capacity (fs ! i) < length (rx_data (ms ! i))) \<and>
      rf_peer (fs' ! i) = (if rx_connected r then rx_remote r else rx_peer (ms ! i))) \<and>
    (\<forall>i. length ms \<le> i \<and> i < length fs \<longrightarrow>
      fs' ! i = (fs ! i)\<lparr>rf_len := 0, rf_truncated := False, rf_peer := no_addr\<rparr>) \<and>
    received_packets (rx_stats r') = received_packets (rx_stats r) + of_nat (length ms) \<and>
    received_bytes (rx_stats r') = received_bytes (rx_stats r) +
      of_nat (\<Sum>(f, m)\<leftarrow>zip fs ms. min (rf_capacity f) (length (rx_data m))) \<and>
    received_errors (rx_stats r') = received_errors (rx_stats r)"
proof -
  define fs' where "fs' = map2 (\<lambda>f. deliver r (reset_frame f)) fs ms @ map reset_frame (drop (length ms) fs)"
  obtain r' where b: "receive_batch r (Some fs) (length fs) w = Some (int (length ms), r', Some fs', w\<lparr>rxs := rs\<rparr>)"
    and stats: "received_packets (rx_stats r') = received_packets (rx_stats r) + of_nat (length ms)"
      "received_bytes (rx_stats r') = received_bytes (rx_stats r) +
        of_nat (\<Sum>(f, m)\<leftarrow>zip fs ms. min (rf_capacity f) (length (rx_data m)))"
      "received_errors (rx_stats r') = received_errors (rx_stats r)"
    using receive_batch_ok [OF assms] unfolding fs'_def by blast
  have len: "length fs' = length fs" using assms(4) by (simp add: fs'_def)
  have "fs' ! i = deliver r (reset_frame (fs ! i)) (ms ! i)" if "i < length ms" for i
    using that assms(4) by (simp add: fs'_def nth_append)
  note filled = this [simplified deliver_def reset_frame_def Let_def]
  have rest: "fs' ! i = reset_frame (fs ! i)" if "length ms \<le> i" "i < length fs" for i
    using that assms(4) by (simp add: fs'_def nth_append)
  show ?thesis
    by (intro exI conjI allI impI, rule b, rule len)
      (simp_all add: filled rest stats Let_def reset_frame_def min_def)
qed

definition demo_rx_frame :: RxFrame where
  "demo_rx_frame = \<lparr>rf_data = Some [0, 0], rf_capacity = 2, rf_len = 9, rf_peer = no_addr, rf_truncated = True\<rparr>"

theorem receive_batch_delivers_witness:
  "let r = receiver_new\<lparr>rx_fd := 3\<rparr>; fs = [demo_rx_frame, demo_rx_frame];
      m = \<lparr>rx_data = [1, 2, 3], rx_trunc = False, rx_peer = \<lparr>sin_inet = True, sin_port = 9, sin_addr = 5\<rparr>\<rparr> in
    \<exists>r' fs'. receive_batch r (Some fs) (length fs)
        \<lparr>script = [], rxs = [Rx_fail EINTR, Rx [m]], evs = [], trace = []\<rparr> =
      Some (1, r', Some fs', \<lparr>script = [], rxs = [], evs = [], trace = []\<rparr>) \<and>
    rf_data (fs' ! 0) = Some [1, 2] \<and> rf_truncated (fs' ! 0) \<and> rf_peer (fs' ! 0) = rx_peer m \<and>
    received_packets (rx_stats r') = 1 \<and> received_bytes (rx_stats r') = 2"
proof -
  let ?m = "\<lparr>rx_data = [1, 2, 3], rx_trunc = False, rx_peer = \<lparr>sin_inet = True, sin_port = 9, sin_addr = 5\<rparr>\<rparr>"
  show ?thesis
    using receive_batch_delivers [of "receiver_new\<lparr>rx_fd := 3\<rparr>" "[demo_rx_frame, demo_rx_frame]" "[?m]"
      "\<lparr>script = [], rxs = [Rx_fail EINTR, Rx [?m]], evs = [], trace = []\<rparr>" 1 "[]"]
    by (auto simp: frame_ready_def demo_rx_frame_def receiver_new_def stats_zero_def Let_def min_def)
qed

section \<open>Buffers keep their size\<close>

definition buf_ok :: "nat \<Rightarrow> RxFrame \<Rightarrow> bool" where
  "buf_ok k f \<longleftrightarrow> rf_capacity f = k \<and> (\<exists>d. rf_data f = Some d \<and> length d = k)"

lemma buf_ok_reset [simp]: "buf_ok k (reset_frame f) \<longleftrightarrow> buf_ok k f"
  by (simp add: buf_ok_def reset_frame_def)

lemma buf_ok_deliver [simp]: "buf_ok k f \<Longrightarrow> buf_ok k (deliver r f m)"
  by (auto simp: buf_ok_def deliver_def Let_def)

lemma prepare_buf:
  "prepare c gs = Some (ok, fs) \<Longrightarrow> \<forall>f\<in>set gs. buf_ok k f \<Longrightarrow> length fs = length gs \<and> (\<forall>f\<in>set fs. buf_ok k f)"
  by (induction c gs arbitrary: fs rule: prepare.induct) (auto simp: bind_eq_Some_conv split: if_splits)

lemma deliver_all_buf:
  "deliver_all r gs ms = (r', fs) \<Longrightarrow> \<forall>f\<in>set gs. buf_ok k f \<Longrightarrow> length fs = length gs \<and> (\<forall>f\<in>set fs. buf_ok k f)"
  by (induction r gs ms arbitrary: fs rule: deliver_all.induct) (auto simp: Let_def split: prod.splits)

lemma batch_loop_buf:
  "batch_loop rs c r gs = Some ((n, r', fs), rs') \<Longrightarrow> \<forall>f\<in>set gs. buf_ok k f \<Longrightarrow>
   length fs = length gs \<and> (\<forall>f\<in>set fs. buf_ok k f) \<and> n \<le> int c"
  by (induction rs c r gs rule: batch_loop.induct)
    (auto simp: Let_def dest: deliver_all_buf split: if_splits prod.splits)

lemma receive_batch_buf:
  assumes "receive_batch r (Some gs) c w = Some (n, r', fs', w')" and "\<forall>f\<in>set gs. buf_ok k f"
  shows "\<exists>fs. fs' = Some fs \<and> length fs = length gs \<and> (\<forall>f\<in>set fs. buf_ok k f) \<and> n \<le> int c"
proof (cases "rx_fd r < 0 \<or> c = 0")
  case True
  with assms show ?thesis by (auto simp: receive_batch_def)
next
  case False
  with assms(1) obtain ok fs where p: "prepare c gs = Some (ok, fs)"
    by (auto simp: receive_batch_def bind_eq_Some_conv)
  note prepare_buf [OF p assms(2)]
  with False assms(1) p show ?thesis
    by (cases ok) (auto simp: receive_batch_def bind_eq_Some_conv dest!: batch_loop_buf [where k = k])
qed

lemma epoll_receive_buf:
  assumes "epoll_receive r (Some gs) c w = Some (n, r', fs', w')" and "\<forall>f\<in>set gs. buf_ok k f"
  shows "\<exists>fs. fs' = Some fs \<and> length fs = length gs \<and> (\<forall>f\<in>set fs. buf_ok k f) \<and> n \<le> int c"
  using assms(1)
proof (cases rule: epoll_receive_cases)
  case (batch r1 w1 es)
  from receive_batch_buf [OF batch(2) assms(2)] show ?thesis .
qed (use assms(2) in auto)

end
