(* ===== verification/Engine_V2.thy ===== *)
theory Engine_V2
  imports Engine_V1 Latency Udp_Receiver
begin

text \<open>
  The second engine, \<^verbatim>\<open>src/src/engine/v2/engine.cpp\<close>: an I/O thread reserves free slots, lets
  the receiver write datagrams straight into them and publishes them in batches; a consumer
  thread processes batches and records latencies. The theory has both loops as they run alone,
  the operations of the life cycle, and what each batch operation does to the ownership of
  slots, the counters and the frames; theory \<open>Engine_V2_Threads\<close> runs the threads together.
\<close>

section \<open>State\<close>

text \<open>
  Besides the members of the class, the state holds the answers of the kernel (\<open>v2_w\<close>) and
  the values \<^verbatim>\<open>monotonic_now_ns\<close> is going to return (\<open>v2_clock\<close>).
\<close>

record engine_v2 = seq_state +
  v2_running :: bool
  v2_recv :: Receiver
  v2_m :: Metrics
  v2_io :: bool                 \<comment> \<open>\<^verbatim>\<open>io_thread_.joinable()\<close>\<close>
  v2_consumer :: bool
  v2_reporter :: bool
  v2_has_pool :: bool           \<comment> \<open>\<^verbatim>\<open>pool_ != nullptr\<close>\<close>
  v2_on_numa :: bool
  v2_live :: "bool multiset"    \<comment> \<open>pools allocated and not freed; true: on a NUMA node\<close>
  v2_pool :: FramePool
  v2_ns :: "u64 list"           \<comment> \<open>\<^verbatim>\<open>recv_ready_ns_\<close>\<close>
  v2_lat :: Latency
  v2_w :: world
  v2_clock :: "u64 list"

definition kPoolCapacity :: size_t where
  "kPoolCapacity = 16384"

definition kBatch :: nat where
  "kBatch = 32"

text \<open>The clock reading: seconds and nanoseconds in one 64-bit number, 0 if the call fails.\<close>

definition monotonic_now_ns :: "(u64 \<times> u64) option \<Rightarrow> u64" where
  "monotonic_now_ns ts = (case ts of None \<Rightarrow> 0 | Some (sec, nsec) \<Rightarrow> sec * 1000000000 + nsec)"

definition tick :: "engine_v2 \<Rightarrow> (u64 \<times> engine_v2) option" where
  "tick s = (case v2_clock s of [] \<Rightarrow> None | t # ts \<Rightarrow> Some (t, s\<lparr>v2_clock := ts\<rparr>))"

section \<open>The I/O thread\<close>

definition reserve_frames :: "engine_v2 \<Rightarrow> size_t list \<times> engine_v2" where
  "reserve_frames s = (let (idx, p) = take_slots free_pop kBatch (v2_pool s) in (idx, s\<lparr>v2_pool := p\<rparr>))"

definition release_reserved :: "size_t list \<Rightarrow> engine_v2 \<Rightarrow> engine_v2" where
  "release_reserved idx s = s\<lparr>v2_pool := put_slots free_push (v2_pool s) idx\<rparr>"

text \<open>
  The frames handed to the receiver point into the slots; what it writes through them is
  written to the slots.
\<close>

definition slot_frames :: "FramePool \<Rightarrow> size_t list \<Rightarrow> RxFrame list" where
  "slot_frames p idx = map (\<lambda>i. \<lparr>rf_data = Some (slots p ! unat i), rf_capacity = kWireSize, rf_len = 0,
     rf_peer = no_addr, rf_truncated = False\<rparr>) idx"

fun write_slots :: "FramePool \<Rightarrow> size_t list \<Rightarrow> RxFrame list \<Rightarrow> FramePool" where
  "write_slots p (i # idx) (f # fs) = write_slots (slot_write p i (the (rf_data f))) idx fs"
| "write_slots p idx fs = p"

definition receive_into ::
  "(Receiver \<Rightarrow> RxFrame list option \<Rightarrow> nat \<Rightarrow> world \<Rightarrow> (int \<times> Receiver \<times> RxFrame list option \<times> world) option) \<Rightarrow>
     size_t list \<Rightarrow> engine_v2 \<Rightarrow> (int \<times> RxFrame list \<times> engine_v2) option" where
  "receive_into rcv idx s =
     do { (n, r, fs, w) \<leftarrow> rcv (v2_recv s) (Some (slot_frames (v2_pool s) idx)) (length idx) (v2_w s);
          Some (n, the fs, s\<lparr>v2_recv := r, v2_w := w, v2_pool := write_slots (v2_pool s) idx (the fs)\<rparr>) }"

definition publish_one :: "u64 \<Rightarrow> engine_v2 \<Rightarrow> size_t \<times> RxFrame \<Rightarrow> engine_v2" where
  "publish_one received_ns s x =
     (let (i, f) = x in
      if rf_truncated f \<or> rf_len f \<noteq> kWireSize then
        s\<lparr>v2_m := inc_drops 1 (v2_m s), v2_ns := (v2_ns s)[unat i := 0], v2_pool := snd (free_push (v2_pool s) i)\<rparr>
      else
        let s = s\<lparr>v2_ns := (v2_ns s)[unat i := received_ns]\<rparr> in
        case ready_push (v2_pool s) i of
          (True, p) \<Rightarrow> s\<lparr>v2_pool := p\<rparr>
        | (False, p) \<Rightarrow> s\<lparr>v2_m := inc_drops 1 (v2_m s), v2_ns := (v2_ns s)[unat i := 0],
            v2_pool := snd (free_push p i)\<rparr>)"

definition publish_batch :: "nat \<Rightarrow> size_t list \<Rightarrow> RxFrame list \<Rightarrow> engine_v2 \<Rightarrow> engine_v2 option" where
  "publish_batch n_rx idx fs s =
     do { (received_ns, s) \<leftarrow> tick s;
          let s = foldl (publish_one received_ns) s (zip (take n_rx idx) fs);
          Some (release_reserved (drop n_rx idx) s) }"

text \<open>
  The loop of the thread and the inner loop that drains the socket. Each test of
  \<^verbatim>\<open>running_\<close> by a loop takes the next element of \<open>runs\<close>; other threads only ever clear the
  flag. The second component of the result is the slots reserved and not given back.
\<close>

fun io_loop :: "bool list \<Rightarrow> engine_v2 \<Rightarrow> (engine_v2 \<times> size_t list) option"
  and io_drain :: "bool list \<Rightarrow> nat \<Rightarrow> size_t list \<Rightarrow> RxFrame list \<Rightarrow> engine_v2 \<Rightarrow> (engine_v2 \<times> size_t list) option" where
  "io_loop [] s = None"
| "io_loop (run # runs) s =
     (if \<not> run then Some (s\<lparr>v2_running := False\<rparr>, [])
      else case reserve_frames s of (idx, s) \<Rightarrow>
        if idx = [] then io_loop runs s
        else case receive_into epoll_receive idx s of
          None \<Rightarrow> None
        | Some (n, fs, s) \<Rightarrow>
            if n = 0 then io_loop runs (release_reserved idx s)
            else if n < 0 then Some ((release_reserved idx s)\<lparr>v2_running := False\<rparr>, [])
            else io_drain runs (nat n) idx fs s)"
| "io_drain [] n idx fs s = None"
| "io_drain (run # runs) n idx fs s =
     (if \<not> run then Some (s\<lparr>v2_running := False\<rparr>, idx)
      else case publish_batch n idx fs s of
        None \<Rightarrow> None
      | Some s \<Rightarrow>
          (case reserve_frames s of (idx, s) \<Rightarrow>
            if idx = [] then io_loop runs s
            else case receive_into receive_batch idx s of
              None \<Rightarrow> None
            | Some (n, fs, s) \<Rightarrow>
                if n = 0 then io_loop runs (release_reserved idx s)
                else if n < 0 then Some ((release_reserved idx s)\<lparr>v2_running := False\<rparr>, [])
                else io_drain runs (nat n) idx fs s))"

section \<open>The consumer\<close>

definition v2_on_message :: "engine_v2 \<Rightarrow> u64 \<Rightarrow> engine_v2" where
  "v2_on_message s n =
     (let s = s\<lparr>v2_m := inc_received 1 (v2_m s)\<rparr> in
      if \<not> seq_initialized s then
        s\<lparr>expected_seq_num := n + 1, seq_initialized := True, v2_m := inc_processed 1 (v2_m s)\<rparr>
      else if n = expected_seq_num s then
        s\<lparr>expected_seq_num := expected_seq_num s + 1, v2_m := inc_processed 1 (v2_m s)\<rparr>
      else if n > expected_seq_num s then
        (let gap = n - expected_seq_num s;
             s = s\<lparr>v2_m := inc_seq_num_gaps gap (v2_m s)\<rparr>
         in s\<lparr>expected_seq_num := n + 1, v2_m := inc_processed 1 (v2_m s)\<rparr>)
      else s\<lparr>v2_m := inc_drops 1 (v2_m s)\<rparr>)"

interpretation v2: metered_sequencer v2_on_message seq_state.truncate v2_m
  by unfold_locales
    (auto simp: v2_on_message_def seq_state.defs advance_def classify_def Let_def)

text \<open>One slot of a batch: decode and count, then the latency.\<close>

definition v2_process :: "endian \<Rightarrow> size_t \<Rightarrow> MarketDataMsg \<times> engine_v2 \<Rightarrow> (MarketDataMsg \<times> engine_v2) option" where
  "v2_process e idx ms =
     (let (msg, s) = ms in
      if unat idx < length (slots (v2_pool s)) then
        do { (ok, msg) \<leftarrow> decode e (slots (v2_pool s) ! unat idx) kWireSize msg;
             let s = (if ok then v2_on_message s (seq_num msg) else s\<lparr>v2_m := inc_decode_error 1 (v2_m s)\<rparr>);
             let start_ns = v2_ns s ! unat idx;
             let s = s\<lparr>v2_ns := (v2_ns s)[unat idx := 0]\<rparr>;
             (end_ns, s) \<leftarrow> tick s;
             Some (msg, if start_ns \<noteq> 0 \<and> start_ns \<le> end_ns
               then s\<lparr>v2_lat := record_latency (end_ns - start_ns) (v2_lat s)\<rparr> else s) }
      else None)"

fun v2_process_all :: "endian \<Rightarrow> size_t list \<Rightarrow> MarketDataMsg \<times> engine_v2 \<Rightarrow> (MarketDataMsg \<times> engine_v2) option" where
  "v2_process_all e [] ms = Some ms"
| "v2_process_all e (i # idx) ms = do { ms \<leftarrow> v2_process e i ms; v2_process_all e idx ms }"

definition v2_iter :: "endian \<Rightarrow> MarketDataMsg \<times> engine_v2 \<Rightarrow> (MarketDataMsg \<times> engine_v2) option" where
  "v2_iter e ms =
     (let (msg, s) = ms; (idx, p) = take_slots ready_pop kBatch (v2_pool s); s = s\<lparr>v2_pool := p\<rparr> in
      if idx \<noteq> [] then
        do { (msg, s) \<leftarrow> v2_process_all e idx (msg, s);
             Some (msg, s\<lparr>v2_pool := put_slots free_push (v2_pool s) idx\<rparr>) }
      else Some (msg, s))"

fun v2_process_loop :: "endian \<Rightarrow> bool list \<Rightarrow> MarketDataMsg \<times> engine_v2 \<Rightarrow> engine_v2 option" where
  "v2_process_loop e [] ms = None"
| "v2_process_loop e (stop # stops) ms =
     (let s = (if stop then (snd ms)\<lparr>v2_running := False\<rparr> else snd ms) in
      if v2_running s \<or> \<not> rb_empty (ready (v2_pool s)) then
        do { ms' \<leftarrow> v2_iter e (fst ms, s); v2_process_loop e stops ms' }
      else Some s)"

section \<open>Life cycle\<close>

text \<open>
  \<^verbatim>\<open>create_frame_pool\<close>: on a machine with NUMA the pool is allocated there, otherwise with
  \<^verbatim>\<open>new\<close>; failing to allocate raises either way. \<^verbatim>\<open>release_pool\<close> frees it with the deallocation
  that fits the flag.
\<close>

definition create_frame_pool :: "int \<Rightarrow> bool \<Rightarrow> size_t \<Rightarrow> (numa_error + FramePool) \<times> bool" where
  "create_frame_pool numa_avail alloc_ok junk =
     (if 0 \<le> numa_avail then (numa_create numa_avail alloc_ok kPoolCapacity junk, True)
      else (if alloc_ok then Inr (fp_init (fp_new kPoolCapacity junk)) else Inl Bad_alloc, False))"

definition numa_destroy :: "bool \<Rightarrow> bool multiset \<Rightarrow> bool multiset" where
  "numa_destroy pool live = (if pool then live - {#True#} else live)"

definition destroy_frame_pool :: "bool \<Rightarrow> bool \<Rightarrow> bool multiset \<Rightarrow> bool multiset" where
  "destroy_frame_pool pool pool_on_numa live =
     (if \<not> pool then live else if pool_on_numa then numa_destroy pool live else live - {#False#})"

definition release_pool :: "engine_v2 \<Rightarrow> engine_v2" where
  "release_pool s = s\<lparr>v2_live := destroy_frame_pool (v2_has_pool s) (v2_on_numa s) (v2_live s),
     v2_has_pool := False, v2_on_numa := False\<rparr>"

text \<open>
  \<^verbatim>\<open>receive\<close> up to the point where it creates the threads. The result says whether it goes on;
  otherwise it returns false. \<^const>\<open>None\<close>: the receiver has not returned.
\<close>

definition v2_prepare ::
  "(string \<Rightarrow> u32 option) \<Rightarrow> int \<Rightarrow> bool \<Rightarrow> size_t \<Rightarrow> ReceiverConfig \<Rightarrow> engine_v2 \<Rightarrow> (bool \<times> engine_v2) option" where
  "v2_prepare inet_pton numa_avail alloc_ok junk cfg s =
     (if v2_running s then Some (False, s)
      else
        let s = s\<lparr>v2_ns := map (\<lambda>_. 0) (v2_ns s), v2_lat := latency_reset\<rparr> in
        case create_frame_pool numa_avail alloc_ok junk of
          (Inl err, on_numa) \<Rightarrow> Some (False, s\<lparr>v2_has_pool := False, v2_on_numa := False\<rparr>)
        | (Inr p, on_numa) \<Rightarrow>
            let s = s\<lparr>v2_has_pool := True, v2_on_numa := on_numa, v2_live := add_mset on_numa (v2_live s), v2_pool := p,
              expected_seq_num := 0, seq_initialized := False\<rparr> in
            do { (ok, r, w) \<leftarrow> receiver_open inet_pton cfg (v2_recv s) (v2_w s);
                 let s = s\<lparr>v2_recv := r, v2_w := w\<rparr>;
                 if \<not> ok then Some (False, release_pool s) else Some (True, s\<lparr>v2_running := True\<rparr>) })"

section \<open>Reporting\<close>

text \<open>A line of the reporter: the counters and the latencies since the last line.\<close>

definition v2_report_line :: "Metrics \<Rightarrow> LatencySnapshot \<Rightarrow> string" where
  "v2_report_line m l =
     ''Metrics '' @ metrics_to_string (snapshot m) @ '' latency_ns samples='' @ show_u64 (samples l) @
     '' p50='' @ show_u64 (p50_ns l) @ '' p99='' @ show_u64 (p99_ns l) @ '' p99.9='' @ show_u64 (p999_ns l) @
     '' max='' @ show_u64 (max_ns l) @ '' overflow='' @ show_u64 (overflow l)"

section \<open>Reserving and giving back\<close>

lemma take_free_keeps:
  "take_slots free_pop n p = (idx, p') \<Longrightarrow> ready p' = ready p \<and> slots p' = slots p"
proof (induction n arbitrary: p idx p')
  case (Suc n)
  obtain r q where q: "free_pop p = (r, q)" by fastforce
  from free_pop_ready [OF this] Suc q show ?case
    by (cases r) (auto split: prod.splits dest: Suc.IH)
qed simp

lemma put_free_keeps: "ready (put_slots free_push p idx) = ready p \<and> slots (put_slots free_push p idx) = slots p"
proof (induction idx arbitrary: p)
  case (Cons i idx)
  have "ready (snd (free_push p i)) = ready p" "slots (snd (free_push p i)) = slots p"
    by (simp_all add: free_push_def split: prod.split)
  with Cons [of "snd (free_push p i)"] show ?case by (simp add: put_slots_def)
qed (simp add: put_slots_def)

lemma reserve_spec:
  assumes "fp_owned (v2_pool s) held" and "reserve_frames s = (idx, s')"
  shows "fp_owned (v2_pool s') (idx @ held) \<and> ready_frames (v2_pool s') = ready_frames (v2_pool s) \<and>
    length idx \<le> kBatch \<and> s' = s\<lparr>v2_pool := v2_pool s'\<rparr>"
proof -
  obtain p where t: "take_slots free_pop kBatch (v2_pool s) = (idx, p)" "s' = s\<lparr>v2_pool := p\<rparr>"
    using assms(2) by (auto simp: reserve_frames_def split: prod.splits)
  then show ?thesis
    using free_src.take_slots_owned [OF assms(1) t(1)] free_src.take_slots_length [OF t(1)] take_free_keeps [OF t(1)]
    by (simp add: ready_frames_def)
qed

lemma release_spec:
  assumes "fp_owned (v2_pool s) (idx @ held)"
  shows "fp_owned (v2_pool (release_reserved idx s)) held \<and>
    ready_frames (v2_pool (release_reserved idx s)) = ready_frames (v2_pool s) \<and>
    v2_m (release_reserved idx s) = v2_m s"
  using free_snk.put_slots_owned [OF assms] put_free_keeps [of "v2_pool s" idx]
  by (simp add: release_reserved_def ready_frames_def)

section \<open>Writing into reserved slots\<close>

lemma slot_write_reserved:
  assumes "fp_owned p held" and "i \<in> set held" and "length bs = kWireSize"
  shows "fp_owned (slot_write p i bs) held \<and> ready_frames (slot_write p i bs) = ready_frames p \<and>
    slots (slot_write p i bs) ! unat i = bs"
proof -
  have "i \<notin> set (rb_list (ready p))"
    using fp_owned_distinct [OF assms(1)] assms(2) by auto
  then have "ready_frames (slot_write p i bs) = ready_frames p"
    by (auto simp: ready_frames_def slot_write_def word_unat_eq_iff)
      (metis nth_list_update_neq word_unat_eq_iff)
  moreover have "unat i < length (slots p)"
    using fp_owned_held [OF assms(1,2)] assms(1) by (simp add: fp_owned_def fp_inv_def)
  ultimately show ?thesis
    using slot_write_owned [OF assms(1,3)] by (simp add: slot_write_def)
qed

lemma write_slots_other:
  "j \<notin> set idx \<Longrightarrow> slots (write_slots p idx fs) ! unat j = slots p ! unat j"
  by (induction p idx fs rule: write_slots.induct) (auto simp: slot_write_def word_unat_eq_iff)

lemma write_slots_spec:
  assumes "fp_owned p held" and "set idx \<subseteq> set held" and "distinct idx" and "length fs = length idx"
    and "\<forall>f\<in>set fs. length (the (rf_data f)) = kWireSize"
  shows "fp_owned (write_slots p idx fs) held \<and> ready_frames (write_slots p idx fs) = ready_frames p \<and>
    map (\<lambda>i. slots (write_slots p idx fs) ! unat i) idx = map (\<lambda>f. the (rf_data f)) fs"
  using assms
proof (induction p idx fs rule: write_slots.induct)
  case (1 p i idx f fs)
  let ?q = "slot_write p i (the (rf_data f))"
  have w: "fp_owned ?q held" "ready_frames ?q = ready_frames p" "slots ?q ! unat i = the (rf_data f)"
    using slot_write_reserved [OF 1(2), of i "the (rf_data f)"] 1(3,6) by auto
  have IH: "fp_owned (write_slots ?q idx fs) held \<and> ready_frames (write_slots ?q idx fs) = ready_frames ?q \<and>
    map (\<lambda>i. slots (write_slots ?q idx fs) ! unat i) idx = map (\<lambda>f. the (rf_data f)) fs"
    using 1 w(1) by simp
  moreover have "slots (write_slots ?q idx fs) ! unat i = the (rf_data f)"
    using 1(4) w(3) by (simp add: write_slots_other)
  ultimately show ?case using w(2) by simp
qed auto

section \<open>Publishing\<close>

definition frame_good :: "RxFrame \<Rightarrow> bool" where
  "frame_good f \<longleftrightarrow> \<not> rf_truncated f \<and> rf_len f = kWireSize"

lemma publish_one_spec:
  assumes "fp_owned (v2_pool s) (i # held)"
  shows "fp_owned (v2_pool (publish_one t s (i, f))) held \<and>
    ready_frames (v2_pool (publish_one t s (i, f))) =
      ready_frames (v2_pool s) @ (if frame_good f then [slots (v2_pool s) ! unat i] else []) \<and>
    v2_m (publish_one t s (i, f)) = (if frame_good f then v2_m s else inc_drops 1 (v2_m s)) \<and>
    slots (v2_pool (publish_one t s (i, f))) = slots (v2_pool s)"
proof (cases "frame_good f")
  case False
  then show ?thesis
    using free_snk.push_ok [OF assms] put_free_keeps [of "v2_pool s" "[i]"]
    by (auto simp: publish_one_def frame_good_def put_slots_def ready_frames_def)
next
  case True
  obtain p where p: "ready_push (v2_pool s) i = (True, p)" "fp_owned p held"
    using ready_push_owned [OF assms] by blast
  obtain q where q: "rb_push (ready (v2_pool s)) i = (True, q)" "p = (v2_pool s)\<lparr>ready := q\<rparr>"
    using p(1) by (auto simp: ready_push_def split: prod.splits)
  have "rb_inv (ready (v2_pool s))"
    using assms by (simp add: fp_owned_def fp_inv_def)
  from ring.push_True [OF this q(1)] have "rb_list q = rb_list (ready (v2_pool s)) @ [i]" by simp
  with True p q(2) show ?thesis
    by (auto simp: publish_one_def frame_good_def ready_frames_def)
qed

lemma publish_all_spec:
  assumes "fp_owned (v2_pool s) (idx @ held)" and "length fs = length idx"
  shows "fp_owned (v2_pool (foldl (publish_one t) s (zip idx fs))) held \<and>
    ready_frames (v2_pool (foldl (publish_one t) s (zip idx fs))) = ready_frames (v2_pool s) @
      map (\<lambda>(i, f). slots (v2_pool s) ! unat i) (filter (\<lambda>(i, f). frame_good f) (zip idx fs)) \<and>
    v2_m (foldl (publish_one t) s (zip idx fs)) =
      inc_drops (of_nat (length (filter (\<lambda>f. \<not> frame_good f) fs))) (v2_m s)"
  using assms
proof (induction idx arbitrary: s fs)
  case Nil
  then show ?case by simp
next
  case (Cons i idx)
  then obtain f gs where fs: "fs = f # gs" "length gs = length idx" by (cases fs) auto
  have "fp_owned (v2_pool s) (i # idx @ held)" using Cons.prems(1) by simp
  note one = publish_one_spec [OF this, of t f]
  from Cons.IH [OF one [THEN conjunct1] fs(2)] one show ?case
    by (simp add: fs(1) inc_drops_inc_drops add.commute)
qed

section \<open>From datagrams to frames\<close>

lemma slot_frames_ready: "\<forall>f\<in>set (slot_frames p idx). frame_ready f"
  by (auto simp: slot_frames_def frame_ready_def kWireSize_def)

lemma length_slot_frames [simp]: "length (slot_frames p idx) = length idx"
  by (simp add: slot_frames_def)

text \<open>A datagram delivered into a slot of 44 bytes.\<close>

lemma deliver_slot:
  assumes "f \<in> set (slot_frames p idx)" and "fp_owned p held" and "set idx \<subseteq> set held"
  shows "length (the (rf_data (deliver r (reset_frame f) m))) = kWireSize \<and>
    length (the (rf_data (reset_frame f))) = kWireSize \<and>
    (frame_good (deliver r (reset_frame f) m) \<longleftrightarrow> well_formed m) \<and>
    (well_formed m \<longrightarrow> the (rf_data (deliver r (reset_frame f) m)) = rx_data m)"
proof -
  obtain i where i: "i \<in> set idx" "rf_data f = Some (slots p ! unat i)" "rf_capacity f = kWireSize"
    using assms(1) by (auto simp: slot_frames_def)
  have "unat i < length (slots p)"
    using fp_owned_held [OF assms(2), of i] i(1) assms(2,3) by (auto simp: fp_owned_def fp_inv_def)
  from slot_frame_length [OF assms(2) this] i(2,3) show ?thesis
    by (auto simp: deliver_def reset_frame_def frame_good_def well_formed_def)
qed

lemma zip_take_left: "zip (take n xs) ys = zip (take n xs) (take n ys)"
proof (induction n arbitrary: xs ys)
  case (Suc n)
  then show ?case by (cases xs; cases ys) simp_all
qed simp

lemma map_filter_zip:
  assumes "length xs = length ys" and "map g xs = map h ys"
  shows "map (\<lambda>(x, y). g x) (filter (\<lambda>(x, y). P y) (zip xs ys)) = map h (filter P ys)"
  using assms by (induction xs ys rule: list_induct2) auto

lemma map_filter_map2:
  assumes "length ms \<le> length fs"
    and "\<And>f m. f \<in> set fs \<Longrightarrow> (P (d f m) \<longleftrightarrow> Q m) \<and> (Q m \<longrightarrow> h (d f m) = k m)"
  shows "map h (filter P (map2 d fs ms)) = map k (filter Q ms) \<and>
    length (filter (\<lambda>f. \<not> P f) (map2 d fs ms)) = length (filter (\<lambda>m. \<not> Q m) ms)"
  using assms
proof (induction ms arbitrary: fs)
  case (Cons m ms)
  then obtain f gs where "fs = f # gs" by (cases fs) auto
  with Cons.IH [of gs] Cons.prems show ?case by auto
qed simp

lemma receive_into_batch:
  assumes "fp_owned (v2_pool s) (idx @ held)" and "ms \<noteq> []" and "length ms \<le> length idx"
    and "rxs (v2_w s) = replicate k (Rx_fail EINTR) @ Rx ms # rs" and "0 \<le> rx_fd (v2_recv s)"
  obtains fs s' where "receive_into receive_batch idx s = Some (int (length ms), fs, s')"
    and "length fs = length idx" and "fp_owned (v2_pool s') (idx @ held)"
    and "ready_frames (v2_pool s') = ready_frames (v2_pool s)" and "v2_m s' = v2_m s" and "v2_clock s' = v2_clock s"
    and "map (\<lambda>i. slots (v2_pool s') ! unat i) idx = map (\<lambda>f. the (rf_data f)) fs"
    and "map (\<lambda>f. the (rf_data f)) (filter frame_good (take (length ms) fs)) = map rx_data (filter well_formed ms)"
    and "length (filter (\<lambda>f. \<not> frame_good f) (take (length ms) fs)) = length (filter (\<lambda>m. \<not> well_formed m) ms)"
proof -
  let ?r = "v2_recv s" and ?p = "v2_pool s"
  let ?gs = "slot_frames ?p idx"
  let ?fs = "map2 (\<lambda>f. deliver ?r (reset_frame f)) ?gs ms @ map reset_frame (drop (length ms) ?gs)"
  have sub: "set idx \<subseteq> set (idx @ held)" by simp
  have len: "length ms \<le> length ?gs" using assms(3) by simp
  obtain r' where rb: "receive_batch ?r (Some ?gs) (length ?gs) (v2_w s) =
      Some (int (length ms), r', Some ?fs, (v2_w s)\<lparr>rxs := rs\<rparr>)"
    using receive_batch_ok [OF assms(5) slot_frames_ready assms(2) len assms(4)] by blast
  let ?s = "s\<lparr>v2_recv := r', v2_w := (v2_w s)\<lparr>rxs := rs\<rparr>, v2_pool := write_slots ?p idx ?fs\<rparr>"
  have "receive_into receive_batch idx s = Some (int (length ms), ?fs, ?s)"
    using rb by (simp add: receive_into_def)
  moreover have "length ?fs = length idx" using assms(3) by simp
  moreover have dist: "distinct idx" using fp_owned_distinct [OF assms(1)] by simp
  have "\<forall>f\<in>set ?fs. length (the (rf_data f)) = kWireSize"
    using deliver_slot [OF _ assms(1) sub] by (auto dest!: set_zip_leftD in_set_dropD)
  note ws = write_slots_spec [OF assms(1) sub dist \<open>length ?fs = length idx\<close> this]
  moreover have "take (length ms) ?fs = map2 (\<lambda>f. deliver ?r (reset_frame f)) ?gs ms"
    using assms(3) by simp
  moreover have "map (\<lambda>f. the (rf_data f)) (filter frame_good (map2 (\<lambda>f. deliver ?r (reset_frame f)) ?gs ms)) =
      map rx_data (filter well_formed ms) \<and>
    length (filter (\<lambda>f. \<not> frame_good f) (map2 (\<lambda>f. deliver ?r (reset_frame f)) ?gs ms)) =
      length (filter (\<lambda>m. \<not> well_formed m) ms)"
    using len deliver_slot [OF _ assms(1) sub] by (intro map_filter_map2) auto
  moreover have "v2_pool ?s = write_slots ?p idx ?fs" "v2_m ?s = v2_m s" "v2_clock ?s = v2_clock s"
    by simp_all
  ultimately show thesis
    by (intro that [of ?fs ?s]) metis+
qed

text \<open>
  C6. A batch in engine v2: with every slot accounted for, reserving slots, receiving a batch
  of datagrams into them and publishing it appends to the ready ring, in order and byte for
  byte, exactly the untruncated 44-byte datagrams; all others are counted as drops; reserved
  slots that were not used are free again, and no slot is lost.
\<close>

theorem v2_batch_accounting:
  assumes "fp_owned (v2_pool s) held" and "reserve_frames s = (idx, s1)"
    and "ms \<noteq> []" and "length ms \<le> length idx"
    and "rxs (v2_w s) = replicate k (Rx_fail EINTR) @ Rx ms # rs" and "0 \<le> rx_fd (v2_recv s)"
    and "v2_clock s = t # ts"
  shows "\<exists>fs s2 s3. receive_into receive_batch idx s1 = Some (int (length ms), fs, s2) \<and>
    publish_batch (length ms) idx fs s2 = Some s3 \<and> fp_owned (v2_pool s3) held \<and>
    ready_frames (v2_pool s3) = ready_frames (v2_pool s) @ map rx_data (filter well_formed ms) \<and>
    v2_m s3 = inc_drops (of_nat (length (filter (\<lambda>m. \<not> well_formed m) ms))) (v2_m s)"
proof -
  let ?n = "length ms"
  note res = reserve_spec [OF assms(1,2)]
  have same: "v2_w s1 = v2_w s" "v2_recv s1 = v2_recv s" "v2_m s1 = v2_m s" "v2_clock s1 = v2_clock s"
    by (subst res [THEN conjunct2, THEN conjunct2, THEN conjunct2], simp)+
  obtain fs s2 where rc: "receive_into receive_batch idx s1 = Some (int ?n, fs, s2)"
    and fs: "length fs = length idx" and own2: "fp_owned (v2_pool s2) (idx @ held)"
    and rf2: "ready_frames (v2_pool s2) = ready_frames (v2_pool s1)" and m2: "v2_m s2 = v2_m s1"
    and clk: "v2_clock s2 = v2_clock s1"
    and sl: "map (\<lambda>i. slots (v2_pool s2) ! unat i) idx = map (\<lambda>f. the (rf_data f)) fs"
    and good: "map (\<lambda>f. the (rf_data f)) (filter frame_good (take ?n fs)) = map rx_data (filter well_formed ms)"
    and bad: "length (filter (\<lambda>f. \<not> frame_good f) (take ?n fs)) = length (filter (\<lambda>m. \<not> well_formed m) ms)"
    using receive_into_batch [of s1 idx held ms k rs] res assms(3-6) same by auto
  let ?s2 = "s2\<lparr>v2_clock := ts\<rparr>"
  let ?z = "zip (take ?n idx) (take ?n fs)"
  let ?s = "foldl (publish_one t) ?s2 ?z"
  have zip: "zip (take ?n idx) fs = ?z"
    by (rule zip_take_left)
  have own: "fp_owned (v2_pool ?s2) (take ?n idx @ drop ?n idx @ held)"
    using own2 by (simp flip: append_assoc)
  have l: "length (take ?n fs) = length (take ?n idx)" using fs by simp
  note pub = publish_all_spec [OF own l, of t]
  have "map (\<lambda>i. slots (v2_pool s2) ! unat i) (take ?n idx) = map (\<lambda>f. the (rf_data f)) (take ?n fs)"
    using sl by (metis take_map)
  then have frames: "map (\<lambda>(i, f). slots (v2_pool s2) ! unat i) (filter (\<lambda>(i, f). frame_good f) ?z) =
      map rx_data (filter well_formed ms)"
    using map_filter_zip [OF l [symmetric]] good by metis
  have "publish_batch ?n idx fs s2 = Some (release_reserved (drop ?n idx) ?s)"
    using clk same assms(7) by (simp add: publish_batch_def tick_def zip)
  with rc pub release_spec [OF pub [THEN conjunct1]] frames bad rf2 m2 same res show ?thesis
    by auto
qed

text \<open>A small engine: four slots, an open receiver with two datagrams waiting.\<close>

definition v2_demo :: engine_v2 where
  "v2_demo = \<lparr>expected_seq_num = 0, seq_initialized = False, v2_running = True,
     v2_recv = receiver_new\<lparr>rx_fd := 3, rx_epfd := 4\<rparr>, v2_m = metrics_zero, v2_io = True, v2_consumer = True,
     v2_reporter = True, v2_has_pool = True, v2_on_numa = False, v2_live = {#False#}, v2_pool = pool4, v2_ns = [0, 0, 0, 0],
     v2_lat = latency_reset,
     v2_w = \<lparr>script = [], rxs = [Rx [late_dgram, \<lparr>rx_data = [1], rx_trunc = False, rx_peer = no_addr\<rparr>]],
       evs = [Evs [\<lparr>ev_fd = 3, ev_err = False, ev_rdhup = False\<rparr>]], trace = []\<rparr>, v2_clock = [5, 9]\<rparr>"

lemma take_slots_all:
  assumes "fp_owned p held" and "take_slots free_pop n p = (idx, p')"
  shows "length idx = min n (length (rb_list (free p)))"
  using assms
proof (induction n arbitrary: p held idx p')
  case (Suc n)
  obtain r q where q: "free_pop p = (r, q)" by fastforce
  show ?case
  proof (cases r)
    case None
    with Suc.prems q free_pop_none_iff [OF Suc.prems(1)] show ?thesis by simp
  next
    case (Some i)
    obtain js q' where js: "take_slots free_pop n q = (js, q')" by fastforce
    have inv: "rb_inv (free p)" using Suc.prems(1) by (simp add: fp_owned_def fp_inv_def)
    have "rb_list (free q) = tl (rb_list (free p))"
      using q ring.pop_contents [OF inv] by (auto simp: free_pop_def split: prod.splits)
    moreover have "rb_list (free p) \<noteq> []"
      using q Some free_pop_none_iff [OF Suc.prems(1)] by auto
    moreover have "length js = min n (length (rb_list (free q)))"
      using Suc.IH [OF free_pop_some [OF Suc.prems(1)] js] q Some by blast
    ultimately show ?thesis
      using Suc.prems(2) q Some js by (cases "rb_list (free p)") (auto simp del: length_rb_list)
  qed
qed simp

lemma v2_demo_reserve:
  obtains idx s1 where "reserve_frames v2_demo = (idx, s1)" "length idx = 4"
proof -
  obtain idx p where t: "take_slots free_pop kBatch pool4 = (idx, p)" by fastforce
  then have "length idx = 4"
    using take_slots_all [OF pool4_owned t] pool4_free(1) by (simp add: kBatch_def)
  then show thesis using t that by (simp add: reserve_frames_def v2_demo_def)
qed

theorem v2_batch_accounting_witness:
  "\<exists>idx s1 fs s2 s3. reserve_frames v2_demo = (idx, s1) \<and>
    receive_into receive_batch idx s1 = Some (2, fs, s2) \<and> publish_batch 2 idx fs s2 = Some s3 \<and>
    fp_owned (v2_pool s3) [] \<and> ready_frames (v2_pool s3) = [late_frame] \<and> drops (v2_m s3) = 1"
proof -
  obtain idx s1 where r: "reserve_frames v2_demo = (idx, s1)" "length idx = 4"
    by (rule v2_demo_reserve)
  let ?ms = "[late_dgram, \<lparr>rx_data = [1], rx_trunc = False, rx_peer = no_addr\<rparr>]"
  have wf: "filter well_formed ?ms = [late_dgram]"
    by (simp add: well_formed_def late_dgram_def late_frame_def kWireSize_def)
  have nwf: "filter (\<lambda>m. \<not> well_formed m) ?ms = [\<lparr>rx_data = [1], rx_trunc = False, rx_peer = no_addr\<rparr>]"
    by (simp add: well_formed_def late_dgram_def late_frame_def kWireSize_def)
  have own: "fp_owned (v2_pool v2_demo) []" "ready_frames (v2_pool v2_demo) = []" "drops (v2_m v2_demo) = 0"
    using pool4_owned pool4_free(2) by (simp_all add: v2_demo_def metrics_zero_def)
  have "rxs (v2_w v2_demo) = replicate 0 (Rx_fail EINTR) @ Rx ?ms # []" "0 \<le> rx_fd (v2_recv v2_demo)"
    "v2_clock v2_demo = 5 # [9]"
    by (simp_all add: v2_demo_def)
  moreover have "length ?ms \<le> length idx" "?ms \<noteq> []" using r(2) by simp_all
  ultimately have "\<exists>fs s2 s3. receive_into receive_batch idx s1 = Some (int (length ?ms), fs, s2) \<and>
    publish_batch (length ?ms) idx fs s2 = Some s3 \<and> fp_owned (v2_pool s3) [] \<and>
    ready_frames (v2_pool s3) = ready_frames (v2_pool v2_demo) @ map rx_data (filter well_formed ?ms) \<and>
    v2_m s3 = inc_drops (of_nat (length (filter (\<lambda>m. \<not> well_formed m) ?ms))) (v2_m v2_demo)"
    by (intro v2_batch_accounting [OF own(1) r(1)])
  then show ?thesis
    unfolding wf nwf own(2) using r(1) own(3) by (fastforce simp: late_dgram_def inc_drops_def numeral_2_eq_2)
qed

section \<open>The I/O loop\<close>

lemma slot_frames_buf:
  assumes "fp_owned p held" and "set idx \<subseteq> set held"
  shows "\<forall>f\<in>set (slot_frames p idx). buf_ok kWireSize f"
proof
  fix f
  assume "f \<in> set (slot_frames p idx)"
  then obtain i where i: "i \<in> set idx" "rf_data f = Some (slots p ! unat i)" "rf_capacity f = kWireSize"
    by (auto simp: slot_frames_def)
  have "unat i < length (slots p)"
    using fp_owned_held [OF assms(1), of i] i(1) assms by (auto simp: fp_owned_def fp_inv_def)
  from slot_frame_length [OF assms(1) this] i show "buf_ok kWireSize f" by (simp add: buf_ok_def)
qed

lemma receive_into_owned:
  assumes "receive_into rcv idx s = Some (n, fs, s')" and "fp_owned (v2_pool s) (idx @ held)"
    and "rcv = epoll_receive \<or> rcv = receive_batch"
  shows "fp_owned (v2_pool s') (idx @ held) \<and> length fs = length idx \<and> n \<le> int (length idx) \<and>
    ready_frames (v2_pool s') = ready_frames (v2_pool s) \<and> v2_m s' = v2_m s \<and>
    seq_state.truncate s' = seq_state.truncate s \<and>
    map (\<lambda>i. slots (v2_pool s') ! unat i) idx = map (\<lambda>f. the (rf_data f)) fs \<and>
    (\<forall>j\<in>set held. slots (v2_pool s') ! unat j = slots (v2_pool s) ! unat j)"
proof -
  let ?gs = "slot_frames (v2_pool s) idx"
  obtain r fs' w where c: "rcv (v2_recv s) (Some ?gs) (length idx) (v2_w s) = Some (n, r, fs', w)"
    and eqs: "fs = the fs'" "v2_pool s' = write_slots (v2_pool s) idx (the fs')" "v2_m s' = v2_m s"
      "seq_state.truncate s' = seq_state.truncate s"
    using assms(1) by (auto simp: receive_into_def bind_eq_Some_conv seq_state.defs)
  have "\<forall>f\<in>set ?gs. buf_ok kWireSize f"
    using slot_frames_buf [OF assms(2), of idx] by simp
  with c assms(3) have "length fs = length idx" "\<forall>f\<in>set fs. buf_ok kWireSize f" "n \<le> int (length idx)"
    unfolding eqs by (auto dest: epoll_receive_buf receive_batch_buf)
  moreover from this(2) have "\<forall>f\<in>set fs. length (the (rf_data f)) = kWireSize"
    by (auto simp: buf_ok_def)
  moreover have "slots (v2_pool s') ! unat j = slots (v2_pool s) ! unat j" if "j \<in> set held" for j
    using that fp_owned_distinct [OF assms(2)] write_slots_other [of j idx] eqs(2) by auto
  ultimately show ?thesis
    using write_slots_spec [OF assms(2), of idx fs] fp_owned_distinct [OF assms(2)] eqs by simp
qed

lemma v2_demo_received:
  obtains idx s1 fs s2 where "reserve_frames v2_demo = (idx, s1)" "idx \<noteq> []"
    "receive_into epoll_receive idx s1 = Some (2, fs, s2)"
proof -
  obtain idx s1 where r: "reserve_frames v2_demo = (idx, s1)" "length idx = 4"
    by (rule v2_demo_reserve)
  let ?ms = "[late_dgram, \<lparr>rx_data = [1], rx_trunc = False, rx_peer = no_addr\<rparr>]"
  have own: "fp_owned (v2_pool v2_demo) []" using pool4_owned by (simp add: v2_demo_def)
  note res = reserve_spec [OF own r(1)]
  have same: "v2_w s1 = v2_w v2_demo" "v2_recv s1 = v2_recv v2_demo"
    by (subst res [THEN conjunct2, THEN conjunct2, THEN conjunct2], simp)+
  let ?gs = "slot_frames (v2_pool s1) idx"
  let ?w = "(v2_w v2_demo)\<lparr>evs := []\<rparr>"
  obtain r' fs' w' where rb: "receive_batch (v2_recv v2_demo) (Some ?gs) (length ?gs) ?w = Some (int (length ?ms), r', Some fs', w')"
    using receive_batch_ok [of "v2_recv v2_demo" ?gs ?ms ?w 0 "[]"] r(2) slot_frames_ready [of "v2_pool s1" idx]
    by (auto simp: v2_demo_def)
  have "epoll_receive (v2_recv s1) (Some ?gs) (length idx) (v2_w s1) = Some (2, r', Some fs', w')"
    using rb unfolding same epoll_receive_def by (simp add: ensure_epoll_def) (simp add: v2_demo_def)
  then show thesis
    using that [OF r(1)] r(2) by (fastforce simp: receive_into_def)
qed

text \<open>
  C37. Datagrams can vanish when the engine stops: if \<^verbatim>\<open>running_\<close> is cleared between receiving a
  batch and the test of the inner loop, the loop ends without publishing, dropping or
  counting the batch, and the reserved slots are not given back.
\<close>

theorem v2_stop_strands_batch:
  assumes "reserve_frames s = (idx, s1)" and "idx \<noteq> []"
    and "receive_into epoll_receive idx s1 = Some (n, fs, s2)" and "0 < n" and "fp_owned (v2_pool s) held"
  shows "\<exists>s'. io_loop [True, False] s = Some (s', idx) \<and> v2_m s' = v2_m s \<and>
    ready_frames (v2_pool s') = ready_frames (v2_pool s) \<and> fp_owned (v2_pool s') (idx @ held)"
proof -
  note res = reserve_spec [OF assms(5,1)]
  have "v2_m s1 = v2_m s"
    by (subst res [THEN conjunct2, THEN conjunct2, THEN conjunct2]) simp
  with receive_into_owned [OF assms(3) res [THEN conjunct1]] res assms show ?thesis by simp
qed

theorem v2_stop_strands_batch_witness:
  "\<exists>s' idx. io_loop [True, False] v2_demo = Some (s', idx) \<and> idx \<noteq> [] \<and> v2_m s' = v2_m v2_demo \<and>
    ready_frames (v2_pool s') = ready_frames (v2_pool v2_demo)"
proof -
  obtain idx s1 fs s2 where "reserve_frames v2_demo = (idx, s1)" "idx \<noteq> []"
    "receive_into epoll_receive idx s1 = Some (2, fs, s2)"
    by (rule v2_demo_received)
  from v2_stop_strands_batch [OF this, of "[]"] \<open>idx \<noteq> []\<close> pool4_owned show ?thesis
    by (auto simp: v2_demo_def)
qed

section \<open>The consumer\<close>

abbreviation v2_sm :: "engine_v2 \<Rightarrow> seq_state \<times> Metrics" where
  "v2_sm s \<equiv> (seq_state.truncate s, v2_m s)"

lemma v2_on_message_keeps [simp]:
  "v2_pool (v2_on_message s n) = v2_pool s" "v2_running (v2_on_message s n) = v2_running s"
  "v2_clock (v2_on_message s n) = v2_clock s" "v2_ns (v2_on_message s n) = v2_ns s"
  "v2_lat (v2_on_message s n) = v2_lat s"
  by (simp_all add: v2_on_message_def Let_def)

lemma v2_truncate_upd [simp]:
  "seq_state.truncate (s\<lparr>v2_pool := p\<rparr>) = seq_state.truncate s"
  "seq_state.truncate (s\<lparr>v2_ns := ns\<rparr>) = seq_state.truncate s"
  "seq_state.truncate (s\<lparr>v2_lat := l\<rparr>) = seq_state.truncate s"
  "seq_state.truncate (s\<lparr>v2_clock := c\<rparr>) = seq_state.truncate s"
  "seq_state.truncate (s\<lparr>v2_running := b\<rparr>) = seq_state.truncate s"
  by (simp_all add: seq_state.defs)

lemma v2_process_spec:
  assumes "fp_owned (v2_pool s) (i # held)" and "v2_clock s = t # ts"
  obtains s' where "v2_process e i (msg, s) = Some (wire_msg (slots (v2_pool s) ! unat i), s')"
    "v2_sm s' = seq_step (v2_sm s) (frame_seq (slots (v2_pool s) ! unat i))" "v2_pool s' = v2_pool s"
    "v2_clock s' = ts" "v2_running s' = v2_running s"
proof -
  let ?f = "slots (v2_pool s) ! unat i"
  let ?s1 = "v2_on_message s (frame_seq ?f)"
  let ?s2 = "?s1\<lparr>v2_ns := (v2_ns s)[unat i := 0], v2_clock := ts\<rparr>"
  let ?s3 = "if v2_ns s ! unat i \<noteq> 0 \<and> v2_ns s ! unat i \<le> t
    then ?s2\<lparr>v2_lat := record_latency (t - v2_ns s ! unat i) (v2_lat s)\<rparr> else ?s2"
  have i: "unat i < length (slots (v2_pool s))" using pool_facts [OF assms(1)] by blast
  with slot_frame_length [OF assms(1) this]
  have "v2_process e i (msg, s) = Some (wire_msg ?f, ?s3)"
    using assms(2) by (simp add: v2_process_def decode_wire_msg frame_seq_def tick_def)
  moreover have "v2_sm ?s3 = seq_step (v2_sm s) (frame_seq ?f)"
    using v2.handle_step [of s "frame_seq ?f"] by simp
  ultimately show thesis by (intro that [of ?s3]) simp_all
qed

lemma v2_process_all_spec:
  assumes "fp_owned (v2_pool s) (idx @ held)" and "length idx \<le> length (v2_clock s)"
  shows "\<exists>msg' s'. v2_process_all e idx (msg, s) = Some (msg', s') \<and>
    v2_sm s' = seq_run (v2_sm s) (map (\<lambda>i. frame_seq (slots (v2_pool s) ! unat i)) idx) \<and>
    v2_pool s' = v2_pool s \<and> v2_clock s' = drop (length idx) (v2_clock s) \<and> v2_running s' = v2_running s"
  using assms
proof (induction idx arbitrary: msg s held)
  case Nil
  then show ?case by (simp add: seq_run_def)
next
  case (Cons i idx)
  obtain t ts where clk: "v2_clock s = t # ts" using Cons.prems(2) by (cases "v2_clock s") auto
  have own: "fp_owned (v2_pool s) (i # idx @ held)" using Cons.prems(1) by simp
  let ?f = "slots (v2_pool s) ! unat i"
  obtain s1 where s1: "v2_process e i (msg, s) = Some (wire_msg ?f, s1)"
    "v2_sm s1 = seq_step (v2_sm s) (frame_seq ?f)" "v2_pool s1 = v2_pool s"
    "v2_clock s1 = ts" "v2_running s1 = v2_running s"
    by (rule v2_process_spec [OF own clk])
  have own': "fp_owned (v2_pool s1) (idx @ i # held)"
    using own unfolding s1(3) by (rule fp_owned_perm) simp
  from Cons.IH [OF own', of "wire_msg ?f"] s1 Cons.prems(2) clk show ?case
    by (auto simp: seq_run_Cons)
qed

lemma take_ready_spec:
  assumes "fp_owned p held" and "take_slots ready_pop n p = (idx, p')"
  shows "idx = take n (rb_list (ready p)) \<and> rb_list (ready p') = drop n (rb_list (ready p)) \<and> slots p' = slots p"
  using assms
proof (induction n arbitrary: p held idx p')
  case (Suc n)
  obtain r q where q: "ready_pop p = (r, q)" by fastforce
  show ?case
  proof (cases r)
    case None
    have "rb_inv (ready p)" using Suc.prems(1) by (simp add: fp_owned_def fp_inv_def)
    from ring.pop_result [OF this] have "rb_list (ready p) = []"
      using q None by (auto simp: ready_pop_def split: prod.splits list.splits)
    with Suc.prems q None ready_pop_none [of p q] show ?thesis by simp
  next
    case (Some i)
    obtain js q' where js: "take_slots ready_pop n q = (js, q')" by fastforce
    have "rb_list (ready p) = i # rb_list (ready q)" "slots q = slots p"
      using ready_pop_frames [OF Suc.prems(1), of i q] q Some by auto
    with Suc.IH [OF ready_pop_some [OF Suc.prems(1)] js] Suc.prems(2) q Some js show ?thesis by auto
  qed
qed simp

lemma v2_iter_spec:
  assumes "fp_owned (v2_pool s) held" and "length (ready_frames (v2_pool s)) \<le> length (v2_clock s)"
  obtains msg' s' where "v2_iter e (msg, s) = Some (msg', s')" "fp_owned (v2_pool s') held"
    "ready_frames (v2_pool s') = drop kBatch (ready_frames (v2_pool s))"
    "v2_sm s' = seq_run (v2_sm s) (map frame_seq (take kBatch (ready_frames (v2_pool s))))"
    "v2_running s' = v2_running s" "length (ready_frames (v2_pool s')) \<le> length (v2_clock s')"
proof -
  obtain idx p where t: "take_slots ready_pop kBatch (v2_pool s) = (idx, p)" by fastforce
  note own = ready_src.take_slots_owned [OF assms(1) t]
  note tk = take_ready_spec [OF assms(1) t]
  let ?s = "s\<lparr>v2_pool := p\<rparr>"
  let ?r = "rb_list (ready (v2_pool s))"
  have len: "length idx \<le> length (v2_clock ?s)"
    using tk assms(2) by (simp add: ready_frames_def del: length_rb_list)
  obtain msg' s1 where all: "v2_process_all e idx (msg, ?s) = Some (msg', s1)"
    "v2_sm s1 = seq_run (v2_sm ?s) (map (\<lambda>i. frame_seq (slots p ! unat i)) idx)"
    "v2_pool s1 = p" "v2_clock s1 = drop (length idx) (v2_clock s)" "v2_running s1 = v2_running s"
    using v2_process_all_spec [of ?s idx held e msg] own len by auto
  have frames: "map (\<lambda>i. frame_seq (slots p ! unat i)) idx = map frame_seq (take kBatch (ready_frames (v2_pool s)))"
    using tk by (simp add: ready_frames_def take_map)
  have rest: "ready_frames p = drop kBatch (ready_frames (v2_pool s))"
    using tk by (simp add: ready_frames_def drop_map)
  let ?s2 = "s1\<lparr>v2_pool := put_slots free_push p idx\<rparr>"
  have gave: "fp_owned (v2_pool ?s2) held" "ready_frames (v2_pool ?s2) = ready_frames p"
    using free_snk.put_slots_owned [OF own] put_free_keeps [of p idx] by (simp_all add: ready_frames_def)
  have clk: "length (ready_frames p) \<le> length (v2_clock s1)"
    using all(4) assms(2) tk rest by (simp add: ready_frames_def del: length_rb_list)
  show thesis
  proof (cases "idx = []")
    case True
    then have "v2_iter e (msg, s) = Some (msg, ?s)" by (simp add: v2_iter_def t)
    moreover have "fp_owned p held" using own True by simp
    moreover have "take kBatch (ready_frames (v2_pool s)) = []"
      using frames True by (metis map_is_Nil_conv)
    ultimately show thesis using that [of msg ?s] rest clk all(4) True by (auto simp: seq_run_def)
  next
    case False
    then have "v2_iter e (msg, s) = Some (msg', ?s2)" using all by (simp add: v2_iter_def t)
    then show thesis using that [of msg' ?s2] gave rest clk all frames by simp
  qed
qed

lemma v2_drain_loop:
  assumes "fp_owned (v2_pool s) held" and "length (ready_frames (v2_pool s)) \<le> length (v2_clock s)"
    and "length (ready_frames (v2_pool s)) < length stops" and "\<not> v2_running s"
  shows "\<exists>s'. v2_process_loop e stops (msg, s) = Some s' \<and> fp_owned (v2_pool s') held \<and>
    ready_frames (v2_pool s') = [] \<and> v2_sm s' = seq_run (v2_sm s) (map frame_seq (ready_frames (v2_pool s)))"
  using assms
proof (induction stops arbitrary: msg s)
  case Nil
  then show ?case by simp
next
  case (Cons st stops)
  have same: "(if st then s\<lparr>v2_running := False\<rparr> else s) = s"
    using Cons.prems(4) by (cases s) simp
  have step: "v2_process_loop e (st # stops) (msg, s) =
      (if ready_frames (v2_pool s) = [] then Some s
       else do { ms' \<leftarrow> v2_iter e (msg, s); v2_process_loop e stops ms' })"
    unfolding v2_process_loop.simps snd_conv fst_conv same
    using Cons.prems(4) ready_empty_iff [OF Cons.prems(1)] by simp
  show ?case
  proof (cases "ready_frames (v2_pool s) = []")
    case True
    then show ?thesis
      using Cons.prems(1) unfolding step by (simp add: seq_run_def)
  next
    case False
    obtain msg1 s1 where s1: "v2_iter e (msg, s) = Some (msg1, s1)" "fp_owned (v2_pool s1) held"
      "ready_frames (v2_pool s1) = drop kBatch (ready_frames (v2_pool s))"
      "v2_sm s1 = seq_run (v2_sm s) (map frame_seq (take kBatch (ready_frames (v2_pool s))))"
      "v2_running s1 = v2_running s" "length (ready_frames (v2_pool s1)) \<le> length (v2_clock s1)"
      by (rule v2_iter_spec [OF Cons.prems(1,2)])
    have "length (ready_frames (v2_pool s1)) < length stops"
      using s1(3) False Cons.prems(3) by (cases "ready_frames (v2_pool s)") (auto simp: kBatch_def)
    from Cons.IH [OF s1(2,6) this, of msg1] Cons.prems(4) s1 False show ?thesis
      unfolding step by (auto simp flip: seq_run_append map_append)
  qed
qed

text \<open>
  C22. The consumer of engine v2 in batches of 32 does what the consumer of v1 does frame by
  frame: once \<^verbatim>\<open>running_\<close> is false and nothing more arrives, its loop returns, every waiting
  frame has been counted in order as the sequencing specification says, and the slots are
  free, whatever slots the I/O thread holds.
\<close>

theorem v2_shutdown_drains:
  assumes "fp_owned (v2_pool s) held" and "length (ready_frames (v2_pool s)) \<le> length (v2_clock s)"
    and "length (ready_frames (v2_pool s)) \<le> length stops"
  shows "\<exists>s'. v2_process_loop e (True # stops) (msg, s) = Some s' \<and> fp_owned (v2_pool s') held \<and>
    ready_frames (v2_pool s') = [] \<and> v2_sm s' = seq_run (v2_sm s) (map frame_seq (ready_frames (v2_pool s)))"
proof -
  let ?s = "s\<lparr>v2_running := False\<rparr>"
  have "v2_process_loop e (True # stops) (msg, s) = v2_process_loop e (True # stops) (msg, ?s)"
    by (simp add: Let_def)
  then show ?thesis
    using v2_drain_loop [of ?s held "True # stops" e msg] assms by (simp del: v2_process_loop.simps)
qed

theorem v2_shutdown_drains_witness:
  "\<exists>s'. v2_process_loop Big [True, False] (zero_msg, v2_demo\<lparr>v2_pool := v1_pool v1_one_frame\<rparr>) = Some s' \<and>
    fp_owned (v2_pool s') [] \<and> ready_frames (v2_pool s') = []"
proof -
  let ?s = "v2_demo\<lparr>v2_pool := v1_pool v1_one_frame\<rparr>"
  have "fp_owned (v2_pool ?s) []" "length (ready_frames (v2_pool ?s)) \<le> length (v2_clock ?s)"
    "length (ready_frames (v2_pool ?s)) \<le> length [False]"
    using v1_one_frame_facts by (simp_all add: v2_demo_def)
  from v2_shutdown_drains [OF this, of Big zero_msg] show ?thesis by blast
qed

end
