(* ===== verification/Engine_V2_Threads.thy ===== *)
theory Engine_V2_Threads
  imports Engine_V2
begin

text \<open>
  The threads of engine v2 (\<^verbatim>\<open>src/src/engine/v2/engine.cpp\<close>) together: the I/O thread, the
  consumer, the reporter with its timer, and the caller of \<^verbatim>\<open>receive\<close> and \<^verbatim>\<open>stop\<close>, who creates,
  joins and cleans up after them. Each thread has a program counter and its local variables; a
  step is one test of \<^verbatim>\<open>running_\<close>, one ring operation, one call of a member of the receiver, one
  system call of the reporter, one message processed, or one action of the caller, and the
  threads interleave between any two steps. Two simplifications remain: a call of the receiver
  does not overlap with \<^verbatim>\<open>receiver_.close()\<close>, and two pushes to the free ring do not overlap, although
  both can happen in the program; theory \<open>Ring_Concurrent\<close> shows what overlapping pushes do.
\<close>

section \<open>Program counters\<close>

text \<open>
  The I/O thread. The Boolean of reserving, receiving and failing says whether the thread is in
  the inner loop. A batch is kept as the received slots with their frames and the rest of the
  reserved slots. \<open>Io_quitting\<close> is the outer test after the inner test has failed with a batch
  in hand, \<open>Io_left\<close> the thread that has returned from there; every other return is \<open>Io_done\<close>.
\<close>

datatype io_next = To_outer | To_reserve | To_fail bool

datatype io2_pc =
    No_io
  | Io_started
  | Io_outer
  | Io_reserving bool "size_t list"
  | Io_receiving bool "size_t list"
  | Io_inner "(size_t \<times> RxFrame) list" "size_t list"
  | Io_publishing u64 "(size_t \<times> RxFrame) list" "size_t list"
  | Io_stamped u64 size_t RxFrame "(size_t \<times> RxFrame) list" "size_t list"
  | Io_rejected u64 size_t "(size_t \<times> RxFrame) list" "size_t list"
  | Io_releasing "size_t list" io_next
  | Io_failing bool
  | Io_failing_again
  | Io_quitting "(size_t \<times> RxFrame) list" "size_t list"
  | Io_left "(size_t \<times> RxFrame) list" "size_t list"
  | Io_done

text \<open>The consumer; while processing, the slots done and the slots still to do.\<close>

datatype co2_pc =
    No_co
  | Co_started
  | Co_test
  | Co_popping "size_t list"
  | Co_processing "size_t list" "size_t list"
  | Co_giving "size_t list"
  | Co_done

text \<open>The reporter, with its timer descriptor or, when it has none, sleeping.\<close>

datatype rep_pc =
    No_rep
  | Rep_started
  | Rep_arming int
  | Rep_test int
  | Rep_read int
  | Rep_recheck int
  | Rep_closing int
  | Rep_sleep_test
  | Rep_slept
  | Rep_done

text \<open>The caller, inside \<^verbatim>\<open>receive\<close> or \<^verbatim>\<open>stop\<close> or between calls.\<close>

datatype caller_pc =
    Stopped
  | Up
  | Start_io
  | Start_consumer
  | Await_started
  | Start_reporter
  | Stop_flag
  | Stop_close
  | Join_io
  | Join_consumer
  | Join_reporter
  | Stop_release

text \<open>
  The system. The ghost fields are the frames the receiver has filled since \<^verbatim>\<open>receive\<close>, those
  put into the ready ring, those the consumer has counted, the counters at the start, and the
  lines of the reporter.
\<close>

record v2_sys =
  en2 :: engine_v2
  io2 :: io2_pc
  co2 :: co2_pc
  msg2 :: MarketDataMsg
  rep2 :: rep_pc
  caller2 :: caller_pc
  arrived2 :: "RxFrame list"
  published2 :: "bytes list"
  counted2 :: "bytes list"
  start_m2 :: Metrics
  lines2 :: "string list"

abbreviation pl2 :: "v2_sys \<Rightarrow> FramePool" where
  "pl2 s \<equiv> v2_pool (en2 s)"

abbreviation set_pl2 :: "FramePool \<Rightarrow> v2_sys \<Rightarrow> v2_sys" where
  "set_pl2 p s \<equiv> s\<lparr>en2 := (en2 s)\<lparr>v2_pool := p\<rparr>\<rparr>"

abbreviation running2 :: "v2_sys \<Rightarrow> bool" where
  "running2 s \<equiv> v2_running (en2 s)"

abbreviation clear_running :: "v2_sys \<Rightarrow> v2_sys" where
  "clear_running s \<equiv> s\<lparr>en2 := (en2 s)\<lparr>v2_running := False\<rparr>\<rparr>"

section \<open>The I/O thread\<close>

abbreviation rejected :: "RxFrame \<Rightarrow> bool" where
  "rejected f \<equiv> rf_truncated f \<or> rf_len f \<noteq> kWireSize"

definition drop_slot :: "size_t \<Rightarrow> v2_sys \<Rightarrow> v2_sys" where
  "drop_slot i s = s\<lparr>en2 := (en2 s)\<lparr>v2_m := inc_drops 1 (v2_m (en2 s)), v2_ns := (v2_ns (en2 s))[unat i := 0]\<rparr>\<rparr>"

fun next_pc :: "io_next \<Rightarrow> io2_pc" where
  "next_pc To_outer = Io_outer"
| "next_pc To_reserve = Io_reserving True []"
| "next_pc (To_fail inner) = Io_failing inner"

inductive io_step :: "v2_sys \<Rightarrow> v2_sys \<Rightarrow> bool" where
  io_begin: "io2 s = Io_started \<Longrightarrow> io_step s (s\<lparr>io2 := Io_outer\<rparr>)"
| outer_in: "io2 s = Io_outer \<Longrightarrow> running2 s \<Longrightarrow> io_step s (s\<lparr>io2 := Io_reserving False []\<rparr>)"
| outer_out: "io2 s = Io_outer \<Longrightarrow> \<not> running2 s \<Longrightarrow> io_step s (s\<lparr>io2 := Io_done\<rparr>)"
| reserve_one: "io2 s = Io_reserving inner idx \<Longrightarrow> length idx < kBatch \<Longrightarrow> free_pop (pl2 s) = (Some i, p) \<Longrightarrow>
    io_step s ((set_pl2 p s)\<lparr>io2 := Io_reserving inner (idx @ [i])\<rparr>)"
| reserve_end: "io2 s = Io_reserving inner idx \<Longrightarrow> length idx = kBatch \<or> free_pop (pl2 s) = (None, p) \<Longrightarrow>
    io_step s (s\<lparr>io2 := (if idx = [] then Io_outer else Io_receiving inner idx)\<rparr>)"
| receive_some: "io2 s = Io_receiving inner idx \<Longrightarrow>
    receive_into (if inner then receive_batch else epoll_receive) idx (en2 s) = Some (n, fs, en) \<Longrightarrow> 0 < n \<Longrightarrow>
    io_step s (s\<lparr>en2 := en, io2 := Io_inner (zip (take (nat n) idx) fs) (drop (nat n) idx),
      arrived2 := arrived2 s @ take (nat n) fs\<rparr>)"
| receive_none: "io2 s = Io_receiving inner idx \<Longrightarrow>
    receive_into (if inner then receive_batch else epoll_receive) idx (en2 s) = Some (0, fs, en) \<Longrightarrow>
    io_step s (s\<lparr>en2 := en, io2 := Io_releasing idx To_outer\<rparr>)"
| receive_fail: "io2 s = Io_receiving inner idx \<Longrightarrow>
    receive_into (if inner then receive_batch else epoll_receive) idx (en2 s) = Some (n, fs, en) \<Longrightarrow> n < 0 \<Longrightarrow>
    io_step s (s\<lparr>en2 := en, io2 := Io_releasing idx (To_fail inner)\<rparr>)"
| inner_in: "io2 s = Io_inner xs rest \<Longrightarrow> running2 s \<Longrightarrow> tick (en2 s) = Some (t, en) \<Longrightarrow>
    io_step s (s\<lparr>en2 := en, io2 := Io_publishing t xs rest\<rparr>)"
| inner_out: "io2 s = Io_inner xs rest \<Longrightarrow> \<not> running2 s \<Longrightarrow> io_step s (s\<lparr>io2 := Io_quitting xs rest\<rparr>)"
| reject: "io2 s = Io_publishing t ((i, f) # xs) rest \<Longrightarrow> rejected f \<Longrightarrow>
    io_step s ((drop_slot i s)\<lparr>io2 := Io_rejected t i xs rest\<rparr>)"
| stamp: "io2 s = Io_publishing t ((i, f) # xs) rest \<Longrightarrow> \<not> rejected f \<Longrightarrow>
    io_step s (s\<lparr>en2 := (en2 s)\<lparr>v2_ns := (v2_ns (en2 s))[unat i := t]\<rparr>, io2 := Io_stamped t i f xs rest\<rparr>)"
| push_ready: "io2 s = Io_stamped t i f xs rest \<Longrightarrow> ready_push (pl2 s) i = (True, p) \<Longrightarrow>
    io_step s ((set_pl2 p s)\<lparr>io2 := Io_publishing t xs rest, published2 := published2 s @ [slots (pl2 s) ! unat i]\<rparr>)"
| push_refused: "io2 s = Io_stamped t i f xs rest \<Longrightarrow> ready_push (pl2 s) i = (False, p) \<Longrightarrow>
    io_step s ((drop_slot i (set_pl2 p s))\<lparr>io2 := Io_rejected t i xs rest\<rparr>)"
| push_rejected: "io2 s = Io_rejected t i xs rest \<Longrightarrow> free_push (pl2 s) i = (ok, p) \<Longrightarrow>
    io_step s ((set_pl2 p s)\<lparr>io2 := Io_publishing t xs rest\<rparr>)"
| published: "io2 s = Io_publishing t [] rest \<Longrightarrow> io_step s (s\<lparr>io2 := Io_releasing rest To_reserve\<rparr>)"
| release_one: "io2 s = Io_releasing (i # idx) nxt \<Longrightarrow> free_push (pl2 s) i = (ok, p) \<Longrightarrow>
    io_step s ((set_pl2 p s)\<lparr>io2 := Io_releasing idx nxt\<rparr>)"
| release_end: "io2 s = Io_releasing [] nxt \<Longrightarrow> io_step s (s\<lparr>io2 := next_pc nxt\<rparr>)"
| fail_clear: "io2 s = Io_failing inner \<or> io2 s = Io_failing_again \<Longrightarrow> running2 s \<Longrightarrow>
    io_step s ((clear_running s)\<lparr>io2 := Io_done\<rparr>)"
| fail_stopped: "io2 s = Io_failing inner \<Longrightarrow> \<not> running2 s \<Longrightarrow>
    io_step s (s\<lparr>io2 := (if inner then Io_failing_again else Io_done)\<rparr>)"
| fail_stopped_again: "io2 s = Io_failing_again \<Longrightarrow> \<not> running2 s \<Longrightarrow> io_step s (s\<lparr>io2 := Io_outer\<rparr>)"
| leave: "io2 s = Io_quitting xs rest \<Longrightarrow> \<not> running2 s \<Longrightarrow> io_step s (s\<lparr>io2 := Io_left xs rest\<rparr>)"

section \<open>The consumer\<close>

inductive co_step :: "endian \<Rightarrow> v2_sys \<Rightarrow> v2_sys \<Rightarrow> bool" for e where
  co_begin: "co2 s = Co_started \<Longrightarrow> co_step e s (s\<lparr>co2 := Co_test\<rparr>)"
| co_in: "co2 s = Co_test \<Longrightarrow> running2 s \<or> \<not> rb_empty (ready (pl2 s)) \<Longrightarrow> co_step e s (s\<lparr>co2 := Co_popping []\<rparr>)"
| co_out: "co2 s = Co_test \<Longrightarrow> \<not> running2 s \<Longrightarrow> rb_empty (ready (pl2 s)) \<Longrightarrow> co_step e s (s\<lparr>co2 := Co_done\<rparr>)"
| co_pop: "co2 s = Co_popping idx \<Longrightarrow> length idx < kBatch \<Longrightarrow> ready_pop (pl2 s) = (Some i, p) \<Longrightarrow>
    co_step e s ((set_pl2 p s)\<lparr>co2 := Co_popping (idx @ [i])\<rparr>)"
| co_popped: "co2 s = Co_popping idx \<Longrightarrow> length idx = kBatch \<or> ready_pop (pl2 s) = (None, p) \<Longrightarrow>
    co_step e s (s\<lparr>co2 := (if idx = [] then Co_test else Co_processing [] idx)\<rparr>)"
| co_process: "co2 s = Co_processing ds (i # todo) \<Longrightarrow> v2_process e i (msg2 s, en2 s) = Some (msg, en) \<Longrightarrow>
    co_step e s (s\<lparr>en2 := en, msg2 := msg, co2 := Co_processing (ds @ [i]) todo,
      counted2 := counted2 s @ [slots (pl2 s) ! unat i]\<rparr>)"
| co_processed: "co2 s = Co_processing ds [] \<Longrightarrow> co_step e s (s\<lparr>co2 := Co_giving ds\<rparr>)"
| co_give: "co2 s = Co_giving (i # idx) \<Longrightarrow> free_push (pl2 s) i = (ok, p) \<Longrightarrow>
    co_step e s ((set_pl2 p s)\<lparr>co2 := Co_giving idx\<rparr>)"
| co_gave: "co2 s = Co_giving [] \<Longrightarrow> co_step e s (s\<lparr>co2 := Co_test\<rparr>)"

section \<open>The reporter\<close>

definition report :: "v2_sys \<Rightarrow> v2_sys" where
  "report s = (let (snap, lat) = snapshot_latency (v2_lat (en2 s)) in
     s\<lparr>en2 := (en2 s)\<lparr>v2_lat := lat\<rparr>, lines2 := lines2 s @ [v2_report_line (v2_m (en2 s)) snap]\<rparr>)"

abbreviation set_w2 :: "world \<Rightarrow> v2_sys \<Rightarrow> v2_sys" where
  "set_w2 w s \<equiv> s\<lparr>en2 := (en2 s)\<lparr>v2_w := w\<rparr>\<rparr>"

inductive rep_step :: "v2_sys \<Rightarrow> v2_sys \<Rightarrow> bool" where
  timer_made: "rep2 s = Rep_started \<Longrightarrow> sys Sys_timerfd_create (v2_w (en2 s)) = Some (Ret fd, w) \<Longrightarrow>
    rep_step s ((set_w2 w s)\<lparr>rep2 := Rep_arming (int fd)\<rparr>)"
| timer_failed: "rep2 s = Rep_started \<Longrightarrow> sys Sys_timerfd_create (v2_w (en2 s)) = Some (Fail err, w) \<Longrightarrow>
    rep_step s ((set_w2 w s)\<lparr>rep2 := Rep_sleep_test\<rparr>)"
| timer_armed: "rep2 s = Rep_arming fd \<Longrightarrow> sys (Sys_timerfd_settime fd 5) (v2_w (en2 s)) = Some (r, w) \<Longrightarrow>
    rep_step s ((set_w2 w s)\<lparr>rep2 := Rep_test fd\<rparr>)"
| rep_test: "rep2 s = Rep_test fd \<Longrightarrow>
    rep_step s (s\<lparr>rep2 := (if running2 s then Rep_read fd else Rep_closing fd)\<rparr>)"
| rep_read: "rep2 s = Rep_read fd \<Longrightarrow> sys (Sys_read fd) (v2_w (en2 s)) = Some (Ret k, w) \<Longrightarrow>
    rep_step s ((set_w2 w s)\<lparr>rep2 := Rep_recheck fd\<rparr>)"
| rep_read_failed: "rep2 s = Rep_read fd \<Longrightarrow> sys (Sys_read fd) (v2_w (en2 s)) = Some (Fail err, w) \<Longrightarrow>
    rep_step s ((set_w2 w s)\<lparr>rep2 := (if err = EINTR then Rep_test fd else Rep_closing fd)\<rparr>)"
| rep_report: "rep2 s = Rep_recheck fd \<Longrightarrow> running2 s \<Longrightarrow> rep_step s ((report s)\<lparr>rep2 := Rep_test fd\<rparr>)"
| rep_stop: "rep2 s = Rep_recheck fd \<Longrightarrow> \<not> running2 s \<Longrightarrow> rep_step s (s\<lparr>rep2 := Rep_closing fd\<rparr>)"
| rep_close: "rep2 s = Rep_closing fd \<Longrightarrow>
    rep_step s ((set_w2 (sys_close fd (v2_w (en2 s))) s)\<lparr>rep2 := Rep_done\<rparr>)"
| rep_sleep: "rep2 s = Rep_sleep_test \<Longrightarrow>
    rep_step s (s\<lparr>rep2 := (if running2 s then Rep_slept else Rep_done)\<rparr>)"
| rep_sleep_report: "rep2 s = Rep_slept \<Longrightarrow> running2 s \<Longrightarrow> rep_step s ((report s)\<lparr>rep2 := Rep_sleep_test\<rparr>)"
| rep_sleep_stop: "rep2 s = Rep_slept \<Longrightarrow> \<not> running2 s \<Longrightarrow> rep_step s (s\<lparr>rep2 := Rep_done\<rparr>)"

section \<open>The caller\<close>

text \<open>
  \<^verbatim>\<open>receive\<close> is called on a stopped engine or on a running one. Creating a thread may fail, and
  then \<^verbatim>\<open>receive\<close> stops the engine; assigning to a joinable thread object would end the program,
  so these rules require that it is not joinable. \<^verbatim>\<open>stop\<close> joins the threads that are joinable,
  which takes them to have returned; a joined thread keeps its last position until the next
  \<^verbatim>\<open>receive\<close>.
\<close>

fun io_finished :: "io2_pc \<Rightarrow> bool" where
  "io_finished Io_done = True"
| "io_finished (Io_left xs rest) = True"
| "io_finished _ = False"

inductive receive_step :: "v2_sys \<Rightarrow> v2_sys \<Rightarrow> bool" where
  call_receive: "caller2 s = Stopped \<Longrightarrow> v2_prepare inet na alloc junk cfg (en2 s) = Some (ok, en) \<Longrightarrow>
    receive_step s (s\<lparr>en2 := en, caller2 := (if ok then Start_io else Stopped), io2 := No_io, co2 := No_co, rep2 := No_rep,
      arrived2 := [], published2 := [], counted2 := [], start_m2 := v2_m (en2 s)\<rparr>)"
| call_receive_running: "caller2 s = Up \<Longrightarrow> running2 s \<Longrightarrow>
    v2_prepare inet na alloc junk cfg (en2 s) = Some (ok, en) \<Longrightarrow> receive_step s (s\<lparr>en2 := en\<rparr>)"
| io_created: "caller2 s = Start_io \<Longrightarrow> \<not> v2_io (en2 s) \<Longrightarrow>
    receive_step s (s\<lparr>en2 := (en2 s)\<lparr>v2_io := True\<rparr>, io2 := Io_started, caller2 := Start_consumer\<rparr>)"
| consumer_created: "caller2 s = Start_consumer \<Longrightarrow> \<not> v2_consumer (en2 s) \<Longrightarrow>
    receive_step s (s\<lparr>en2 := (en2 s)\<lparr>v2_consumer := True\<rparr>, co2 := Co_started, msg2 := zero_msg, caller2 := Await_started\<rparr>)"
| create_failed: "caller2 s = Start_io \<or> caller2 s = Start_consumer \<or> caller2 s = Start_reporter \<Longrightarrow>
    receive_step s (s\<lparr>caller2 := Stop_flag\<rparr>)"
| both_started: "caller2 s = Await_started \<Longrightarrow> io2 s \<noteq> Io_started \<Longrightarrow> co2 s \<noteq> Co_started \<Longrightarrow>
    receive_step s (s\<lparr>caller2 := Start_reporter\<rparr>)"
| reporter_created: "caller2 s = Start_reporter \<Longrightarrow> \<not> v2_reporter (en2 s) \<Longrightarrow>
    receive_step s (s\<lparr>en2 := (en2 s)\<lparr>v2_reporter := True\<rparr>, rep2 := Rep_started, caller2 := Up\<rparr>)"

inductive stop_step :: "v2_sys \<Rightarrow> v2_sys \<Rightarrow> bool" where
  call_stop: "caller2 s = Up \<or> caller2 s = Stopped \<Longrightarrow> stop_step s (s\<lparr>caller2 := Stop_flag\<rparr>)"
| stop_flag: "caller2 s = Stop_flag \<Longrightarrow> stop_step s ((clear_running s)\<lparr>caller2 := Stop_close\<rparr>)"
| stop_close: "caller2 s = Stop_close \<Longrightarrow> receiver_close (v2_recv (en2 s)) (v2_w (en2 s)) = (r, w) \<Longrightarrow>
    stop_step s (s\<lparr>en2 := (en2 s)\<lparr>v2_recv := r, v2_w := w\<rparr>, caller2 := Join_io\<rparr>)"
| join_io: "caller2 s = Join_io \<Longrightarrow> v2_io (en2 s) \<longrightarrow> io_finished (io2 s) \<Longrightarrow>
    stop_step s (s\<lparr>en2 := (en2 s)\<lparr>v2_io := False\<rparr>, caller2 := Join_consumer\<rparr>)"
| join_consumer: "caller2 s = Join_consumer \<Longrightarrow> v2_consumer (en2 s) \<longrightarrow> co2 s = Co_done \<Longrightarrow>
    stop_step s (s\<lparr>en2 := (en2 s)\<lparr>v2_consumer := False\<rparr>, caller2 := Join_reporter\<rparr>)"
| join_reporter: "caller2 s = Join_reporter \<Longrightarrow> v2_reporter (en2 s) \<longrightarrow> rep2 s = Rep_done \<Longrightarrow>
    stop_step s (s\<lparr>en2 := (en2 s)\<lparr>v2_reporter := False\<rparr>, caller2 := Stop_release\<rparr>)"
| stop_release: "caller2 s = Stop_release \<Longrightarrow>
    stop_step s (s\<lparr>en2 := release_pool (en2 s), caller2 := Stopped\<rparr>)"

section \<open>The system\<close>

definition v2_new :: "world \<Rightarrow> u64 list \<Rightarrow> engine_v2" where
  "v2_new w clock = \<lparr>expected_seq_num = 0, seq_initialized = False, v2_running = False, v2_recv = receiver_new,
     v2_m = metrics_zero, v2_io = False, v2_consumer = False, v2_reporter = False, v2_has_pool = False,
     v2_on_numa = False, v2_live = {#}, v2_pool = fp_new kPoolCapacity 0, v2_ns = replicate (unat kPoolCapacity) 0,
     v2_lat = latency_reset, v2_w = w, v2_clock = clock\<rparr>"

definition v2_start :: "world \<Rightarrow> u64 list \<Rightarrow> v2_sys" where
  "v2_start w clock = \<lparr>en2 = v2_new w clock, io2 = No_io, co2 = No_co, msg2 = zero_msg, rep2 = No_rep,
     caller2 = Stopped, arrived2 = [], published2 = [], counted2 = [], start_m2 = metrics_zero, lines2 = []\<rparr>"

inductive v2_reach :: "endian \<Rightarrow> world \<Rightarrow> u64 list \<Rightarrow> v2_sys \<Rightarrow> bool" for e w clock where
  v2_reach_start: "v2_reach e w clock (v2_start w clock)"
| v2_reach_step: "v2_reach e w clock s \<Longrightarrow>
    io_step s s' \<or> co_step e s s' \<or> rep_step s s' \<or> receive_step s s' \<or> stop_step s s' \<Longrightarrow> v2_reach e w clock s'"

end
