(* ===== verification/Engine_V2_Safety.thy ===== *)
theory Engine_V2_Safety
  imports Engine_V2_Threads
begin

text \<open>
  What every reachable state of the threads of engine v2 satisfies: the control invariant, the
  resources (memory, descriptors, threads) over any number of starts and stops, and the
  conservation of slots, frames and counters.
\<close>

section \<open>What the threads leave alone\<close>

text \<open>The members that only the caller changes, the flag, which threads only clear, and the descriptors.\<close>

definition holdings :: "engine_v2 \<Rightarrow> bool multiset \<times> bool \<times> bool \<times> bool \<times> bool \<times> bool" where
  "holdings s = (v2_live s, v2_has_pool s, v2_on_numa s, v2_io s, v2_consumer s, v2_reporter s)"

abbreviation closed2 :: "engine_v2 \<Rightarrow> bool" where
  "closed2 s \<equiv> rx_fd (v2_recv s) < 0"

definition owns :: "int multiset \<Rightarrow> engine_v2 \<Rightarrow> bool" where
  "owns base s \<longleftrightarrow> receiver_holds base (v2_recv s) (v2_w s)"

definition keeps :: "engine_v2 \<Rightarrow> engine_v2 \<Rightarrow> bool" where
  "keeps s s' \<longleftrightarrow> holdings s' = holdings s \<and> (v2_running s' \<longrightarrow> v2_running s) \<and> (closed2 s \<longrightarrow> closed2 s') \<and>
     (\<forall>base. owns base s \<longrightarrow> owns base s')"

lemmas keeps_defs = keeps_def holdings_def owns_def

lemma keeps_refl [simp]: "keeps s s"
  by (simp add: keeps_def)

lemma keeps_trans: "keeps s s1 \<Longrightarrow> keeps s1 s2 \<Longrightarrow> keeps s s2"
  by (simp add: keeps_def)

lemma keeps_upd [simp]:
  "keeps s (t\<lparr>v2_m := a\<rparr>) = keeps s t" "keeps s (t\<lparr>v2_ns := b\<rparr>) = keeps s t"
  "keeps s (t\<lparr>v2_lat := c\<rparr>) = keeps s t" "keeps s (t\<lparr>v2_pool := d\<rparr>) = keeps s t"
  "keeps s (t\<lparr>v2_clock := f\<rparr>) = keeps s t" "keeps s (t\<lparr>expected_seq_num := g\<rparr>) = keeps s t"
  "keeps s (t\<lparr>seq_initialized := h\<rparr>) = keeps s t" "keeps s t \<Longrightarrow> keeps s (t\<lparr>v2_running := False\<rparr>)"
  by (simp_all add: keeps_defs)

lemma ensure_epoll_fd: "ensure_epoll r w = Some (ok, r', w') \<Longrightarrow> rx_fd r' = rx_fd r"
  unfolding ensure_epoll_def by (auto split: if_splits elim!: call_Some)

lemma receive_batch_fd: "receive_batch r fs c w = Some (n, r', fs', w') \<Longrightarrow> rx_fd r' = rx_fd r"
  by (auto simp: receive_batch_def bind_eq_Some_conv dest!: batch_loop_fds split: if_splits option.splits)

lemma epoll_receive_fd:
  assumes "epoll_receive r fs c w = Some (n, r', fs', w')"
  shows "rx_fd r' = rx_fd r"
  using assms by (cases rule: epoll_receive_cases) (auto dest!: ensure_epoll_fd receive_batch_fd)

lemma receive_into_keeps:
  assumes "receive_into (if inner then receive_batch else epoll_receive) idx s = Some (n, fs, s')"
  shows "keeps s s'"
  using assms
  by (cases inner) (auto simp: receive_into_def bind_eq_Some_conv keeps_defs
      dest: epoll_receive_fd receive_batch_fd intro: epoll_receive_holds receive_batch_holds)

lemma tick_keeps: "tick s = Some (t, s') \<Longrightarrow> keeps s s'"
  by (auto simp: tick_def keeps_defs split: list.splits)

lemma on_message_keeps [simp]: "keeps s (v2_on_message s n)"
  by (simp add: v2_on_message_def Let_def)

lemma process_keeps:
  assumes "v2_process e i (msg, s) = Some (msg', s')"
  shows "keeps s s'"
proof -
  from assms obtain ok m where d: "decode e (slots (v2_pool s) ! unat i) kWireSize msg = Some (ok, m)"
    by (auto simp: v2_process_def Let_def bind_eq_Some_conv split: if_splits)
  define s1 where "s1 = (if ok then v2_on_message s (seq_num m) else s\<lparr>v2_m := inc_decode_error 1 (v2_m s)\<rparr>)"
  have k: "keeps s (s1\<lparr>v2_ns := (v2_ns s1)[unat i := 0]\<rparr>)" by (simp add: s1_def)
  from assms d obtain t s2 where tk: "tick (s1\<lparr>v2_ns := (v2_ns s1)[unat i := 0]\<rparr>) = Some (t, s2)"
    and s': "s' = s2 \<or> (\<exists>l. s' = s2\<lparr>v2_lat := l\<rparr>)"
    by (auto simp: v2_process_def Let_def bind_eq_Some_conv s1_def [symmetric] split: if_splits)
  from s' keeps_trans [OF k tick_keeps [OF tk]] show ?thesis by auto
qed

lemma io_step_keeps:
  assumes "io_step s s'"
  shows "keeps (en2 s) (en2 s') \<and> rep2 s' = rep2 s \<and> co2 s' = co2 s \<and> caller2 s' = caller2 s \<and> start_m2 s' = start_m2 s \<and>
    counted2 s' = counted2 s"
  using assms by (induction rule: io_step.induct) (auto simp: drop_slot_def dest: receive_into_keeps tick_keeps)

lemma co_step_keeps:
  assumes "co_step e s s'"
  shows "keeps (en2 s) (en2 s') \<and> rep2 s' = rep2 s \<and> io2 s' = io2 s \<and> caller2 s' = caller2 s \<and> start_m2 s' = start_m2 s \<and>
    arrived2 s' = arrived2 s \<and> published2 s' = published2 s"
  using assms by (induction rule: co_step.induct) (auto dest: process_keeps)

lemma rep_step_keeps:
  assumes "rep_step s s'"
  shows "io2 s' = io2 s \<and> co2 s' = co2 s \<and> caller2 s' = caller2 s \<and> holdings (en2 s') = holdings (en2 s) \<and>
    v2_running (en2 s') = v2_running (en2 s) \<and> v2_recv (en2 s') = v2_recv (en2 s) \<and> pl2 s' = pl2 s \<and>
    v2_sm (en2 s') = v2_sm (en2 s) \<and> v2_clock (en2 s') = v2_clock (en2 s) \<and> start_m2 s' = start_m2 s \<and>
    arrived2 s' = arrived2 s \<and> published2 s' = published2 s \<and> counted2 s' = counted2 s"
  using assms by (induction rule: rep_step.induct)
    (auto simp: report_def holdings_def seq_state.defs Let_def split: prod.splits)

section \<open>Control\<close>

abbreviation io_idle :: "io2_pc \<Rightarrow> bool" where
  "io_idle at \<equiv> at = No_io \<or> io_finished at"

abbreviation co_idle :: "co2_pc \<Rightarrow> bool" where
  "co_idle at \<equiv> at = No_co \<or> at = Co_done"

abbreviation rep_idle :: "rep_pc \<Rightarrow> bool" where
  "rep_idle at \<equiv> at = No_rep \<or> at = Rep_done"

text \<open>
  What the caller's position says: the pool is there, the flag may be set, the receiver is
  closed, which threads are joinable, and that no I/O thread has existed yet.
\<close>

primrec caller_ok :: "caller_pc \<Rightarrow> bool \<Rightarrow> bool \<Rightarrow> bool \<Rightarrow> bool \<Rightarrow> bool \<Rightarrow> bool \<Rightarrow> bool \<Rightarrow> bool" where
  "caller_ok Stopped pool run closed i c r new \<longleftrightarrow> \<not> pool \<and> closed"
| "caller_ok Up pool run closed i c r new \<longleftrightarrow> pool \<and> i \<and> c \<and> r"
| "caller_ok Start_io pool run closed i c r new \<longleftrightarrow> pool \<and> \<not> i \<and> \<not> c \<and> \<not> r \<and> new"
| "caller_ok Start_consumer pool run closed i c r new \<longleftrightarrow> pool \<and> i \<and> \<not> c \<and> \<not> r"
| "caller_ok Await_started pool run closed i c r new \<longleftrightarrow> pool \<and> i \<and> c \<and> \<not> r"
| "caller_ok Start_reporter pool run closed i c r new \<longleftrightarrow> pool \<and> i \<and> c \<and> \<not> r"
| "caller_ok Stop_flag pool run closed i c r new \<longleftrightarrow> True"
| "caller_ok Stop_close pool run closed i c r new \<longleftrightarrow> \<not> run"
| "caller_ok Join_io pool run closed i c r new \<longleftrightarrow> \<not> run \<and> closed"
| "caller_ok Join_consumer pool run closed i c r new \<longleftrightarrow> \<not> run \<and> closed \<and> \<not> i"
| "caller_ok Join_reporter pool run closed i c r new \<longleftrightarrow> \<not> run \<and> closed \<and> \<not> i \<and> \<not> c"
| "caller_ok Stop_release pool run closed i c r new \<longleftrightarrow> \<not> run \<and> closed \<and> \<not> i \<and> \<not> c \<and> \<not> r"

fun given_up :: "io2_pc \<Rightarrow> bool" where
  "given_up (Io_quitting xs rest) = True"
| "given_up (Io_left xs rest) = True"
| "given_up _ = False"

definition ctl_inv :: "v2_sys \<Rightarrow> bool" where
  "ctl_inv s \<longleftrightarrow>
     caller_ok (caller2 s) (v2_has_pool (en2 s)) (running2 s) (closed2 (en2 s)) (v2_io (en2 s)) (v2_consumer (en2 s))
       (v2_reporter (en2 s)) (io2 s = No_io) \<and>
     (v2_io (en2 s) \<or> io_idle (io2 s)) \<and> (v2_consumer (en2 s) \<or> co_idle (co2 s)) \<and>
     (v2_reporter (en2 s) \<or> rep_idle (rep2 s)) \<and>
     (v2_has_pool (en2 s) \<or> \<not> v2_io (en2 s) \<and> \<not> v2_consumer (en2 s) \<and> \<not> v2_reporter (en2 s) \<and> \<not> running2 s) \<and>
     (given_up (io2 s) \<longrightarrow> \<not> running2 s)"

text \<open>A thread that is idle has no step, so a thread that steps is joinable.\<close>

lemma io_step_pcs: "io_step s s' \<Longrightarrow> \<not> io_idle (io2 s) \<and> io2 s' \<noteq> No_io \<and> (given_up (io2 s') \<longrightarrow> \<not> running2 s')"
proof (induction rule: io_step.induct)
  case (release_end s nxt)
  then show ?case by (cases nxt) auto
qed auto

lemma co_step_pcs: "co_step e s s' \<Longrightarrow> \<not> co_idle (co2 s)"
  by (induction rule: co_step.induct) auto

lemma rep_step_pcs: "rep_step s s' \<Longrightarrow> \<not> rep_idle (rep2 s)"
  by (induction rule: rep_step.induct) auto

lemma ctl_inv_frame:
  assumes "ctl_inv s" and "holdings (en2 s') = holdings (en2 s)" and "running2 s' \<longrightarrow> running2 s"
    and "closed2 (en2 s) \<longrightarrow> closed2 (en2 s')" and "caller2 s' = caller2 s"
    and "io2 s' = io2 s \<or> v2_io (en2 s) \<and> io2 s' \<noteq> No_io \<and> (given_up (io2 s') \<longrightarrow> \<not> running2 s')"
    and "co2 s' = co2 s \<or> v2_consumer (en2 s)" and "rep2 s' = rep2 s \<or> v2_reporter (en2 s)"
  shows "ctl_inv s'"
proof -
  have h: "v2_has_pool (en2 s') = v2_has_pool (en2 s)" "v2_io (en2 s') = v2_io (en2 s)"
    "v2_consumer (en2 s') = v2_consumer (en2 s)" "v2_reporter (en2 s') = v2_reporter (en2 s)"
    using assms(2) by (simp_all add: holdings_def)
  have ok: "caller_ok (caller2 s) (v2_has_pool (en2 s)) (running2 s) (closed2 (en2 s)) (v2_io (en2 s)) (v2_consumer (en2 s))
       (v2_reporter (en2 s)) (io2 s = No_io)" using assms(1) by (simp add: ctl_inv_def)
  have "caller_ok (caller2 s') (v2_has_pool (en2 s)) (running2 s') (closed2 (en2 s')) (v2_io (en2 s)) (v2_consumer (en2 s))
       (v2_reporter (en2 s)) (io2 s' = No_io)"
    using ok assms(3-6) by (cases "caller2 s") auto
  moreover have "v2_io (en2 s) \<or> io_idle (io2 s')" "given_up (io2 s') \<longrightarrow> \<not> running2 s'"
    using assms(1,3,6) by (auto simp: ctl_inv_def)
  moreover have "v2_consumer (en2 s) \<or> co_idle (co2 s')" "v2_reporter (en2 s) \<or> rep_idle (rep2 s')"
    using assms(1,7,8) by (auto simp: ctl_inv_def)
  moreover have "v2_has_pool (en2 s) \<or> \<not> v2_io (en2 s) \<and> \<not> v2_consumer (en2 s) \<and> \<not> v2_reporter (en2 s) \<and> \<not> running2 s'"
    using assms(1,3) by (auto simp: ctl_inv_def)
  ultimately show ?thesis by (simp add: ctl_inv_def h)
qed

lemma ctl_inv_io:
  assumes "io_step s s'" and "ctl_inv s"
  shows "ctl_inv s'"
proof (rule ctl_inv_frame [OF assms(2)])
  note k = io_step_keeps [OF assms(1)]
  have "v2_io (en2 s)" using io_step_pcs [OF assms(1)] assms(2) by (auto simp: ctl_inv_def)
  then show "io2 s' = io2 s \<or> v2_io (en2 s) \<and> io2 s' \<noteq> No_io \<and> (given_up (io2 s') \<longrightarrow> \<not> running2 s')"
    using io_step_pcs [OF assms(1)] by simp
qed (use io_step_keeps [OF assms(1)] in \<open>simp_all add: keeps_def\<close>)

lemma ctl_inv_co:
  assumes "co_step e s s'" and "ctl_inv s"
  shows "ctl_inv s'"
proof (rule ctl_inv_frame [OF assms(2)])
  show "co2 s' = co2 s \<or> v2_consumer (en2 s)" using co_step_pcs [OF assms(1)] assms(2) by (auto simp: ctl_inv_def)
qed (use co_step_keeps [OF assms(1)] in \<open>simp_all add: keeps_def\<close>)

lemma ctl_inv_rep:
  assumes "rep_step s s'" and "ctl_inv s"
  shows "ctl_inv s'"
proof (rule ctl_inv_frame [OF assms(2)])
  show "rep2 s' = rep2 s \<or> v2_reporter (en2 s)" using rep_step_pcs [OF assms(1)] assms(2) by (auto simp: ctl_inv_def)
qed (use rep_step_keeps [OF assms(1)] in simp_all)

section \<open>The caller's steps\<close>

text \<open>What the part of \<^verbatim>\<open>receive\<close> before the threads does, on a stopped engine.\<close>

lemma fp_create:
  assumes "create_frame_pool na alloc junk = (Inr p, on_numa)"
  shows "fp_owned p [] \<and> ready_frames p = []"
proof -
  have "p = fp_init (fp_new kPoolCapacity junk)"
    using assms by (auto simp: create_frame_pool_def numa_create_def split: if_splits)
  moreover have "fp_inv (fp_new kPoolCapacity junk)"
    by (rule fp_new_inv) (simp add: rb_static_ok_def kPoolCapacity_def)
  ultimately show ?thesis using fp_init_owned [of "fp_new kPoolCapacity junk"] by (simp add: ready_frames_def)
qed

lemma receiver_open_closed:
  assumes "receiver_holds base r w" and "receiver_open inet cfg r w = Some (False, r1, w1)"
  shows "rx_fd r1 < 0"
  using receiver_no_leak [OF assms] by (auto simp: receiver_holds_def split: if_splits)

lemma v2_prepare_cases:
  assumes "v2_prepare inet na alloc junk cfg s = Some (ok, s')" and "\<not> v2_running s" and "\<not> v2_has_pool s"
    and "v2_live s = {#}" and "owns base s" and "closed2 s"
  shows "owns base s' \<and> v2_io s' = v2_io s \<and> v2_consumer s' = v2_consumer s \<and> v2_reporter s' = v2_reporter s \<and>
    v2_m s' = v2_m s \<and> v2_running s' = ok \<and> v2_has_pool s' = ok \<and>
    v2_live s' = (if ok then {#v2_on_numa s'#} else {#}) \<and> (\<not> ok \<longrightarrow> closed2 s') \<and>
    (ok \<longrightarrow> fp_owned (v2_pool s') [] \<and> ready_frames (v2_pool s') = [] \<and>
      seq_state.truncate s' = \<lparr>expected_seq_num = 0, seq_initialized = False\<rparr>)"
proof -
  obtain res on where cp: "create_frame_pool na alloc junk = (res, on)" by fastforce
  show ?thesis
  proof (cases res)
    case (Inl err)
    with assms cp show ?thesis by (auto simp: v2_prepare_def owns_def Let_def)
  next
    case (Inr p)
    obtain b r w where op: "receiver_open inet cfg (v2_recv s) (v2_w s) = Some (b, r, w)"
      using assms(1,2) cp Inr by (auto simp: v2_prepare_def Let_def bind_eq_Some_conv)
    have own: "receiver_holds base r w" using receiver_no_leak [OF _ op] assms(5) by (simp add: owns_def)
    have cl: "\<not> b \<longrightarrow> rx_fd r < 0" using receiver_open_closed assms(5) op by (auto simp: owns_def)
    from fp_create [of na alloc junk p on] own cl assms cp Inr op show ?thesis
      by (auto simp: v2_prepare_def owns_def release_pool_def destroy_frame_pool_def numa_destroy_def seq_state.defs Let_def
          split: if_splits)
  qed
qed

definition timer_fds :: "rep_pc \<Rightarrow> int multiset" where
  "timer_fds at = (case at of Rep_arming fd \<Rightarrow> {#fd#} | Rep_test fd \<Rightarrow> {#fd#} | Rep_read fd \<Rightarrow> {#fd#} |
     Rep_recheck fd \<Rightarrow> {#fd#} | Rep_closing fd \<Rightarrow> {#fd#} | _ \<Rightarrow> {#})"

definition res_inv :: "int multiset \<Rightarrow> v2_sys \<Rightarrow> bool" where
  "res_inv base s \<longleftrightarrow> v2_live (en2 s) = (if v2_has_pool (en2 s) then {#v2_on_numa (en2 s)#} else {#}) \<and>
     owns (base + timer_fds (rep2 s)) (en2 s)"

lemma ctl_inv_receive:
  assumes "receive_step s s'" and "ctl_inv s" and "res_inv base s"
  shows "ctl_inv s'"
  using assms
proof (induction rule: receive_step.induct)
  case (call_receive s inet na alloc junk cfg ok en)
  have "rep_idle (rep2 s)" "\<not> running2 s" "\<not> v2_has_pool (en2 s)" "closed2 (en2 s)" "\<not> v2_io (en2 s)"
    "\<not> v2_consumer (en2 s)" "\<not> v2_reporter (en2 s)"
    using call_receive.prems(1) call_receive.hyps(1) by (auto simp: ctl_inv_def)
  moreover from this have "v2_live (en2 s) = {#}" "owns base (en2 s)"
    using call_receive.prems(2) by (auto simp: res_inv_def timer_fds_def)
  ultimately have "v2_io en = v2_io (en2 s) \<and> v2_consumer en = v2_consumer (en2 s) \<and> v2_reporter en = v2_reporter (en2 s) \<and>
      v2_running en = ok \<and> v2_has_pool en = ok \<and> (\<not> ok \<longrightarrow> closed2 en)"
    using v2_prepare_cases [OF call_receive.hyps(2)] by blast
  with \<open>\<not> v2_io (en2 s)\<close> \<open>\<not> v2_consumer (en2 s)\<close> \<open>\<not> v2_reporter (en2 s)\<close> show ?case
    by (cases ok) (simp_all add: ctl_inv_def)
next
  case (call_receive_running s inet na alloc junk cfg ok en)
  then have "en = en2 s" by (simp add: v2_prepare_def)
  with call_receive_running.prems show ?case by (simp add: ctl_inv_def)
next
  case (io_created s)
  then show ?case by (auto simp: ctl_inv_def)
qed (auto simp: ctl_inv_def)

lemma ctl_inv_stop:
  assumes "stop_step s s'" and "ctl_inv s"
  shows "ctl_inv s'"
  using assms
proof (induction rule: stop_step.induct)
  case (stop_close s r w)
  then have "rx_fd r < 0" by (auto simp: receiver_close_def Let_def)
  with stop_close show ?case by (auto simp: ctl_inv_def)
next
  case (stop_release s)
  then show ?case by (auto simp: ctl_inv_def release_pool_def)
qed (auto simp: ctl_inv_def)

lemma ctl_caller_start:
  assumes "ctl_inv s"
  shows "caller2 s = Start_io \<longrightarrow> \<not> v2_io (en2 s)" "caller2 s = Start_consumer \<longrightarrow> \<not> v2_consumer (en2 s)"
    "caller2 s = Start_reporter \<longrightarrow> \<not> v2_reporter (en2 s)"
  using assms by (auto simp: ctl_inv_def)

section \<open>Resources\<close>

lemma owns_w:
  assumes "owns base s" and "open_fds w = open_fds (v2_w s) + M"
  shows "owns (base + M) (s\<lparr>v2_w := w\<rparr>)"
  using assms by (simp add: owns_def receiver_holds_def)

lemma owns_close: "owns (add_mset fd base) s \<Longrightarrow> owns base (s\<lparr>v2_w := sys_close fd (v2_w s)\<rparr>)"
  by (simp add: owns_def receiver_holds_def)

lemma res_inv_rep:
  assumes "rep_step s s'" and "res_inv base s"
  shows "res_inv base s'"
  using assms
proof (induction rule: rep_step.induct)
  case (timer_made s fd w)
  then have "owns (base + {#int fd#}) ((en2 s)\<lparr>v2_w := w\<rparr>)"
    by (intro owns_w) (simp_all add: res_inv_def timer_fds_def open_fds_sys)
  with timer_made show ?case by (simp add: res_inv_def timer_fds_def)
next
  case (timer_failed s err w)
  then have "owns (base + {#}) ((en2 s)\<lparr>v2_w := w\<rparr>)"
    by (intro owns_w) (simp_all add: res_inv_def timer_fds_def open_fds_sys)
  with timer_failed show ?case by (simp add: res_inv_def timer_fds_def)
next
  case (timer_armed s fd r w)
  then have "owns (add_mset fd base + {#}) ((en2 s)\<lparr>v2_w := w\<rparr>)"
    by (intro owns_w) (simp_all add: res_inv_def timer_fds_def open_fds_sys)
  with timer_armed show ?case by (simp add: res_inv_def timer_fds_def)
next
  case (rep_read s fd k w)
  then have "owns (add_mset fd base + {#}) ((en2 s)\<lparr>v2_w := w\<rparr>)"
    by (intro owns_w) (simp_all add: res_inv_def timer_fds_def open_fds_sys)
  with rep_read show ?case by (simp add: res_inv_def timer_fds_def)
next
  case (rep_read_failed s fd err w)
  then have "owns (add_mset fd base + {#}) ((en2 s)\<lparr>v2_w := w\<rparr>)"
    by (intro owns_w) (simp_all add: res_inv_def timer_fds_def open_fds_sys)
  with rep_read_failed show ?case by (simp add: res_inv_def timer_fds_def)
next
  case (rep_close s fd)
  then show ?case using owns_close [of fd base "en2 s"] by (simp add: res_inv_def timer_fds_def)
qed (auto simp: res_inv_def timer_fds_def owns_def report_def Let_def split: prod.splits)

lemma res_inv_keeps:
  assumes "keeps (en2 s) (en2 s')" and "rep2 s' = rep2 s" and "res_inv base s"
  shows "res_inv base s'"
  using assms by (simp add: res_inv_def keeps_def holdings_def)

lemma res_inv_receive:
  assumes "receive_step s s'" and "ctl_inv s" and "res_inv base s"
  shows "res_inv base s'"
  using assms
proof (induction rule: receive_step.induct)
  case (call_receive s inet na alloc junk cfg ok en)
  have "rep_idle (rep2 s)" "\<not> running2 s" "\<not> v2_has_pool (en2 s)" "closed2 (en2 s)"
    using call_receive.prems(1) call_receive.hyps(1) by (auto simp: ctl_inv_def)
  moreover from this have "v2_live (en2 s) = {#}" "owns base (en2 s)"
    using call_receive.prems(2) by (auto simp: res_inv_def timer_fds_def)
  ultimately show ?case
    using v2_prepare_cases [OF call_receive.hyps(2)] by (simp add: res_inv_def timer_fds_def)
next
  case (call_receive_running s inet na alloc junk cfg ok en)
  then have "en = en2 s" by (simp add: v2_prepare_def)
  with call_receive_running.prems show ?case by (simp add: res_inv_def)
next
  case (reporter_created s)
  then have "rep_idle (rep2 s)" by (auto simp: ctl_inv_def)
  with reporter_created.prems show ?case by (auto simp: res_inv_def timer_fds_def owns_def)
qed (simp_all add: res_inv_def owns_def)

lemma res_inv_stop:
  assumes "stop_step s s'" and "res_inv base s"
  shows "res_inv base s'"
  using assms
proof (induction rule: stop_step.induct)
  case (stop_close s r w)
  then show ?case
    using receiver_close_holds [OF _ stop_close.hyps(2), of "base + timer_fds (rep2 s)"] by (simp add: res_inv_def owns_def)
next
  case (stop_release s)
  then show ?case
    by (simp add: res_inv_def owns_def release_pool_def destroy_frame_pool_def numa_destroy_def split: if_splits)
qed (simp_all add: res_inv_def owns_def)

section \<open>Slots, frames and counters\<close>

text \<open>The slots the threads hold, and the received frames the I/O thread has still to deal with.\<close>

fun io_pairs :: "io2_pc \<Rightarrow> (size_t \<times> RxFrame) list" where
  "io_pairs (Io_inner xs rest) = xs"
| "io_pairs (Io_publishing t xs rest) = xs"
| "io_pairs (Io_stamped t i f xs rest) = (i, f) # xs"
| "io_pairs (Io_rejected t i xs rest) = xs"
| "io_pairs (Io_quitting xs rest) = xs"
| "io_pairs (Io_left xs rest) = xs"
| "io_pairs _ = []"

fun io_others :: "io2_pc \<Rightarrow> size_t list" where
  "io_others (Io_reserving inner idx) = idx"
| "io_others (Io_receiving inner idx) = idx"
| "io_others (Io_inner xs rest) = rest"
| "io_others (Io_publishing t xs rest) = rest"
| "io_others (Io_stamped t i f xs rest) = rest"
| "io_others (Io_rejected t i xs rest) = i # rest"
| "io_others (Io_releasing idx nxt) = idx"
| "io_others (Io_quitting xs rest) = rest"
| "io_others (Io_left xs rest) = rest"
| "io_others _ = []"

definition io_held :: "io2_pc \<Rightarrow> size_t list" where
  "io_held at = map fst (io_pairs at) @ io_others at"

fun co_held :: "co2_pc \<Rightarrow> size_t list" where
  "co_held (Co_popping idx) = idx"
| "co_held (Co_processing ds todo) = ds @ todo"
| "co_held (Co_giving idx) = idx"
| "co_held _ = []"

fun co_todo :: "co2_pc \<Rightarrow> size_t list" where
  "co_todo (Co_popping idx) = idx"
| "co_todo (Co_processing ds todo) = todo"
| "co_todo _ = []"

definition co_frames :: "FramePool \<Rightarrow> co2_pc \<Rightarrow> bytes list" where
  "co_frames p at = map (\<lambda>i. slots p ! unat i) (co_todo at)"

definition good_data :: "RxFrame list \<Rightarrow> bytes list" where
  "good_data fs = map (\<lambda>f. the (rf_data f)) (filter frame_good fs)"

definition bad_frames :: "RxFrame list \<Rightarrow> u64" where
  "bad_frames fs = of_nat (length (filter (\<lambda>f. \<not> frame_good f) fs))"

abbreviation in_hand2 :: "io2_pc \<Rightarrow> RxFrame list" where
  "in_hand2 at \<equiv> map snd (io_pairs at)"

text \<open>A stamped frame is good, and a batch is never empty when it is tested or left.\<close>

fun io_shape :: "io2_pc \<Rightarrow> bool" where
  "io_shape (Io_stamped t i f xs rest) = frame_good f"
| "io_shape (Io_inner xs rest) = (xs \<noteq> [])"
| "io_shape (Io_quitting xs rest) = (xs \<noteq> [])"
| "io_shape (Io_left xs rest) = (xs \<noteq> [])"
| "io_shape _ = True"

definition first_seq :: seq_state where
  "first_seq = \<lparr>expected_seq_num = 0, seq_initialized = False\<rparr>"

definition counters_ok :: "Metrics \<Rightarrow> bytes list \<Rightarrow> u64 \<Rightarrow> seq_state \<times> Metrics \<Rightarrow> bool" where
  "counters_ok m0 fs d sm \<longleftrightarrow> sm = (let r = seq_run (first_seq, m0) (map frame_seq fs) in (fst r, inc_drops d (snd r)))"

definition slots_ok :: "FramePool \<Rightarrow> io2_pc \<Rightarrow> co2_pc \<Rightarrow> bool" where
  "slots_ok p at c \<longleftrightarrow> fp_owned p (io_held at @ co_held c) \<and>
     (\<forall>x\<in>set (io_pairs at). slots p ! unat (fst x) = the (rf_data (snd x)))"

definition data_inv :: "v2_sys \<Rightarrow> bool" where
  "data_inv s \<longleftrightarrow> slots_ok (pl2 s) (io2 s) (co2 s) \<and> io_shape (io2 s) \<and>
     good_data (arrived2 s) = published2 s @ good_data (in_hand2 (io2 s)) \<and>
     published2 s = counted2 s @ co_frames (pl2 s) (co2 s) @ ready_frames (pl2 s) \<and>
     counters_ok (start_m2 s) (counted2 s) (bad_frames (arrived2 s) - bad_frames (in_hand2 (io2 s))) (v2_sm (en2 s))"

lemma data_simps [simp]:
  "good_data [] = []" "good_data (fs @ gs) = good_data fs @ good_data gs"
  "good_data (f # fs) = (if frame_good f then the (rf_data f) # good_data fs else good_data fs)"
  "bad_frames [] = 0" "bad_frames (fs @ gs) = bad_frames fs + bad_frames gs"
  "bad_frames (f # fs) = (if frame_good f then bad_frames fs else 1 + bad_frames fs)"
  by (simp_all add: good_data_def bad_frames_def)

lemma counters_drop: "counters_ok m0 fs d (q, m) \<Longrightarrow> counters_ok m0 fs (d + 1) (q, inc_drops 1 m)"
  by (simp add: counters_ok_def Let_def inc_drops_inc_drops)

lemma counters_count:
  "counters_ok m0 fs d sm \<Longrightarrow> counters_ok m0 (fs @ [f]) d (seq_step sm (frame_seq f))"
  by (simp add: counters_ok_def Let_def seq_run_append seq_step_def seq_run_def inc_drops_account inc_drops_received)

text \<open>The four ring operations, by the thread that does them.\<close>

lemma co_frames_keep: "slots p' = slots p \<Longrightarrow> co_frames p' c = co_frames p c"
  by (simp add: co_frames_def)

lemma slots_ok_move:
  assumes "fp_owned p' (io_held at' @ co_held c')" and "slots p' = slots p" and "set (io_pairs at') \<subseteq> set (io_pairs at)"
    and "slots_ok p at c"
  shows "slots_ok p' at' c'"
  using assms by (auto simp: slots_ok_def)

lemma free_push_keeps:
  assumes "fp_owned p (i # held)" and "free_push p i = (ok, p')"
  shows "fp_owned p' held \<and> slots p' = slots p \<and> ready_frames p' = ready_frames p"
  using free_snk.push_ok [OF assms(1)] free_push_frames [of p i] push_slots(2) [OF assms(2)] assms(2) by simp

lemma free_pop_keeps:
  assumes "fp_owned p held" and "free_pop p = (Some i, p')"
  shows "fp_owned p' (i # held) \<and> slots p' = slots p \<and> ready_frames p' = ready_frames p"
  using free_pop_some [OF assms] free_pop_ready [OF assms(2)] by (simp add: ready_frames_def)

text \<open>Steps of the I/O thread on the pool that leave counters and published frames alone.\<close>

lemma data_inv_io_pool:
  assumes "data_inv s" and "fp_owned p (io_held at @ co_held (co2 s))" and "slots p = slots (pl2 s)"
    and "ready_frames p = ready_frames (pl2 s)" and "io_pairs at = io_pairs (io2 s)" and "io_shape at"
  shows "data_inv ((set_pl2 p s)\<lparr>io2 := at\<rparr>)"
proof -
  have "slots_ok p at (co2 s)" using assms by (auto simp: data_inv_def intro: slots_ok_move)
  with assms co_frames_keep [OF assms(3)] show ?thesis by (simp add: data_inv_def)
qed

lemma data_owned: "data_inv s \<Longrightarrow> fp_owned (pl2 s) (io_held (io2 s) @ co_held (co2 s))"
  by (simp add: data_inv_def slots_ok_def)

lemma data_inv_reserve:
  assumes "data_inv s" and "io2 s = Io_reserving inner idx" and "free_pop (pl2 s) = (Some i, p)"
  shows "data_inv ((set_pl2 p s)\<lparr>io2 := Io_reserving inner (idx @ [i])\<rparr>)"
proof -
  note k = free_pop_keeps [OF data_owned [OF assms(1)] assms(3)]
  then have "fp_owned p (io_held (Io_reserving inner (idx @ [i])) @ co_held (co2 s))"
    using assms(2) by (auto simp: io_held_def intro: fp_owned_perm)
  with k show ?thesis using assms(1,2) by (intro data_inv_io_pool) simp_all
qed

lemma data_inv_release:
  assumes "data_inv s" and "free_push (pl2 s) i = (ok, p)"
    and "io_pairs at = io_pairs (io2 s)" and "io_shape at" and "mset (io_held (io2 s)) = mset (i # io_held at)"
  shows "data_inv ((set_pl2 p s)\<lparr>io2 := at\<rparr>)"
proof -
  have "fp_owned (pl2 s) (i # io_held at @ co_held (co2 s))"
    using data_owned [OF assms(1)] by (rule fp_owned_perm) (simp add: assms(5))
  from free_push_keeps [OF this assms(2)] assms show ?thesis by (intro data_inv_io_pool) simp_all
qed

lemma data_inv_received:
  assumes "data_inv s" and "io2 s = Io_receiving inner idx"
    and "receive_into (if inner then receive_batch else epoll_receive) idx (en2 s) = Some (n, fs, en)" and "0 < n"
  shows "data_inv (s\<lparr>en2 := en, io2 := Io_inner (zip (take (nat n) idx) fs) (drop (nat n) idx),
      arrived2 := arrived2 s @ take (nat n) fs\<rparr>)"
proof -
  let ?xs = "zip (take (nat n) idx) fs" and ?p = "v2_pool en"
  have own: "fp_owned (pl2 s) (idx @ co_held (co2 s))"
    using data_owned [OF assms(1)] assms(2) by (simp add: io_held_def)
  have "(if inner then receive_batch else epoll_receive) = epoll_receive \<or>
      (if inner then receive_batch else epoll_receive) = receive_batch" by simp
  note r = receive_into_owned [OF assms(3) own this]
  have len: "length fs = length idx" "nat n \<le> length idx" and n: "0 < nat n" using r assms(4) by auto
  have ne: "?xs \<noteq> []" using len n by (cases idx; cases fs) auto
  have fst: "map fst ?xs = take (nat n) idx" and snd: "map snd ?xs = take (nat n) fs"
    using len by (simp_all add: zip_take_left [of "nat n" idx fs])
  have "fp_owned ?p (io_held (Io_inner ?xs (drop (nat n) idx)) @ co_held (co2 s))"
    using r fst by (auto simp: io_held_def intro: fp_owned_perm)
  moreover have "slots ?p ! unat (fst x) = the (rf_data (snd x))" if "x \<in> set ?xs" for x
  proof -
    from that obtain k where k: "k < length ?xs" "x = ?xs ! k" by (metis in_set_conv_nth)
    then have "map (\<lambda>i. slots ?p ! unat i) idx ! k = map (\<lambda>f. the (rf_data f)) fs ! k" using r by auto
    with k len show ?thesis by auto
  qed
  ultimately have "slots_ok ?p (Io_inner ?xs (drop (nat n) idx)) (co2 s)" by (simp add: slots_ok_def)
  moreover have "co_frames ?p (co2 s) = co_frames (pl2 s) (co2 s)"
  proof -
    have "set (co_todo (co2 s)) \<subseteq> set (co_held (co2 s))" by (cases "co2 s") auto
    then show ?thesis using r by (auto simp: co_frames_def)
  qed
  ultimately show ?thesis using assms(1,2) r ne by (simp add: data_inv_def snd)
qed

lemma data_inv_unreceived:
  assumes "data_inv s" and "io2 s = Io_receiving inner idx"
    and "receive_into (if inner then receive_batch else epoll_receive) idx (en2 s) = Some (n, fs, en)"
  shows "data_inv (s\<lparr>en2 := en, io2 := Io_releasing idx nxt\<rparr>)"
proof -
  have own: "fp_owned (pl2 s) (idx @ co_held (co2 s))"
    using data_owned [OF assms(1)] assms(2) by (simp add: io_held_def)
  have "(if inner then receive_batch else epoll_receive) = epoll_receive \<or>
      (if inner then receive_batch else epoll_receive) = receive_batch" by simp
  note r = receive_into_owned [OF assms(3) own this]
  have "set (co_todo (co2 s)) \<subseteq> set (co_held (co2 s))" by (cases "co2 s") auto
  then have "co_frames (v2_pool en) (co2 s) = co_frames (pl2 s) (co2 s)" using r by (auto simp: co_frames_def)
  with assms(1,2) r show ?thesis by (simp add: data_inv_def slots_ok_def io_held_def)
qed

lemma data_inv_push_ready:
  assumes "data_inv s" and "io2 s = Io_stamped t i f xs rest" and "ready_push (pl2 s) i = (ok, p)"
  shows "ok \<and> data_inv ((set_pl2 p s)\<lparr>io2 := Io_publishing t xs rest, published2 := published2 s @ [slots (pl2 s) ! unat i]\<rparr>)"
proof -
  have own: "fp_owned (pl2 s) (i # io_held (Io_publishing t xs rest) @ co_held (co2 s))"
    using data_owned [OF assms(1)] assms(2) by (simp add: io_held_def)
  obtain p' where "ready_push (pl2 s) i = (True, p')" "fp_owned p' (io_held (Io_publishing t xs rest) @ co_held (co2 s))"
    "ready_frames p' = ready_frames (pl2 s) @ [slots (pl2 s) ! unat i]" "slots p' = slots (pl2 s)"
    using ready_push_frames [OF own] by metis
  moreover have "frame_good f" using assms(1,2) by (simp add: data_inv_def)
  ultimately show ?thesis using assms co_frames_keep [of p "pl2 s"] by (simp add: data_inv_def slots_ok_def)
qed

lemma data_inv_reject:
  assumes "data_inv s" and "io2 s = Io_publishing t ((i, f) # xs) rest" and "rejected f"
  shows "data_inv ((drop_slot i s)\<lparr>io2 := Io_rejected t i xs rest\<rparr>)"
proof -
  have bad: "\<not> frame_good f" using assms(3) by (simp add: frame_good_def)
  have "fp_owned (pl2 s) (io_held (Io_rejected t i xs rest) @ co_held (co2 s))"
    using data_owned [OF assms(1)] by (rule fp_owned_perm) (simp add: io_held_def assms(2))
  moreover have "counters_ok (start_m2 s) (counted2 s) (bad_frames (arrived2 s) - bad_frames (map snd xs))
      (seq_state.truncate (en2 s), inc_drops 1 (v2_m (en2 s)))"
    using counters_drop [of "start_m2 s" "counted2 s" "bad_frames (arrived2 s) - bad_frames (in_hand2 (io2 s))"
        "seq_state.truncate (en2 s)" "v2_m (en2 s)"] assms(1,2) bad
    by (simp add: data_inv_def algebra_simps)
  ultimately show ?thesis
    using assms(1,2) bad by (simp add: data_inv_def drop_slot_def slots_ok_def seq_state.defs)
qed

lemma data_inv_pc:
  assumes "data_inv s" and "io_pairs at = io_pairs (io2 s)" and "io_others at = io_others (io2 s)" and "io_shape at"
  shows "data_inv (s\<lparr>io2 := at\<rparr>)"
  using assms by (simp add: data_inv_def slots_ok_def io_held_def)

lemma next_pc_idle [simp]: "io_pairs (next_pc nxt) = []" "io_others (next_pc nxt) = []" "io_shape (next_pc nxt)"
  by (cases nxt; simp)+

lemma data_inv_en:
  assumes "data_inv s" and "v2_pool en = pl2 s" and "v2_sm en = v2_sm (en2 s)"
  shows "data_inv (s\<lparr>en2 := en\<rparr>)"
  using assms by (simp add: data_inv_def)

lemma data_inv_io:
  assumes "io_step s s'" and "data_inv s"
  shows "data_inv s'"
  using assms
proof (induction rule: io_step.induct)
  case (reserve_one s inner idx i p)
  then show ?case by (intro data_inv_reserve)
next
  case (receive_some s inner idx n fs en)
  then show ?case by (intro data_inv_received)
next
  case (receive_none s inner idx fs en)
  then show ?case by (intro data_inv_unreceived)
next
  case (receive_fail s inner idx n fs en)
  then show ?case by (intro data_inv_unreceived)
next
  case (inner_in s xs rest t en)
  then have "v2_pool en = pl2 s" "v2_sm en = v2_sm (en2 s)" by (auto simp: tick_def seq_state.defs split: list.splits)
  from data_inv_pc [OF data_inv_en [OF inner_in.prems this], of "Io_publishing t xs rest"] inner_in.hyps
  show ?case by simp
next
  case (reject s t i f xs rest)
  then show ?case by (intro data_inv_reject)
next
  case (stamp s t i f xs rest)
  let ?en = "(en2 s)\<lparr>v2_ns := (v2_ns (en2 s))[unat i := t]\<rparr>"
  from data_inv_pc [OF data_inv_en [OF stamp.prems, of ?en], of "Io_stamped t i f xs rest"] stamp.hyps
  show ?case by (simp add: frame_good_def)
next
  case (push_ready s t i f xs rest p)
  then show ?case using data_inv_push_ready by blast
next
  case (push_refused s t i f xs rest p)
  then show ?case using data_inv_push_ready by blast
next
  case (push_rejected s t i xs rest ok p)
  then show ?case by (intro data_inv_release) (simp_all add: io_held_def)
next
  case (release_one s i idx nxt ok p)
  then show ?case by (intro data_inv_release) (simp_all add: io_held_def)
next
  case (fail_clear s inner)
  from data_inv_pc [OF data_inv_en [OF fail_clear.prems, of "(en2 s)\<lparr>v2_running := False\<rparr>"], of Io_done] fail_clear.hyps
  show ?case by auto
next
  case (inner_out s xs rest)
  then have "xs \<noteq> []" by (simp add: data_inv_def)
  with inner_out show ?case by (intro data_inv_pc) simp_all
next
  case (leave s xs rest)
  then have "xs \<noteq> []" by (simp add: data_inv_def)
  with leave show ?case by (intro data_inv_pc) simp_all
qed (auto intro!: data_inv_pc)

subsection \<open>The consumer\<close>

lemma data_inv_co_pc:
  assumes "data_inv s" and "co_held c = co_held (co2 s)" and "co_todo c = co_todo (co2 s)"
  shows "data_inv (s\<lparr>co2 := c\<rparr>)"
  using assms by (simp add: data_inv_def slots_ok_def co_frames_def)

lemma data_inv_co_pop:
  assumes "data_inv s" and "co2 s = Co_popping idx" and "ready_pop (pl2 s) = (Some i, p)"
  shows "data_inv ((set_pl2 p s)\<lparr>co2 := Co_popping (idx @ [i])\<rparr>)"
proof -
  note own = data_owned [OF assms(1)]
  note k = ready_pop_frames [OF own assms(3)]
  have "fp_owned p (io_held (io2 s) @ co_held (Co_popping (idx @ [i])))"
    using ready_pop_some [OF own assms(3)] by (rule fp_owned_perm) (simp add: assms(2))
  then have "slots_ok p (io2 s) (Co_popping (idx @ [i]))"
    using assms(1) k by (auto simp: data_inv_def intro: slots_ok_move)
  with assms(1,2) k show ?thesis by (simp add: data_inv_def co_frames_def)
qed

lemma data_inv_co_give:
  assumes "data_inv s" and "co2 s = Co_giving (i # idx)" and "free_push (pl2 s) i = (ok, p)"
  shows "data_inv ((set_pl2 p s)\<lparr>co2 := Co_giving idx\<rparr>)"
proof -
  have "fp_owned (pl2 s) (i # io_held (io2 s) @ co_held (Co_giving idx))"
    using data_owned [OF assms(1)] by (rule fp_owned_perm) (simp add: assms(2))
  note k = free_push_keeps [OF this assms(3)]
  then have "slots_ok p (io2 s) (Co_giving idx)" using assms(1) by (auto simp: data_inv_def intro: slots_ok_move)
  with assms(1,2) k show ?thesis by (simp add: data_inv_def co_frames_def)
qed

lemma process_clock: "v2_clock s = [] \<Longrightarrow> v2_process e i (msg, s) = None"
  by (cases "decode e (slots (v2_pool s) ! unat i) kWireSize msg") (auto simp: v2_process_def Let_def tick_def)

lemma data_inv_co_process:
  assumes "data_inv s" and "co2 s = Co_processing ds (i # todo)"
    and "v2_process e i (msg2 s, en2 s) = Some (msg, en)"
  shows "data_inv (s\<lparr>en2 := en, msg2 := msg, co2 := Co_processing (ds @ [i]) todo,
    counted2 := counted2 s @ [slots (pl2 s) ! unat i]\<rparr>)"
proof -
  let ?f = "slots (pl2 s) ! unat i"
  have own: "fp_owned (pl2 s) (i # io_held (io2 s) @ ds @ todo)"
    using data_owned [OF assms(1)] by (rule fp_owned_perm) (simp add: assms(2))
  obtain t ts where clk: "v2_clock (en2 s) = t # ts" using process_clock [of "en2 s"] assms(3) by (cases "v2_clock (en2 s)") auto
  obtain s' where "v2_process e i (msg2 s, en2 s) = Some (wire_msg ?f, s')"
    "v2_sm s' = seq_step (v2_sm (en2 s)) (frame_seq ?f)" "v2_pool s' = pl2 s"
    by (rule v2_process_spec [OF own clk])
  with assms(3) have "v2_sm en = seq_step (v2_sm (en2 s)) (frame_seq ?f)" "v2_pool en = pl2 s" by auto
  with assms(1,2) counters_count [of "start_m2 s" "counted2 s" _ "v2_sm (en2 s)" ?f] show ?thesis
    by (simp add: data_inv_def slots_ok_def co_frames_def del: Pair_inject prod.inject)
qed

lemma data_inv_co:
  assumes "co_step e s s'" and "data_inv s"
  shows "data_inv s'"
  using assms
proof (induction rule: co_step.induct)
  case (co_pop s idx i p)
  then show ?case by (intro data_inv_co_pop)
next
  case (co_process s ds i todo msg en)
  then show ?case by (intro data_inv_co_process)
next
  case (co_give s i idx ok p)
  then show ?case by (intro data_inv_co_give)
qed (auto intro!: data_inv_co_pc)

lemma data_inv_rep:
  assumes "rep_step s s'" and "data_inv s"
  shows "data_inv s'"
  using rep_step_keeps [OF assms(1)] assms(2) by (simp add: data_inv_def)

lemma data_inv_receive:
  assumes "receive_step s s'" and "ctl_inv s" and "res_inv base s" and "v2_has_pool (en2 s) \<longrightarrow> data_inv s"
  shows "v2_has_pool (en2 s') \<longrightarrow> data_inv s'"
  using assms
proof (induction rule: receive_step.induct)
  case (call_receive s inet na alloc junk cfg ok en)
  have "rep_idle (rep2 s)" "\<not> running2 s" "\<not> v2_has_pool (en2 s)" "closed2 (en2 s)"
    using call_receive.prems(1) call_receive.hyps(1) by (auto simp: ctl_inv_def)
  moreover from this have "v2_live (en2 s) = {#}" "owns base (en2 s)"
    using call_receive.prems(2) by (auto simp: res_inv_def timer_fds_def)
  ultimately show ?case
    using v2_prepare_cases [OF call_receive.hyps(2)]
    by (auto simp: data_inv_def slots_ok_def io_held_def co_frames_def counters_ok_def seq_run_def first_seq_def)
next
  case (call_receive_running s inet na alloc junk cfg ok en)
  then have "en = en2 s" by (simp add: v2_prepare_def)
  with call_receive_running.prems show ?case by (simp add: data_inv_def)
next
  case (io_created s)
  then have "io2 s = No_io" by (simp add: ctl_inv_def)
  with io_created.prems show ?case by (auto simp: data_inv_def slots_ok_def io_held_def seq_state.defs)
next
  case (consumer_created s)
  then have "co_idle (co2 s)" by (simp add: ctl_inv_def)
  with consumer_created.prems show ?case by (auto simp: data_inv_def slots_ok_def co_frames_def seq_state.defs)
qed (simp_all add: data_inv_def seq_state.defs)

lemma data_inv_stop:
  assumes "stop_step s s'" and "v2_has_pool (en2 s) \<longrightarrow> data_inv s"
  shows "v2_has_pool (en2 s') \<longrightarrow> data_inv s'"
  using assms
proof (induction rule: stop_step.induct)
  case (stop_release s)
  then show ?case by (simp add: release_pool_def)
qed (simp_all add: data_inv_def seq_state.defs)

section \<open>Every reachable state\<close>

definition v2_inv :: "int multiset \<Rightarrow> v2_sys \<Rightarrow> bool" where
  "v2_inv base s \<longleftrightarrow> ctl_inv s \<and> res_inv base s \<and> (v2_has_pool (en2 s) \<longrightarrow> data_inv s)"

lemma v2_inv_step:
  assumes "io_step s s' \<or> co_step e s s' \<or> rep_step s s' \<or> receive_step s s' \<or> stop_step s s'" and "v2_inv base s"
  shows "v2_inv base s'"
proof -
  have inv: "ctl_inv s" "res_inv base s" "v2_has_pool (en2 s) \<longrightarrow> data_inv s" using assms(2) by (simp_all add: v2_inv_def)
  from assms(1) consider "io_step s s'" | "co_step e s s'" | "rep_step s s'" | "receive_step s s'" | "stop_step s s'" by blast
  then show ?thesis
  proof cases
    case 1
    note k = io_step_keeps [OF 1]
    with inv show ?thesis
      using ctl_inv_io [OF 1 inv(1)] res_inv_keeps [OF _ _ inv(2)] data_inv_io [OF 1]
      by (auto simp: v2_inv_def keeps_def holdings_def)
  next
    case 2
    note k = co_step_keeps [OF 2]
    with inv show ?thesis
      using ctl_inv_co [OF 2 inv(1)] res_inv_keeps [OF _ _ inv(2)] data_inv_co [OF 2]
      by (auto simp: v2_inv_def keeps_def holdings_def)
  next
    case 3
    with inv rep_step_keeps [OF 3] show ?thesis
      using ctl_inv_rep [OF 3 inv(1)] res_inv_rep [OF 3 inv(2)] data_inv_rep [OF 3]
      by (auto simp: v2_inv_def holdings_def)
  next
    case 4
    from ctl_inv_receive [OF 4 inv(1,2)] res_inv_receive [OF 4 inv(1,2)] data_inv_receive [OF 4 inv] show ?thesis
      by (simp add: v2_inv_def)
  next
    case 5
    from ctl_inv_stop [OF 5 inv(1)] res_inv_stop [OF 5 inv(2)] data_inv_stop [OF 5 inv(3)] show ?thesis
      by (simp add: v2_inv_def)
  qed
qed

lemma v2_reach_inv: "v2_reach e w clock s \<Longrightarrow> v2_inv (open_fds w) s"
proof (induction rule: v2_reach.induct)
  case v2_reach_start
  show ?case
    by (simp add: v2_inv_def ctl_inv_def res_inv_def v2_start_def v2_new_def owns_def receiver_holds_def receiver_new_def
        timer_fds_def)
next
  case (v2_reach_step s s')
  show ?case by (rule v2_inv_step [OF v2_reach_step.hyps(2) v2_reach_step.IH])
qed

lemma v2_consumer_reads:
  assumes "data_inv s" and "co2 s = Co_processing ds (i # todo)" and "v2_clock (en2 s) \<noteq> []"
  shows "v2_process e i (msg2 s, en2 s) \<noteq> None"
proof -
  have own: "fp_owned (pl2 s) (i # io_held (io2 s) @ ds @ todo)"
    using data_owned [OF assms(1)] by (rule fp_owned_perm) (simp add: assms(2))
  obtain t ts where "v2_clock (en2 s) = t # ts" using assms(3) by (cases "v2_clock (en2 s)") auto
  from v2_process_spec [OF own this, of e "msg2 s"] show ?thesis by (metis option.distinct(1))
qed


definition receiver_fds :: "Receiver \<Rightarrow> int multiset" where
  "receiver_fds r = (if 0 \<le> rx_epfd r then {#rx_epfd r#} else {#}) + (if 0 \<le> rx_fd r then {#rx_fd r#} else {#})"

lemma owns_fds: "owns base s \<Longrightarrow> open_fds (v2_w s) = base + receiver_fds (v2_recv s) \<and> (closed2 s \<longrightarrow> receiver_fds (v2_recv s) = {#})"
  by (auto simp: owns_def receiver_holds_def receiver_fds_def)

text \<open>
  C8. Engine v2 leaks nothing over its whole life, with \<^verbatim>\<open>receive\<close> called only while it runs or
  after \<^verbatim>\<open>stop\<close>, whatever the kernel answers, whichever thread cannot be created and however the
  threads interleave with \<^verbatim>\<open>stop\<close>. In every reachable state the open descriptors are those from
  before, the receiver's and the reporter's timer; at most one frame pool is allocated, the one
  the engine holds, with the allocator the flag names; a thread that has not returned finds the
  pool in place; no thread object is assigned while joinable; and when \<^verbatim>\<open>stop\<close> is done, the threads
  have returned and been joined, no pool is left and exactly the descriptors from before are open.
\<close>

theorem v2_life_no_leak:
  assumes "v2_reach e w clock s"
  shows "open_fds (v2_w (en2 s)) = open_fds w + receiver_fds (v2_recv (en2 s)) + timer_fds (rep2 s) \<and>
    v2_live (en2 s) = (if v2_has_pool (en2 s) then {#v2_on_numa (en2 s)#} else {#}) \<and>
    (\<not> io_idle (io2 s) \<or> \<not> co_idle (co2 s) \<or> \<not> rep_idle (rep2 s) \<longrightarrow> v2_has_pool (en2 s)) \<and>
    (caller2 s = Start_io \<longrightarrow> \<not> v2_io (en2 s)) \<and> (caller2 s = Start_consumer \<longrightarrow> \<not> v2_consumer (en2 s)) \<and>
    (caller2 s = Start_reporter \<longrightarrow> \<not> v2_reporter (en2 s)) \<and>
    (caller2 s = Stopped \<longrightarrow> \<not> running2 s \<and> io_idle (io2 s) \<and> co_idle (co2 s) \<and> rep_idle (rep2 s) \<and>
      \<not> v2_io (en2 s) \<and> \<not> v2_consumer (en2 s) \<and> \<not> v2_reporter (en2 s) \<and>
      v2_live (en2 s) = {#} \<and> open_fds (v2_w (en2 s)) = open_fds w)"
proof -
  have inv: "ctl_inv s" "res_inv (open_fds w) s" using v2_reach_inv [OF assms] by (simp_all add: v2_inv_def)
  have fds: "open_fds (v2_w (en2 s)) = open_fds w + timer_fds (rep2 s) + receiver_fds (v2_recv (en2 s))"
    "closed2 (en2 s) \<longrightarrow> receiver_fds (v2_recv (en2 s)) = {#}"
    using inv(2) owns_fds by (auto simp: res_inv_def)
  have "rep_idle (rep2 s) \<longrightarrow> timer_fds (rep2 s) = {#}" by (auto simp: timer_fds_def)
  moreover have "caller2 s = Stopped \<longrightarrow> closed2 (en2 s) \<and> \<not> v2_has_pool (en2 s)" using inv(1) by (auto simp: ctl_inv_def)
  moreover have "\<not> v2_has_pool (en2 s) \<longrightarrow> \<not> v2_io (en2 s) \<and> \<not> v2_consumer (en2 s) \<and> \<not> v2_reporter (en2 s) \<and> \<not> running2 s \<and>
      io_idle (io2 s) \<and> co_idle (co2 s) \<and> rep_idle (rep2 s)" using inv(1) by (auto simp: ctl_inv_def)
  moreover have "v2_live (en2 s) = (if v2_has_pool (en2 s) then {#v2_on_numa (en2 s)#} else {#})"
    using inv(2) by (simp add: res_inv_def)
  ultimately show ?thesis using fds ctl_caller_start [OF inv(1)] by (auto simp: ac_simps)
qed

section \<open>A run\<close>

text \<open>
  A world in which the socket, the timer and the epoll descriptor are created and one datagram
  arrives, and the run up to the moment when the I/O thread has received it.
\<close>

definition life_world :: world where
  "life_world = \<lparr>script = [Ret 7, Ret 0, Ret 0, Ret 9, Ret 8, Ret 0], rxs = [Rx [late_dgram]],
     evs = [Evs [\<lparr>ev_fd = 7, ev_err = False, ev_rdhup = False\<rparr>]], trace = []\<rparr>"

lemma prepare_run:
  obtains en where "v2_prepare (\<lambda>_. None) (- 1) True 0 demo_cfg (v2_new life_world clock) = Some (True, en)"
    "v2_recv en = receiver_new\<lparr>rx_fd := 7\<rparr>" "script (v2_w en) = [Ret 9, Ret 8, Ret 0]" "rxs (v2_w en) = [Rx [late_dgram]]"
    "evs (v2_w en) = evs life_world" "v2_running en" "v2_has_pool en" "\<not> v2_io en" "\<not> v2_consumer en" "\<not> v2_reporter en"
    "v2_pool en = fp_init (fp_new kPoolCapacity 0)"
  by (simp add: v2_prepare_def v2_new_def create_frame_pool_def life_world_def receiver_open_def demo_cfg_def
      receiver_close_def receiver_new_def call_def call_if_def sys_def Let_def)

lemma free_slot: "fst (free_pop (fp_init (fp_new kPoolCapacity 0))) \<noteq> None"
proof -
  have inv: "fp_inv (fp_new kPoolCapacity 0)" by (rule fp_new_inv) (simp add: rb_static_ok_def kPoolCapacity_def)
  have "length (rb_list (free (fp_init (fp_new kPoolCapacity 0)))) = 16384"
    using fp_init_owned [OF inv] by (simp add: fp_new_def rb_new_def kPoolCapacity_def del: length_rb_list)
  then have "rb_list (free (fp_init (fp_new kPoolCapacity 0))) \<noteq> []" by (auto simp del: length_rb_list)
  then show ?thesis using free_pop_none_iff fp_init_owned [OF inv] by blast
qed

lemma up_run:
  obtains s where "v2_reach e life_world clock s" "caller2 s = Up" "rep2 s = Rep_arming 9"
    "io2 s = Io_reserving False []" "v2_has_pool (en2 s)" "v2_recv (en2 s) = receiver_new\<lparr>rx_fd := 7\<rparr>"
    "script (v2_w (en2 s)) = [Ret 8, Ret 0]" "rxs (v2_w (en2 s)) = [Rx [late_dgram]]"
    "evs (v2_w (en2 s)) = evs life_world" "fst (free_pop (pl2 s)) \<noteq> None" "arrived2 s = []"
proof -
  let ?R = "v2_reach e life_world clock"
  let ?s0 = "v2_start life_world clock"
  obtain en where en: "v2_prepare (\<lambda>_. None) (- 1) True 0 demo_cfg (v2_new life_world clock) = Some (True, en)"
    "v2_recv en = receiver_new\<lparr>rx_fd := 7\<rparr>" "script (v2_w en) = [Ret 9, Ret 8, Ret 0]" "rxs (v2_w en) = [Rx [late_dgram]]"
    "evs (v2_w en) = evs life_world" "v2_running en" "v2_has_pool en" "\<not> v2_io en" "\<not> v2_consumer en" "\<not> v2_reporter en"
    "v2_pool en = fp_init (fp_new kPoolCapacity 0)" by (rule prepare_run)
  let ?s1 = "?s0\<lparr>en2 := en, caller2 := Start_io, io2 := No_io, co2 := No_co, rep2 := No_rep,
      arrived2 := [], published2 := [], counted2 := [], start_m2 := v2_m (en2 ?s0)\<rparr>"
  let ?s2 = "?s1\<lparr>en2 := (en2 ?s1)\<lparr>v2_io := True\<rparr>, io2 := Io_started, caller2 := Start_consumer\<rparr>"
  let ?s3 = "?s2\<lparr>en2 := (en2 ?s2)\<lparr>v2_consumer := True\<rparr>, co2 := Co_started, msg2 := zero_msg, caller2 := Await_started\<rparr>"
  let ?s4 = "?s3\<lparr>io2 := Io_outer\<rparr>" let ?s5 = "?s4\<lparr>co2 := Co_test\<rparr>" let ?s6 = "?s5\<lparr>caller2 := Start_reporter\<rparr>"
  let ?s7 = "?s6\<lparr>en2 := (en2 ?s6)\<lparr>v2_reporter := True\<rparr>, rep2 := Rep_started, caller2 := Up\<rparr>"
  let ?s8 = "?s7\<lparr>io2 := Io_reserving False []\<rparr>"
  let ?w = "(v2_w en)\<lparr>script := [Ret 8, Ret 0], trace := trace (v2_w en) @ [(Sys_timerfd_create, Ret 9)]\<rparr>"
  let ?s9 = "(set_w2 ?w ?s8)\<lparr>rep2 := Rep_arming 9\<rparr>"
  have "receive_step ?s0 ?s1"
    using receive_step.call_receive [of ?s0 "\<lambda>_. None" "- 1" True 0 demo_cfg True en] en(1) by (simp add: v2_start_def)
  then have 1: "?R ?s1" using v2_reach_start v2_reach_step by blast
  have "receive_step ?s1 ?s2" by (rule receive_step.io_created) (simp_all add: en)
  with 1 have 2: "?R ?s2" using v2_reach_step by blast
  have "receive_step ?s2 ?s3" by (rule receive_step.consumer_created) (simp_all add: en)
  with 2 have 3: "?R ?s3" using v2_reach_step by blast
  have "io_step ?s3 ?s4" by (rule io_step.io_begin) simp
  with 3 have 4: "?R ?s4" using v2_reach_step by blast
  have "co_step e ?s4 ?s5" by (rule co_step.co_begin) simp
  with 4 have 5: "?R ?s5" using v2_reach_step by blast
  have "receive_step ?s5 ?s6" by (rule receive_step.both_started) simp_all
  with 5 have 6: "?R ?s6" using v2_reach_step by blast
  have "receive_step ?s6 ?s7" by (rule receive_step.reporter_created) (simp_all add: en)
  with 6 have 7: "?R ?s7" using v2_reach_step by blast
  have "io_step ?s7 ?s8" by (rule io_step.outer_in) (simp_all add: en)
  with 7 have 8: "?R ?s8" using v2_reach_step by blast
  have "rep_step ?s8 ?s9"
    using rep_step.timer_made [of ?s8 9 ?w] by (simp add: sys_Some_iff en)
  with 8 have 9: "?R ?s9" using v2_reach_step by blast
  from 9 show thesis by (rule that) (simp_all add: en free_slot)
qed

lemma reserve_run:
  assumes "v2_reach e w clock s" and "io2 s = Io_reserving False idx" and "length idx \<le> kBatch"
    and "idx = [] \<longrightarrow> fst (free_pop (pl2 s)) \<noteq> None"
  shows "\<exists>s' idx'. v2_reach e w clock s' \<and> io2 s' = Io_receiving False idx' \<and> idx' \<noteq> [] \<and>
    v2_recv (en2 s') = v2_recv (en2 s) \<and> v2_w (en2 s') = v2_w (en2 s) \<and> v2_has_pool (en2 s') = v2_has_pool (en2 s) \<and>
    arrived2 s' = arrived2 s \<and> caller2 s' = caller2 s \<and> rep2 s' = rep2 s"
  using assms
proof (induction "kBatch - length idx" arbitrary: s idx)
  case 0
  then have "io_step s (s\<lparr>io2 := (if idx = [] then Io_outer else Io_receiving False idx)\<rparr>)"
    by (intro io_step.reserve_end) auto
  moreover have "idx \<noteq> []" using 0 by (auto simp: kBatch_def)
  ultimately have "v2_reach e w clock (s\<lparr>io2 := Io_receiving False idx\<rparr>)" using 0 v2_reach_step by auto
  with \<open>idx \<noteq> []\<close> show ?case by fastforce
next
  case (Suc n)
  obtain r p where pop: "free_pop (pl2 s) = (r, p)" by fastforce
  show ?case
  proof (cases r)
    case None
    with Suc.prems pop have ne: "idx \<noteq> []" by auto
    have "io_step s (s\<lparr>io2 := (if idx = [] then Io_outer else Io_receiving False idx)\<rparr>)"
      using Suc.prems pop None by (intro io_step.reserve_end) auto
    with ne Suc.prems(1) have "v2_reach e w clock (s\<lparr>io2 := Io_receiving False idx\<rparr>)" using v2_reach_step by auto
    with ne show ?thesis by fastforce
  next
    case (Some i)
    let ?s = "(set_pl2 p s)\<lparr>io2 := Io_reserving False (idx @ [i])\<rparr>"
    have "io_step s ?s" using Suc.hyps(2) Suc.prems(2) pop Some by (intro io_step.reserve_one) auto
    with Suc.prems(1) have "v2_reach e w clock ?s" using v2_reach_step by blast
    from Suc.hyps(1) [of "idx @ [i]" ?s, OF _ this] Suc.hyps(2) show ?thesis by simp
  qed
qed

lemma epoll_into_batch:
  assumes "\<And>fs c. epoll_receive (v2_recv s) fs c (v2_w s) = receive_batch r fs c w"
  shows "receive_into epoll_receive idx s = receive_into receive_batch idx (s\<lparr>v2_recv := r, v2_w := w\<rparr>)"
  using assms by (simp add: receive_into_def)

lemma received_run:
  obtains s where "v2_reach e life_world clock s" "v2_has_pool (en2 s)" "caller2 s = Up" "rep2 s = Rep_arming 9"
    "good_data (arrived2 s) = [late_frame]" "receiver_fds (v2_recv (en2 s)) = {#8, 7#}"
proof -
  obtain s0 where s0: "v2_reach e life_world clock s0" "caller2 s0 = Up" "rep2 s0 = Rep_arming 9"
    "io2 s0 = Io_reserving False []" "v2_has_pool (en2 s0)" "v2_recv (en2 s0) = receiver_new\<lparr>rx_fd := 7\<rparr>"
    "script (v2_w (en2 s0)) = [Ret 8, Ret 0]" "rxs (v2_w (en2 s0)) = [Rx [late_dgram]]"
    "evs (v2_w (en2 s0)) = evs life_world" "fst (free_pop (pl2 s0)) \<noteq> None" "arrived2 s0 = []" by (rule up_run)
  obtain s idx where s: "v2_reach e life_world clock s" "io2 s = Io_receiving False idx" "idx \<noteq> []"
    "v2_recv (en2 s) = v2_recv (en2 s0)" "v2_w (en2 s) = v2_w (en2 s0)" "v2_has_pool (en2 s)" "arrived2 s = []"
    "caller2 s = Up" "rep2 s = Rep_arming 9"
    using reserve_run [OF s0(1,4)] s0 by auto
  have own: "fp_owned (pl2 s) (idx @ co_held (co2 s))"
    using v2_reach_inv [OF s(1)] s(2,6) data_owned by (fastforce simp: v2_inv_def io_held_def)
  let ?r = "receiver_new\<lparr>rx_fd := 7, rx_epfd := 8\<rparr>"
  obtain w where ep: "\<And>fs c. epoll_receive (v2_recv (en2 s)) fs c (v2_w (en2 s)) = receive_batch ?r fs c w"
    and w: "rxs w = [Rx [late_dgram]]"
    using s0(7-9) by (simp add: s s0(6) epoll_receive_def ensure_epoll_def receiver_new_def call_def sys_def life_world_def)
  let ?en = "(en2 s)\<lparr>v2_recv := ?r, v2_w := w\<rparr>"
  have "fp_owned (v2_pool ?en) (idx @ co_held (co2 s))" "[late_dgram] \<noteq> []" "length [late_dgram] \<le> length idx"
    "rxs (v2_w ?en) = replicate 0 (Rx_fail EINTR) @ Rx [late_dgram] # []" "0 \<le> rx_fd (v2_recv ?en)"
    using own s(3) w by (simp_all add: Suc_le_eq)
  then obtain fs en where rc: "receive_into receive_batch idx ?en = Some (int (length [late_dgram]), fs, en)"
    and good: "map (\<lambda>f. the (rf_data f)) (filter frame_good (take (length [late_dgram]) fs)) =
      map rx_data (filter well_formed [late_dgram])"
    by (rule receive_into_batch)
  let ?s = "s\<lparr>en2 := en, io2 := Io_inner (zip (take (nat 1) idx) fs) (drop (nat 1) idx), arrived2 := arrived2 s @ take (nat 1) fs\<rparr>"
  have "io_step s ?s"
    by (rule io_step.receive_some [OF s(2)]) (use rc epoll_into_batch [OF ep, of idx] in simp_all)
  then have "v2_reach e life_world clock ?s" using s(1) v2_reach_step by blast
  moreover have "v2_has_pool en" "receiver_fds (v2_recv en) = {#8, 7#}"
    using rc s(6) by (auto simp: receive_into_def bind_eq_Some_conv receive_batch_def receiver_fds_def
        dest!: batch_loop_fds split: if_splits)
  moreover have "good_data (take (nat 1) fs) = [late_frame]"
    using good by (simp add: good_data_def well_formed_def late_dgram_def late_frame_def)
  ultimately show thesis using s(7-9) by (intro that [of ?s]) simp_all
qed


theorem v2_life_no_leak_witness:
  "\<exists>s. v2_reach Little life_world [] s \<and> caller2 s = Up \<and> v2_live (en2 s) = {#v2_on_numa (en2 s)#} \<and>
    open_fds (v2_w (en2 s)) = {#7, 8, 9#}"
proof -
  obtain s where s: "v2_reach Little life_world [] s" "v2_has_pool (en2 s)" "caller2 s = Up" "rep2 s = Rep_arming 9"
    "receiver_fds (v2_recv (en2 s)) = {#8, 7#}" by (rule received_run)
  have "open_fds life_world = {#}" "timer_fds (Rep_arming 9) = {#9#}"
    by (simp_all add: life_world_def open_fds_def timer_fds_def)
  with s v2_life_no_leak [OF s(1)] show ?thesis by (auto simp: add_mset_commute)
qed

text \<open>
  \<^verbatim>\<open>receive\<close> relies on \<^verbatim>\<open>stop\<close>: after the I/O thread has ended with an error, which clears
  \<^verbatim>\<open>running_\<close>, a \<^verbatim>\<open>receive\<close> whose socket cannot be opened forgets the pool of the first run, and one
  whose socket can be opened goes on to assign to the joinable thread objects.
\<close>

lemma v2_receive_after_error:
  assumes "v2_reach e w clock s" and "caller2 s = Up" and "\<not> running2 s"
    and "v2_prepare inet na True junk cfg (en2 s) = Some (ok, en)"
  shows "v2_io en \<and> (\<not> ok \<longrightarrow> v2_live en = {#v2_on_numa (en2 s)#} \<and> \<not> v2_has_pool en)"
proof -
  have "v2_io (en2 s)" "v2_has_pool (en2 s)" "v2_live (en2 s) = {#v2_on_numa (en2 s)#}"
    using v2_reach_inv [OF assms(1)] assms(2) by (auto simp: v2_inv_def ctl_inv_def res_inv_def)
  with assms(3,4) show ?thesis
    by (auto simp: v2_prepare_def create_frame_pool_def numa_create_def release_pool_def destroy_frame_pool_def
        numa_destroy_def bind_eq_Some_conv Let_def split: if_splits)
qed

end
