(* ===== verification/Bounded_Queue.thy ===== *)
theory Bounded_Queue
  imports Fifo_Spec "HOL-Library.Multiset"
begin

text \<open>
  The blocking queue \<^verbatim>\<open>src/src/containers/blocked_bounded_queue.hpp\<close>: the queue under its mutex
  as a bounded FIFO whose callers wait, and the monitor with its two condition variables as a step relation in
  which any number of threads enqueue, dequeue, close and clear.
\<close>

section \<open>The queue\<close>

definition kCapacity :: nat where
  "kCapacity = 3000"

record 'a BlockedBoundedQueue =
  bq_buffer :: "'a list"
  bq_head :: nat
  bq_tail :: nat
  bq_size :: nat
  bq_closed :: bool

definition bq_new :: "'a \<Rightarrow> 'a BlockedBoundedQueue" where
  "bq_new junk = \<lparr>bq_buffer = replicate kCapacity junk, bq_head = 0, bq_tail = 0, bq_size = 0, bq_closed = False\<rparr>"

text \<open>The conditions the two operations wait for.\<close>

definition enq_ready :: "'a BlockedBoundedQueue \<Rightarrow> bool" where
  "enq_ready q \<longleftrightarrow> bq_size q < kCapacity \<or> bq_closed q"

definition deq_ready :: "'a BlockedBoundedQueue \<Rightarrow> bool" where
  "deq_ready q \<longleftrightarrow> bq_size q > 0 \<or> bq_closed q"

text \<open>What they do once the condition holds, still under the mutex.\<close>

definition enqueue_locked :: "'a BlockedBoundedQueue \<Rightarrow> 'a \<Rightarrow> bool \<times> 'a BlockedBoundedQueue" where
  "enqueue_locked q x =
     (if bq_closed q then (False, q)
      else (True, q\<lparr>bq_buffer := (bq_buffer q)[bq_tail q := x], bq_tail := (bq_tail q + 1) mod kCapacity,
        bq_size := bq_size q + 1\<rparr>))"

definition dequeue_locked :: "'a BlockedBoundedQueue \<Rightarrow> 'a option \<times> 'a BlockedBoundedQueue" where
  "dequeue_locked q =
     (if bq_size q = 0 \<and> bq_closed q then (None, q)
      else (Some (bq_buffer q ! bq_head q), q\<lparr>bq_head := (bq_head q + 1) mod kCapacity, bq_size := bq_size q - 1\<rparr>))"

definition isFull :: "'a BlockedBoundedQueue \<Rightarrow> bool" where
  "isFull q \<longleftrightarrow> bq_size q = kCapacity"

definition isEmpty :: "'a BlockedBoundedQueue \<Rightarrow> bool" where
  "isEmpty q \<longleftrightarrow> bq_size q = 0"

definition queue_size :: "'a BlockedBoundedQueue \<Rightarrow> nat" where
  "queue_size q = bq_size q"

definition queue_closed :: "'a BlockedBoundedQueue \<Rightarrow> bool" where
  "queue_closed q = bq_closed q"

definition bq_capacity :: "'a BlockedBoundedQueue \<Rightarrow> nat" where
  "bq_capacity q = kCapacity - bq_size q"

definition bq_clear :: "'a BlockedBoundedQueue \<Rightarrow> 'a BlockedBoundedQueue" where
  "bq_clear q = q\<lparr>bq_head := 0, bq_tail := 0, bq_size := 0\<rparr>"

definition bq_close :: "'a BlockedBoundedQueue \<Rightarrow> 'a BlockedBoundedQueue" where
  "bq_close q = q\<lparr>bq_closed := True\<rparr>"

section \<open>A bounded FIFO\<close>

definition bq_inv :: "'a BlockedBoundedQueue \<Rightarrow> bool" where
  "bq_inv q \<longleftrightarrow> length (bq_buffer q) = kCapacity \<and> bq_head q < kCapacity \<and> bq_size q \<le> kCapacity \<and>
     bq_tail q = (bq_head q + bq_size q) mod kCapacity"

definition bq_list :: "'a BlockedBoundedQueue \<Rightarrow> 'a list" where
  "bq_list q = map (\<lambda>i. bq_buffer q ! ((bq_head q + i) mod kCapacity)) [0..<bq_size q]"

lemma length_bq_list [simp]: "length (bq_list q) = bq_size q"
  by (simp add: bq_list_def)

lemma kCapacity_pos [simp]: "0 < kCapacity"
  by (simp add: kCapacity_def)

lemma bq_size_le: "bq_inv q \<Longrightarrow> bq_size q \<le> kCapacity"
  by (simp add: bq_inv_def)

lemma bq_new_inv: "bq_inv (bq_new junk)" "bq_list (bq_new junk) = []"
  by (simp_all add: bq_inv_def bq_new_def bq_list_def)

lemma enqueue_locked_spec:
  assumes "bq_inv q" and "enq_ready q" and "\<not> bq_closed q"
  shows "fst (enqueue_locked q x) \<and> bq_list (snd (enqueue_locked q x)) = bq_list q @ [x] \<and>
    bq_inv (snd (enqueue_locked q x)) \<and> bq_closed (snd (enqueue_locked q x)) = bq_closed q \<and>
    bq_size (snd (enqueue_locked q x)) = bq_size q + 1"
proof -
  have room: "bq_size q < kCapacity" using assms(2,3) by (simp add: enq_ready_def)
  have tail: "bq_tail q = (bq_head q + bq_size q) mod kCapacity" "bq_tail q < length (bq_buffer q)"
    using assms(1) by (auto simp: bq_inv_def)
  have "(bq_buffer q)[bq_tail q := x] ! ((bq_head q + i) mod kCapacity) = bq_buffer q ! ((bq_head q + i) mod kCapacity)"
    if "i < bq_size q" for i
    using mod_add_neq [OF that room, of "bq_head q"] tail by simp
  then have "bq_list (snd (enqueue_locked q x)) = bq_list q @ [x]"
    using assms(3) tail by (simp add: bq_list_def enqueue_locked_def)
  then show ?thesis
    using assms(1,3) room by (auto simp: enqueue_locked_def bq_inv_def mod_Suc_eq)
qed

lemma dequeue_locked_spec:
  assumes "bq_inv q" and "0 < bq_size q"
  shows "fst (dequeue_locked q) = Some (hd (bq_list q)) \<and> bq_list (snd (dequeue_locked q)) = tl (bq_list q) \<and>
    bq_inv (snd (dequeue_locked q)) \<and> bq_closed (snd (dequeue_locked q)) = bq_closed q \<and>
    bq_size (snd (dequeue_locked q)) = bq_size q - 1"
proof -
  obtain n where n: "bq_size q = Suc n" using assms(2) by (cases "bq_size q") auto
  have head: "bq_head q mod kCapacity = bq_head q" using assms(1) by (simp add: bq_inv_def)
  have list: "bq_list q = bq_buffer q ! bq_head q #
      map (\<lambda>i. bq_buffer q ! ((bq_head q + Suc i) mod kCapacity)) [0..<n]"
    using head by (simp add: bq_list_def n map_Suc_upt [symmetric] del: map_Suc_upt upt_Suc)
      (simp add: upt_conv_Cons map_Suc_upt [symmetric] del: map_Suc_upt upt_Suc)
  have shift: "(Suc (bq_head q) mod kCapacity + i) mod kCapacity = Suc (bq_head q + i) mod kCapacity" for i
    by (simp add: mod_add_left_eq)
  show ?thesis
    using assms(1) n by (simp add: dequeue_locked_def list) (simp add: bq_list_def bq_inv_def shift)
qed

text \<open>The whole calls of a thread that is alone: \<^const>\<open>None\<close> when it has to wait.\<close>

definition enqueue :: "'a BlockedBoundedQueue \<Rightarrow> 'a \<Rightarrow> (bool \<times> 'a BlockedBoundedQueue) option" where
  "enqueue q x = (if enq_ready q then Some (enqueue_locked q x) else None)"

definition dequeue :: "'a BlockedBoundedQueue \<Rightarrow> ('a option \<times> 'a BlockedBoundedQueue) option" where
  "dequeue q = (if deq_ready q then Some (dequeue_locked q) else None)"

fun bq_call :: "'a BlockedBoundedQueue \<Rightarrow> 'a wait_op \<Rightarrow> ('a wait_out \<times> 'a BlockedBoundedQueue) option" where
  "bq_call q (Enqueue x) = map_option (\<lambda>(ok, q). (Enqueued ok, q)) (enqueue q x)"
| "bq_call q Dequeue = map_option (\<lambda>(r, q). (Dequeued r, q)) (dequeue q)"
| "bq_call q Clear = Some (Done, bq_clear q)"
| "bq_call q Close = Some (Done, bq_close q)"
| "bq_call q Is_full = Some (Said (isFull q), q)"
| "bq_call q Is_empty = Some (Said (isEmpty q), q)"
| "bq_call q Size = Some (Counted (queue_size q), q)"
| "bq_call q Room = Some (Counted (bq_capacity q), q)"
| "bq_call q Is_closed = Some (Said (queue_closed q), q)"

definition bq_abs :: "'a BlockedBoundedQueue \<Rightarrow> 'a list \<times> bool" where
  "bq_abs q = (bq_list q, bq_closed q)"

lemma bq_inv_close_clear [simp]:
  "bq_inv (bq_close q) \<longleftrightarrow> bq_inv q" "bq_inv q \<Longrightarrow> bq_inv (bq_clear q)"
  "bq_closed (bq_close q)" "bq_closed (bq_clear q) = bq_closed q" "bq_size (bq_close q) = bq_size q" "bq_size (bq_clear q) = 0"
  "bq_list (bq_close q) = bq_list q" "bq_list (bq_clear q) = []"
  by (simp_all add: bq_inv_def bq_close_def bq_clear_def bq_list_def)

lemma bq_list_Nil: "bq_list q = [] \<longleftrightarrow> bq_size q = 0"
  by (metis length_0_conv length_bq_list)

lemma bq_list_Cons: "0 < bq_size q \<Longrightarrow> bq_list q = hd (bq_list q) # tl (bq_list q)"
  by (metis bq_list_Nil less_not_refl list.collapse)

lemma enqueue_refines:
  assumes "bq_inv q"
  shows "spec_call kCapacity (bq_abs q) (Enqueue x) =
      map_option (\<lambda>(ok, q). (Enqueued ok, bq_abs q)) (enqueue q x) \<and> (\<forall>ok q'. enqueue q x = Some (ok, q') \<longrightarrow> bq_inv q')"
proof (cases "bq_closed q")
  case True
  then show ?thesis using assms by (auto simp: enqueue_def enq_ready_def enqueue_locked_def bq_abs_def)
next
  case False
  with enqueue_locked_spec [OF assms _ False, of x] show ?thesis
    by (cases "enqueue_locked q x") (auto simp: enqueue_def enq_ready_def bq_abs_def)
qed

lemma dequeue_refines:
  assumes "bq_inv q"
  shows "spec_call kCapacity (bq_abs q) Dequeue =
      map_option (\<lambda>(r, q). (Dequeued r, bq_abs q)) (dequeue q) \<and> (\<forall>r q'. dequeue q = Some (r, q') \<longrightarrow> bq_inv q')"
proof (cases "bq_size q = 0")
  case True
  then have "bq_list q = []" by (simp add: bq_list_Nil)
  with True show ?thesis using assms
    by (auto simp: dequeue_def deq_ready_def dequeue_locked_def bq_abs_def)
next
  case False
  then have pos: "0 < bq_size q" by simp
  obtain y ys where ys: "bq_list q = y # ys" using bq_list_Cons [OF pos] by blast
  with dequeue_locked_spec [OF assms pos] pos show ?thesis
    by (cases "dequeue_locked q") (auto simp: dequeue_def deq_ready_def bq_abs_def)
qed

lemma bq_call_refines:
  assumes "bq_inv q"
  shows "spec_call kCapacity (bq_abs q) op = map_option (\<lambda>(r, q'). (r, bq_abs q')) (bq_call q op) \<and>
    (\<forall>r q'. bq_call q op = Some (r, q') \<longrightarrow> bq_inv q')"
proof (cases op)
  case (Enqueue x)
  with enqueue_refines [OF assms, of x] show ?thesis by (auto simp: option.map_comp comp_def case_prod_unfold)
next
  case Dequeue
  with dequeue_refines [OF assms] show ?thesis by (auto simp: option.map_comp comp_def case_prod_unfold)
qed (use assms in \<open>auto simp: bq_abs_def bq_list_Nil isFull_def isEmpty_def queue_size_def bq_capacity_def queue_closed_def\<close>)

interpretation bbq: waiting_fifo bq_call bq_abs kCapacity bq_inv
proof unfold_locales
  fix q op
  assume "bq_inv q" "bq_call q op = None"
  with bq_call_refines [of q op] show "spec_call kCapacity (bq_abs q) op = None" by simp
next
  fix q op r q'
  assume "bq_inv q" "bq_call q op = Some (r, q')"
  with bq_call_refines [of q op] show "bq_inv q' \<and> spec_call kCapacity (bq_abs q) op = Some (r, bq_abs q')" by simp
qed

section \<open>The monitor\<close>

text \<open>
  The threads inside the operations: producers asleep on \<^verbatim>\<open>cv_not_full_\<close> and producers awake and
  about to take the mutex, each with its element; producers that have enqueued and are about
  to notify; the same for consumers; and threads in \<^verbatim>\<open>close\<close> before either of its two
  notifications. Two more fields record the history: the elements in the order in which they
  entered the queue, and those that left it, each with whether a consumer got it or \<^verbatim>\<open>clear\<close>
  discarded it.
\<close>

record 'a monitor =
  mq :: "'a BlockedBoundedQueue"
  p_asleep :: "'a multiset"
  p_awake :: "'a multiset"
  p_notify :: nat
  c_asleep :: nat
  c_awake :: nat
  c_notify :: nat
  close_full :: nat
  close_empty :: nat
  entered :: "'a list"
  gone :: "(bool \<times> 'a) list"

definition mon_init :: "'a \<Rightarrow> 'a monitor" where
  "mon_init junk = \<lparr>mq = bq_new junk, p_asleep = {#}, p_awake = {#}, p_notify = 0, c_asleep = 0, c_awake = 0,
     c_notify = 0, close_full = 0, close_empty = 0, entered = [], gone = []\<rparr>"

text \<open>
  The steps; the first argument says whether \<^verbatim>\<open>clear\<close> is called at all. Taking the mutex,
  testing the condition and the operation or going to sleep are one step, since the mutex is
  held throughout; \<^verbatim>\<open>notify_one\<close> comes after the mutex is released. A sleeping thread may
  also wake up spuriously.
\<close>

inductive mon_step :: "bool \<Rightarrow> 'a monitor \<Rightarrow> 'a monitor \<Rightarrow> bool" for clears where
  p_call: "mon_step clears s (s\<lparr>p_awake := add_mset x (p_awake s)\<rparr>)"
| p_sleep: "x \<in># p_awake s \<Longrightarrow> \<not> enq_ready (mq s) \<Longrightarrow>
    mon_step clears s (s\<lparr>p_awake := p_awake s - {#x#}, p_asleep := add_mset x (p_asleep s)\<rparr>)"
| p_go: "x \<in># p_awake s \<Longrightarrow> enq_ready (mq s) \<Longrightarrow> enqueue_locked (mq s) x = (ok, q) \<Longrightarrow>
    mon_step clears s (s\<lparr>p_awake := p_awake s - {#x#}, mq := q,
      p_notify := p_notify s + (if ok then 1 else 0), entered := entered s @ (if ok then [x] else [])\<rparr>)"
| p_notify_one: "0 < p_notify s \<Longrightarrow> 0 < c_asleep s \<Longrightarrow>
    mon_step clears s (s\<lparr>p_notify := p_notify s - 1, c_asleep := c_asleep s - 1, c_awake := c_awake s + 1\<rparr>)"
| p_notify_none: "0 < p_notify s \<Longrightarrow> c_asleep s = 0 \<Longrightarrow> mon_step clears s (s\<lparr>p_notify := p_notify s - 1\<rparr>)"
| p_spurious: "x \<in># p_asleep s \<Longrightarrow>
    mon_step clears s (s\<lparr>p_asleep := p_asleep s - {#x#}, p_awake := add_mset x (p_awake s)\<rparr>)"
| c_call: "mon_step clears s (s\<lparr>c_awake := c_awake s + 1\<rparr>)"
| c_sleep: "0 < c_awake s \<Longrightarrow> \<not> deq_ready (mq s) \<Longrightarrow>
    mon_step clears s (s\<lparr>c_awake := c_awake s - 1, c_asleep := c_asleep s + 1\<rparr>)"
| c_go: "0 < c_awake s \<Longrightarrow> deq_ready (mq s) \<Longrightarrow> dequeue_locked (mq s) = (r, q) \<Longrightarrow>
    mon_step clears s (s\<lparr>c_awake := c_awake s - 1, mq := q, c_notify := c_notify s + (if r = None then 0 else 1),
      gone := gone s @ (case r of None \<Rightarrow> [] | Some y \<Rightarrow> [(True, y)])\<rparr>)"
| c_notify_one: "0 < c_notify s \<Longrightarrow> x \<in># p_asleep s \<Longrightarrow>
    mon_step clears s (s\<lparr>c_notify := c_notify s - 1, p_asleep := p_asleep s - {#x#}, p_awake := add_mset x (p_awake s)\<rparr>)"
| c_notify_none: "0 < c_notify s \<Longrightarrow> p_asleep s = {#} \<Longrightarrow> mon_step clears s (s\<lparr>c_notify := c_notify s - 1\<rparr>)"
| c_spurious: "0 < c_asleep s \<Longrightarrow>
    mon_step clears s (s\<lparr>c_asleep := c_asleep s - 1, c_awake := c_awake s + 1\<rparr>)"
| close_set: "mon_step clears s (s\<lparr>mq := bq_close (mq s), close_full := close_full s + 1\<rparr>)"
| close_wake_p: "0 < close_full s \<Longrightarrow>
    mon_step clears s (s\<lparr>close_full := close_full s - 1, close_empty := close_empty s + 1,
      p_awake := p_awake s + p_asleep s, p_asleep := {#}\<rparr>)"
| close_wake_c: "0 < close_empty s \<Longrightarrow>
    mon_step clears s (s\<lparr>close_empty := close_empty s - 1, c_awake := c_awake s + c_asleep s, c_asleep := 0\<rparr>)"
| clear: "clears \<Longrightarrow>
    mon_step clears s (s\<lparr>mq := bq_clear (mq s), gone := gone s @ map (Pair False) (bq_list (mq s))\<rparr>)"

inductive mon_reach :: "bool \<Rightarrow> 'a \<Rightarrow> 'a monitor \<Rightarrow> bool" for clears junk where
  mon_start: "mon_reach clears junk (mon_init junk)"
| mon_next: "mon_reach clears junk s \<Longrightarrow> mon_step clears s s' \<Longrightarrow> mon_reach clears junk s'"

text \<open>No thread is about to run: everyone is outside or asleep.\<close>

definition quiescent :: "'a monitor \<Rightarrow> bool" where
  "quiescent s \<longleftrightarrow> p_awake s = {#} \<and> p_notify s = 0 \<and> c_awake s = 0 \<and> c_notify s = 0 \<and> close_full s = 0 \<and>
     close_empty s = 0"

text \<open>
  While anyone sleeps, there are at least as many awake or notifying threads as there are
  free places (elements) to wake up for; once the queue is closed, someone is about to wake
  all.
\<close>

definition mon_inv :: "bool \<Rightarrow> 'a monitor \<Rightarrow> bool" where
  "mon_inv clears s \<longleftrightarrow> bq_inv (mq s) \<and>
     (\<not> clears \<and> p_asleep s \<noteq> {#} \<longrightarrow>
       (if bq_closed (mq s) then 0 < close_full s else kCapacity - bq_size (mq s) \<le> c_notify s + size (p_awake s))) \<and>
     (0 < c_asleep s \<longrightarrow>
       (if bq_closed (mq s) then 0 < close_full s + close_empty s else bq_size (mq s) \<le> p_notify s + c_awake s))"

lemma size_minus_one: "x \<in># M \<Longrightarrow> size M = Suc (size (M - {#x#}))"
  by (metis insert_DiffM size_add_mset)

lemma enqueue_closed: "bq_closed q \<Longrightarrow> enqueue_locked q x = (False, q)"
  by (simp add: enqueue_locked_def)

lemma mon_inv_step:
  assumes "mon_step clears s s'" and "mon_inv clears s"
  shows "mon_inv clears s'"
  using assms
proof (induction rule: mon_step.induct)
  case (p_go x s ok q)
  show ?case
  proof (cases "bq_closed (mq s)")
    case True
    with p_go show ?thesis by (auto simp: mon_inv_def enqueue_closed)
  next
    case False
    have "bq_inv (mq s)" using p_go.prems by (simp add: mon_inv_def)
    from enqueue_locked_spec [OF this p_go.hyps(2) False, of x] p_go False
    show ?thesis by (auto simp: mon_inv_def size_minus_one)
  qed
next
  case (c_go s r q)
  have inv: "bq_inv (mq s)" using c_go.prems by (simp add: mon_inv_def)
  show ?case
  proof (cases "bq_size (mq s) = 0")
    case True
    with c_go.hyps have "r = None" "q = mq s" "bq_closed (mq s)"
      by (auto simp: dequeue_locked_def deq_ready_def)
    with c_go show ?thesis by (auto simp: mon_inv_def)
  next
    case False
    from dequeue_locked_spec [OF inv] False c_go show ?thesis by (auto simp: mon_inv_def)
  qed
next
  case (p_sleep x s)
  then show ?case by (auto simp: mon_inv_def enq_ready_def)
next
  case (c_sleep s)
  then show ?case by (auto simp: mon_inv_def deq_ready_def)
next
  case (c_notify_one s x)
  then show ?case by (auto simp: mon_inv_def)
next
  case (p_spurious x s)
  then show ?case by (auto simp: mon_inv_def)
qed (auto simp: mon_inv_def)

lemma mon_reach_inv: "mon_reach clears junk s \<Longrightarrow> mon_inv clears s"
proof (induction rule: mon_reach.induct)
  case mon_start
  show ?case by (simp add: mon_inv_def mon_init_def bq_new_inv)
next
  case (mon_next s s')
  then show ?case by (blast intro: mon_inv_step)
qed

text \<open>
  C26. Alone in the queue, a caller sees a bounded FIFO that can be closed: for any sequence
  of calls of all the operations, the answers are those of the specification with a bound
  of 3000, the first call that waits is the one at which the specification waits (an enqueue
  on a full open queue, a dequeue on an empty open one), and the contents and the closed flag
  are the specified ones.
\<close>

theorem blocking_queue_refines_fifo:
  assumes "bq_inv q"
  shows "case run_calls bq_call q ops of (answers, q', waits) \<Rightarrow>
    run_calls (spec_call 3000) (bq_list q, bq_closed q) ops = (answers, (bq_list q', bq_closed q'), waits) \<and> bq_inv q'"
proof -
  obtain answers q' waits where r: "run_calls bq_call q ops = (answers, q', waits)" by (metis prod_cases3)
  from bbq.calls_refine [OF assms r] r show ?thesis by (simp add: bq_abs_def kCapacity_def)
qed

theorem blocking_queue_refines_fifo_witness:
  "case run_calls bq_call (bq_new (0 :: nat)) [Enqueue 3, Enqueue 4, Dequeue, Close, Enqueue 5, Dequeue, Dequeue, Clear] of
    (answers, q', waits) \<Rightarrow> answers = [Enqueued True, Enqueued True, Dequeued (Some 3), Done, Enqueued False,
      Dequeued (Some 4), Dequeued None, Done] \<and> bq_list q' = [] \<and> \<not> waits"
proof -
  have "bq_inv (bq_new (0 :: nat))" "bq_list (bq_new (0 :: nat)) = []" "\<not> bq_closed (bq_new (0 :: nat))"
    by (simp_all add: bq_new_inv) (simp add: bq_new_def)
  with blocking_queue_refines_fifo [OF this(1), of "[Enqueue 3, Enqueue 4, Dequeue, Close, Enqueue 5, Dequeue, Dequeue, Clear]"]
  show ?thesis by (auto split: prod.splits)
qed

section \<open>Order under concurrency\<close>

definition hist_inv :: "bool \<Rightarrow> 'a monitor \<Rightarrow> bool" where
  "hist_inv clears s \<longleftrightarrow> entered s = map snd (gone s) @ bq_list (mq s) \<and> (\<not> clears \<longrightarrow> (\<forall>g\<in>set (gone s). fst g))"

lemma hist_inv_step:
  assumes "mon_step clears s s'" and "mon_inv clears s" and "hist_inv clears s"
  shows "hist_inv clears s'"
  using assms
proof (induction rule: mon_step.induct)
  case (p_go x s ok q)
  show ?case
  proof (cases "bq_closed (mq s)")
    case True
    with p_go show ?thesis by (auto simp: hist_inv_def enqueue_closed)
  next
    case False
    have "bq_inv (mq s)" using p_go.prems by (simp add: mon_inv_def)
    from enqueue_locked_spec [OF this p_go.hyps(2) False, of x] p_go show ?thesis by (auto simp: hist_inv_def)
  qed
next
  case (c_go s r q)
  have inv: "bq_inv (mq s)" using c_go.prems by (simp add: mon_inv_def)
  show ?case
  proof (cases "bq_size (mq s) = 0")
    case True
    with c_go.hyps have "r = None" "q = mq s" by (auto simp: dequeue_locked_def deq_ready_def)
    with c_go show ?thesis by (auto simp: hist_inv_def)
  next
    case False
    with dequeue_locked_spec [OF inv] bq_list_Cons [of "mq s"] c_go show ?thesis by (auto simp: hist_inv_def)
  qed
next
  case (clear s)
  then show ?case by (simp add: hist_inv_def comp_def)
qed (auto simp: hist_inv_def)

lemma mon_reach_hist: "mon_reach clears junk s \<Longrightarrow> hist_inv clears s"
proof (induction rule: mon_reach.induct)
  case mon_start
  show ?case by (simp add: hist_inv_def mon_init_def bq_new_inv)
next
  case (mon_next s s')
  show ?case by (rule hist_inv_step [OF mon_next.hyps(2) mon_reach_inv [OF mon_next.hyps(1)] mon_next.IH])
qed

text \<open>
  C12. Any number of producers and consumers, with waiting, spurious wake-ups, closing and
  clearing in any interleaving: the elements leave the queue in exactly the order in which
  they entered it, none is lost or duplicated, the rest is what the queue holds, at most 3000;
  and without \<^verbatim>\<open>clear\<close> every element that left was handed to a consumer.
\<close>

theorem monitor_fifo:
  assumes "mon_reach clears junk s"
  shows "entered s = map snd (gone s) @ bq_list (mq s) \<and> length (bq_list (mq s)) \<le> 3000 \<and>
    (\<not> clears \<longrightarrow> (\<forall>g\<in>set (gone s). fst g))"
  using mon_reach_hist [OF assms] mon_reach_inv [OF assms] bq_size_le [of "mq s"]
  by (simp add: hist_inv_def mon_inv_def kCapacity_def)

theorem monitor_fifo_witness:
  "\<exists>s. mon_reach False (7 :: nat) s \<and> entered s = [5] \<and> entered s = map snd (gone s) @ bq_list (mq s)"
proof -
  let ?s0 = "mon_init (7 :: nat)"
  let ?s1 = "?s0\<lparr>p_awake := add_mset 5 (p_awake ?s0)\<rparr>"
  let ?q = "snd (enqueue_locked (mq ?s1) 5)"
  let ?s2 = "?s1\<lparr>p_awake := p_awake ?s1 - {#5#}, mq := ?q, p_notify := p_notify ?s1 + (if True then 1 else 0),
    entered := entered ?s1 @ (if True then [5] else [])\<rparr>"
  have "mon_step False ?s0 ?s1" by (rule mon_step.p_call)
  moreover have "mon_step False ?s1 ?s2"
    by (intro mon_step.p_go) (auto simp: mon_init_def bq_new_def enq_ready_def enqueue_locked_def)
  ultimately have r: "mon_reach False 7 ?s2" by (meson mon_start mon_next)
  moreover have "entered ?s2 = [5]" by (simp add: mon_init_def)
  ultimately show ?thesis using monitor_fifo [OF r] by blast
qed

text \<open>
  C11. No lost wake-up: as long as \<^verbatim>\<open>clear\<close> is not used, whenever all threads are outside the
  queue or asleep, a sleeping producer means that the queue is full and open, and a sleeping
  consumer that it is empty and open. So no thread sleeps on a condition that holds, after
  \<^verbatim>\<open>close\<close> nobody stays asleep, and producers and consumers never wait for each other at the
  same time.
\<close>

theorem no_lost_wakeup:
  assumes "mon_reach False junk s" and "quiescent s"
  shows "(p_asleep s \<noteq> {#} \<longrightarrow> isFull (mq s) \<and> \<not> bq_closed (mq s)) \<and>
    (0 < c_asleep s \<longrightarrow> isEmpty (mq s) \<and> \<not> bq_closed (mq s))"
  using mon_reach_inv [OF assms(1)] assms(2) bq_size_le [of "mq s"]
  by (auto simp: mon_inv_def quiescent_def isFull_def isEmpty_def split: if_splits)

theorem no_lost_wakeup_witness:
  "\<exists>s. mon_reach False (0 :: nat) s \<and> 0 < c_asleep s \<and> isEmpty (mq s) \<and> \<not> bq_closed (mq s)"
proof -
  let ?s = "(mon_init (0 :: nat))\<lparr>c_awake := 0, c_asleep := 1\<rparr>"
  have "mon_step False (mon_init (0 :: nat)) ((mon_init 0)\<lparr>c_awake := 1\<rparr>)"
    using mon_step.c_call [of False "mon_init (0 :: nat)"] by (simp add: mon_init_def)
  moreover have "mon_step False ((mon_init (0 :: nat))\<lparr>c_awake := 1\<rparr>) ?s"
    using mon_step.c_sleep [of "(mon_init (0 :: nat))\<lparr>c_awake := 1\<rparr>" False]
    by (simp add: mon_init_def deq_ready_def bq_new_def)
  ultimately have r: "mon_reach False 0 ?s"
    by (meson mon_start mon_next)
  have "quiescent ?s" by (simp add: quiescent_def mon_init_def)
  from no_lost_wakeup [OF r this] r show ?thesis
    by (intro exI [of _ ?s]) (simp add: mon_init_def)
qed

section \<open>What clearing breaks\<close>

lemma fill_queue:
  "n \<le> kCapacity \<Longrightarrow> \<exists>s. mon_reach True junk s \<and> quiescent s \<and> bq_size (mq s) = n \<and> p_asleep s = {#} \<and>
    c_asleep s = 0 \<and> \<not> bq_closed (mq s)"
proof (induction n)
  case 0
  have "mon_reach True junk (mon_init junk)" by (rule mon_start)
  then show ?case
    by (intro exI [of _ "mon_init junk"]) (simp add: mon_init_def quiescent_def bq_new_def)
next
  case (Suc n)
  then obtain s where s: "mon_reach True junk s" "quiescent s" "bq_size (mq s) = n" "p_asleep s = {#}"
    "c_asleep s = 0" "\<not> bq_closed (mq s)"
    by auto
  let ?q = "snd (enqueue_locked (mq s) junk)"
  let ?s1 = "s\<lparr>p_awake := add_mset junk (p_awake s)\<rparr>"
  let ?s2 = "?s1\<lparr>p_awake := p_awake ?s1 - {#junk#}, mq := ?q, p_notify := p_notify ?s1 + (if True then 1 else 0),
    entered := entered ?s1 @ (if True then [junk] else [])\<rparr>"
  let ?s3 = "?s2\<lparr>p_notify := p_notify ?s2 - 1\<rparr>"
  have inv: "bq_inv (mq s)" using mon_reach_inv [OF s(1)] by (simp add: mon_inv_def)
  have ready: "enq_ready (mq s)" using s(3) Suc.prems by (simp add: enq_ready_def)
  note enq = enqueue_locked_spec [OF inv ready s(6), of junk]
  have "mon_step True s ?s1" by (rule mon_step.p_call)
  moreover have "mon_step True ?s1 ?s2"
    using ready enq by (intro mon_step.p_go) (auto simp: prod_eq_iff)
  moreover have "mon_step True ?s2 ?s3"
    using s(5) by (intro mon_step.p_notify_none) auto
  ultimately have "mon_reach True junk ?s3" using s(1) by (meson mon_next)
  with s enq show ?case
    by (intro exI [of _ ?s3]) (simp add: quiescent_def)
qed

text \<open>
  C38. \<^verbatim>\<open>clear\<close> empties the queue without notifying \<^verbatim>\<open>cv_not_full_\<close>: there is a run after which
  all threads are outside or asleep, the queue is empty and open, and a producer sleeps,
  waiting for room.
\<close>

theorem clear_strands_producer:
  "\<exists>s. mon_reach True junk s \<and> quiescent s \<and> p_asleep s \<noteq> {#} \<and> isEmpty (mq s) \<and> \<not> bq_closed (mq s)"
proof -
  obtain s where s: "mon_reach True junk s" "quiescent s" "bq_size (mq s) = kCapacity" "p_asleep s = {#}"
    "c_asleep s = 0" "\<not> bq_closed (mq s)"
    using fill_queue [of kCapacity junk] by auto
  let ?s1 = "s\<lparr>p_awake := add_mset junk (p_awake s)\<rparr>"
  let ?s2 = "?s1\<lparr>p_awake := p_awake ?s1 - {#junk#}, p_asleep := add_mset junk (p_asleep ?s1)\<rparr>"
  let ?s3 = "?s2\<lparr>mq := bq_clear (mq ?s2), gone := gone ?s2 @ map (Pair False) (bq_list (mq ?s2))\<rparr>"
  have "mon_step True s ?s1" by (rule mon_step.p_call)
  moreover have "mon_step True ?s1 ?s2"
    using s(3,6) by (intro mon_step.p_sleep) (simp_all add: enq_ready_def)
  moreover have "mon_step True ?s2 ?s3" by (rule mon_step.clear) simp
  ultimately have "mon_reach True junk ?s3" using s(1) by (meson mon_next)
  with s show ?thesis
    by (intro exI [of _ ?s3]) (simp add: quiescent_def isEmpty_def)
qed

end
