(* ===== verification/Udp_Sender.thy ===== *)
theory Udp_Sender
  imports Posix "HOL-Library.Monad_Syntax"
begin

text \<open>
  The sending socket of generator v2: \<^verbatim>\<open>src/src/common/net/v2/udp_sender.cpp\<close>, the Linux
  branch. The answers of the kernel are in the \<open>world\<close>; its trace tells which datagrams were
  accepted.
\<close>

section \<open>State\<close>

record SenderConfig =
  snd_local_ip :: "string option"
  snd_local_port :: u16
  snd_remote_ip :: "string option"
  snd_remote_port :: u16
  snd_sndbuf_bytes :: int
  snd_connect_socket :: bool

definition default_sender_config :: SenderConfig where
  "default_sender_config = \<lparr>snd_local_ip = Some ''0.0.0.0'', snd_local_port = 0, snd_remote_ip = Some ''127.0.0.1'',
     snd_remote_port = 0, snd_sndbuf_bytes = 0, snd_connect_socket = True\<rparr>"

record TxFrame =
  tx_data :: "bytes option"
  tx_len :: nat

record SenderStats =
  sent_packets :: u64
  sent_bytes :: u64
  sent_errors :: u64
  tx_eagain :: u64

record Sender =
  tx_fd :: int
  tx_connected :: bool
  tx_remote :: sockaddr_in
  tx_stats :: SenderStats

definition sender_new :: Sender where
  "sender_new = \<lparr>tx_fd = - 1, tx_connected = False, tx_remote = no_addr,
     tx_stats = \<lparr>sent_packets = 0, sent_bytes = 0, sent_errors = 0, tx_eagain = 0\<rparr>\<rparr>"

definition send_error :: "Sender \<Rightarrow> Sender" where
  "send_error s = s\<lparr>tx_stats := (tx_stats s)\<lparr>sent_errors := sent_errors (tx_stats s) + 1\<rparr>\<rparr>"

definition send_eagain :: "Sender \<Rightarrow> Sender" where
  "send_eagain s = s\<lparr>tx_stats := (tx_stats s)\<lparr>tx_eagain := tx_eagain (tx_stats s) + 1\<rparr>\<rparr>"

definition sent_one :: "Sender \<Rightarrow> nat \<Rightarrow> Sender" where
  "sent_one s len = s\<lparr>tx_stats := (tx_stats s)\<lparr>sent_packets := sent_packets (tx_stats s) + 1,
     sent_bytes := sent_bytes (tx_stats s) + of_nat len\<rparr>\<rparr>"

definition kMaxSendRetries :: nat where
  "kMaxSendRetries = 200"

definition is_transient_send_error :: "errno \<Rightarrow> bool" where
  "is_transient_send_error e \<longleftrightarrow> e = EAGAIN \<or> e = EWOULDBLOCK \<or> e = ENOBUFS"

section \<open>Opening and closing\<close>

definition sender_close :: "Sender \<Rightarrow> world \<Rightarrow> Sender \<times> world" where
  "sender_close s w =
     (s\<lparr>tx_fd := - 1, tx_connected := False, tx_remote := no_addr\<rparr>,
      if 0 \<le> tx_fd s then sys_close (tx_fd s) w else w)"

definition sender_open ::
  "(string \<Rightarrow> u32 option) \<Rightarrow> SenderConfig \<Rightarrow> Sender \<Rightarrow> world \<Rightarrow> (bool \<times> Sender \<times> world) option" where
  "sender_open inet_pton cfg s w =
     (let (s, w) = sender_close s w in
      if snd_remote_ip cfg = None \<or> snd_remote_ip cfg = Some [] \<or> snd_remote_port cfg = 0 then Some (False, s, w)
      else
      call (Sys_socket_dgram True) w (\<lambda>w. (False, s, w)) (\<lambda>n w.
      let sockfd = int n; bail = (\<lambda>w. (False, s, sys_close sockfd w)) in
      call_if (0 < snd_sndbuf_bytes cfg) (Sys_setsockopt sockfd SO_SNDBUF (snd_sndbuf_bytes cfg)) w bail (\<lambda>w.
      case (if snd_local_ip cfg = None \<or> snd_local_ip cfg = Some [] then Some INADDR_ANY
            else inet_pton (the (snd_local_ip cfg))) of
        None \<Rightarrow> Some (bail w)
      | Some a \<Rightarrow>
        call (Sys_bind sockfd \<lparr>sin_inet = True, sin_port = snd_local_port cfg, sin_addr = a\<rparr>) w bail (\<lambda>_ w.
        case inet_pton (the (snd_remote_ip cfg)) of
          None \<Rightarrow> Some (bail w)
        | Some ra \<Rightarrow>
            let remote = \<lparr>sin_inet = True, sin_port = snd_remote_port cfg, sin_addr = ra\<rparr> in
            if snd_connect_socket cfg then
              call (Sys_connect sockfd remote) w bail (\<lambda>_ w.
              Some (True, s\<lparr>tx_remote := remote, tx_connected := True, tx_fd := sockfd\<rparr>, w))
            else Some (True, s\<lparr>tx_remote := remote, tx_connected := False, tx_fd := sockfd\<rparr>, w)))))"

section \<open>Sending\<close>

lemma sys_script: "sys c w = Some (r, w') \<Longrightarrow> length (script w') < length (script w)"
  by (auto simp: sys_def split: list.splits)

text \<open>\<open>retry\<close> counts the transient failures so far; \<^const>\<open>None\<close>: the kernel gives no answer.\<close>

function send_one_loop :: "Sender \<Rightarrow> bytes \<Rightarrow> nat \<Rightarrow> nat \<Rightarrow> world \<Rightarrow> (bool \<times> Sender \<times> world) option" where
  "send_one_loop s data len retry w =
     (case sys (if tx_connected s then Sys_send (tx_fd s) data else Sys_sendto (tx_fd s) data (tx_remote s)) w of
        None \<Rightarrow> None
      | Some (Ret n, w) \<Rightarrow> if n = len then Some (True, sent_one s len, w) else Some (False, send_error s, w)
      | Some (Fail e, w) \<Rightarrow>
          if e = EINTR then send_one_loop s data len retry w
          else if is_transient_send_error e then
            if retry < kMaxSendRetries then send_one_loop (send_eagain s) data len (retry + 1) w
            else Some (False, send_error (send_eagain s), w)
          else Some (False, send_error s, w))"
  by pat_completeness auto
termination
  by (relation "measure (\<lambda>(s, data, len, retry, w). length (script w))") (auto dest: sys_script)

definition send_one :: "Sender \<Rightarrow> bytes option \<Rightarrow> nat \<Rightarrow> world \<Rightarrow> (bool \<times> Sender \<times> world) option" where
  "send_one s data len w =
     (if tx_fd s < 0 \<or> data = None \<or> len = 0 then Some (False, send_error s, w)
      else send_one_loop s (take len (the data)) len 0 w)"

definition frame_bytes :: "TxFrame \<Rightarrow> bytes" where
  "frame_bytes f = take (tx_len f) (the (tx_data f))"

definition bad_frame :: "TxFrame \<Rightarrow> bool" where
  "bad_frame f \<longleftrightarrow> tx_data f = None \<or> tx_len f = 0"

text \<open>
  The loop over the frames that remain, with the inner retry loop: each round is one
  \<^verbatim>\<open>sendmmsg\<close>. Building the message headers fails on the first frame without data.
  \<^const>\<open>None\<close>: no further answer, or the kernel reports more messages than it was given.
\<close>

function send_batch_loop ::
  "Sender \<Rightarrow> TxFrame list \<Rightarrow> nat \<Rightarrow> nat \<Rightarrow> nat \<Rightarrow> world \<Rightarrow> (nat \<times> Sender \<times> world) option" where
  "send_batch_loop s frames cnt sent retry w =
     (if cnt \<le> sent then Some (sent, s, w)
      else
        let rest = take (cnt - sent) (drop sent frames) in
        if length frames < cnt then None
        else if \<exists>f\<in>set rest. bad_frame f then Some (sent, send_error s, w)
        else case sys (Sys_sendmmsg (tx_fd s) (map frame_bytes rest)
            (if tx_connected s then None else Some (tx_remote s))) w of
          None \<Rightarrow> None
        | Some (Ret n, w) \<Rightarrow>
            if n = 0 then Some (sent, send_error s, w)
            else if length rest < n then None
            else send_batch_loop (foldl sent_one s (map tx_len (take n rest))) frames cnt (sent + n) 0 w
        | Some (Fail e, w) \<Rightarrow>
            if e = EINTR then send_batch_loop s frames cnt sent retry w
            else if is_transient_send_error e then
              if retry < kMaxSendRetries then send_batch_loop (send_eagain s) frames cnt sent (retry + 1) w
              else Some (sent, send_error (send_eagain s), w)
            else Some (sent, send_error s, w))"
  by pat_completeness auto
termination
  by (relation "measure (\<lambda>(s, frames, cnt, sent, retry, w). length (script w))") (auto dest: sys_script)

definition sender_send_batch ::
  "Sender \<Rightarrow> TxFrame list option \<Rightarrow> nat \<Rightarrow> world \<Rightarrow> (int \<times> Sender \<times> world) option" where
  "sender_send_batch s frames cnt w =
     (if tx_fd s < 0 \<or> (frames = None \<and> cnt \<noteq> 0) then Some (- 1, send_error s, w)
      else if cnt = 0 then Some (0, s, w)
      else map_option (\<lambda>(n, s, w). (int n, s, w)) (send_batch_loop s (the frames) cnt 0 0 w))"

text \<open>The branch for other systems than Linux: one system call per frame, with the retries of \<open>send_one\<close>.\<close>

fun send_each :: "Sender \<Rightarrow> TxFrame list \<Rightarrow> nat \<Rightarrow> world \<Rightarrow> (nat \<times> Sender \<times> world) option" where
  "send_each s [] sent w = Some (sent, s, w)"
| "send_each s (f # fs) sent w =
     (if bad_frame f then Some (sent, send_error s, w)
      else case send_one_loop s (frame_bytes f) (tx_len f) 0 w of
          None \<Rightarrow> None
        | Some (ok, s, w) \<Rightarrow> if ok then send_each s fs (sent + 1) w else Some (sent, s, w))"

definition send_batch_portable ::
  "Sender \<Rightarrow> TxFrame list option \<Rightarrow> nat \<Rightarrow> world \<Rightarrow> (int \<times> Sender \<times> world) option" where
  "send_batch_portable s frames cnt w =
     (if tx_fd s < 0 \<or> (frames = None \<and> cnt \<noteq> 0) then Some (- 1, send_error s, w)
      else if cnt = 0 then Some (0, s, w)
      else if length (the frames) < cnt then None
      else map_option (\<lambda>(n, s, w). (int n, s, w)) (send_each s (take cnt (the frames)) 0 w))"

declare send_one_loop.simps [simp del] send_batch_loop.simps [simp del]

section \<open>What reaches the kernel\<close>

text \<open>The datagrams the calls of a trace handed over successfully.\<close>

fun accepted_by :: "syscall \<times> sysret \<Rightarrow> bytes list" where
  "accepted_by (Sys_sendmmsg fd bs a, Ret n) = take n bs"
| "accepted_by (Sys_send fd bs, Ret n) = (if n = length bs then [bs] else [])"
| "accepted_by (Sys_sendto fd bs a, Ret n) = (if n = length bs then [bs] else [])"
| "accepted_by _ = []"

definition on_wire :: "world \<Rightarrow> bytes list" where
  "on_wire w = concat (map accepted_by (trace w))"

lemma on_wire_sys: "sys c w = Some (r, w') \<Longrightarrow> on_wire w' = on_wire w @ accepted_by (c, r)"
  by (auto simp: sys_def on_wire_def split: list.splits)

lemma on_wire_sleep [simp]: "on_wire (sys_sleep_until t w) = on_wire w"
  by (simp add: on_wire_def sys_sleep_until_def)

lemma accepted_by_fail [simp]: "accepted_by (c, Fail e) = []"
  by (cases c) auto

lemma sent_stats:
  "sent_packets (tx_stats (foldl sent_one s ls)) = sent_packets (tx_stats s) + of_nat (length ls)"
  "sent_bytes (tx_stats (foldl sent_one s ls)) = sent_bytes (tx_stats s) + of_nat (sum_list ls)"
  "sent_errors (tx_stats (foldl sent_one s ls)) = sent_errors (tx_stats s)"
  "tx_fd (foldl sent_one s ls) = tx_fd s"
  by (induction ls arbitrary: s) (simp_all add: sent_one_def)

lemma send_other_stats [simp]:
  "sent_packets (tx_stats (send_error s)) = sent_packets (tx_stats s)"
  "sent_bytes (tx_stats (send_error s)) = sent_bytes (tx_stats s)"
  "sent_packets (tx_stats (send_eagain s)) = sent_packets (tx_stats s)"
  "sent_bytes (tx_stats (send_eagain s)) = sent_bytes (tx_stats s)"
  "sent_errors (tx_stats (send_eagain s)) = sent_errors (tx_stats s)"
  "sent_errors (tx_stats (send_error s)) = sent_errors (tx_stats s) + 1"
  "tx_fd (send_error s) = tx_fd s" "tx_fd (send_eagain s) = tx_fd s"
  by (simp_all add: send_error_def send_eagain_def)

lemma fd_effect_send [simp]:
  "fd_effect (Sys_sendmmsg fd bs a, r) M = M" "fd_effect (Sys_send fd b, r) M = M" "fd_effect (Sys_sendto fd b a', r) M = M"
  by (cases r; simp)+

text \<open>What a run of the loop from \<open>sent\<close> to \<open>k\<close> did.\<close>

definition batch_effect :: "TxFrame list \<Rightarrow> nat \<Rightarrow> nat \<Rightarrow> nat \<Rightarrow> Sender \<times> world \<Rightarrow> Sender \<times> world \<Rightarrow> bool" where
  "batch_effect frames cnt sent k sw sw' \<longleftrightarrow> sent \<le> k \<and> k \<le> cnt \<and>
     on_wire (snd sw') = on_wire (snd sw) @ map frame_bytes (take (k - sent) (drop sent frames)) \<and>
     sent_packets (tx_stats (fst sw')) = sent_packets (tx_stats (fst sw)) + of_nat (k - sent) \<and>
     sent_bytes (tx_stats (fst sw')) =
       sent_bytes (tx_stats (fst sw)) + of_nat (sum_list (map tx_len (take (k - sent) (drop sent frames)))) \<and>
     tx_fd (fst sw') = tx_fd (fst sw) \<and> open_fds (snd sw') = open_fds (snd sw) \<and>
     sent_errors (tx_stats (fst sw')) = sent_errors (tx_stats (fst sw)) + (if k = cnt then 0 else 1)"

lemma take_drop_split:
  "m \<le> k \<Longrightarrow> n \<le> m \<Longrightarrow> take (k - n) (drop n xs) = take (m - n) (drop n xs) @ take (k - m) (drop m xs)"
proof -
  assume "m \<le> k" "n \<le> m"
  then obtain i j where "m = n + i" "k = n + i + j" by (metis le_Suc_ex)
  then show ?thesis by (simp add: take_add add.commute)
qed

lemma send_batch_loop_spec:
  assumes "send_batch_loop s frames cnt sent retry w = Some (k, s', w')" and "sent \<le> cnt" and "cnt \<le> length frames"
  shows "batch_effect frames cnt sent k (s, w) (s', w')"
  using assms
proof (induction s frames cnt sent retry w rule: send_batch_loop.induct)
  case (1 s frames cnt sent retry w)
  show ?case
  proof (cases "cnt \<le> sent")
    case True
    with 1(4,5) show ?thesis by (subst (asm) send_batch_loop.simps) (auto simp: batch_effect_def)
  next
    case lt: False
    let ?rest = "take (cnt - sent) (drop sent frames)"
    let ?c = "Sys_sendmmsg (tx_fd s) (map frame_bytes ?rest) (if tx_connected s then None else Some (tx_remote s))"
    show ?thesis
    proof (cases "\<exists>f\<in>set ?rest. bad_frame f")
      case True
      with lt 1(4,6) show ?thesis by (subst (asm) send_batch_loop.simps) (auto simp: batch_effect_def)
    next
      case ok: False
      note eq = 1(4) [unfolded send_batch_loop.simps [of s frames cnt sent retry w] Let_def]
      obtain r w1 where sys: "sys ?c w = Some (r, w1)"
        using eq lt ok 1(6) by (auto split: option.splits)
      note wire = on_wire_sys [OF sys] open_fds_sys [OF sys]
      show ?thesis
      proof (cases r)
        case (Ret n)
        show ?thesis
        proof (cases "n = 0")
          case True
          with eq lt ok 1(6) sys Ret wire show ?thesis by (auto simp: batch_effect_def)
        next
          case False
          let ?s = "foldl sent_one s (map tx_len (take n ?rest))"
          have n: "n \<le> cnt - sent"
            using eq lt ok 1(6) sys Ret False by (auto split: if_splits)
          have run: "send_batch_loop ?s frames cnt (sent + n) 0 w1 = Some (k, s', w')"
            using eq lt ok 1(6) sys Ret False n by (auto split: if_splits)
          have "batch_effect frames cnt (sent + n) k (?s, w1) (s', w')"
            using 1(1) [OF lt refl _ ok sys refl Ret False] n run lt 1(6) by auto
          moreover have "take n ?rest = take n (drop sent frames)" using n by (simp add: min_def)
          moreover have "take (k - sent) (drop sent frames) =
              take n (drop sent frames) @ take (k - (sent + n)) (drop (sent + n) frames)" if "sent + n \<le> k"
            using take_drop_split [of "sent + n" k sent frames] that by simp
          moreover have "length (take n (drop sent frames)) = n" using n lt 1(6) by simp
          ultimately show ?thesis
            using wire Ret n by (auto simp: batch_effect_def sent_stats take_map of_nat_diff)
        qed
      next
        case (Fail e)
        consider "e = EINTR" | "e \<noteq> EINTR" "is_transient_send_error e" "retry < kMaxSendRetries"
          | "e \<noteq> EINTR" "\<not> (is_transient_send_error e \<and> retry < kMaxSendRetries)" by blast
        then show ?thesis
        proof cases
          case e: 1
          have "send_batch_loop s frames cnt sent retry w1 = Some (k, s', w')"
            using eq lt ok 1(6) sys Fail e by auto
          from 1(2) [OF lt refl _ ok sys refl Fail e this] 1(5,6) wire Fail show ?thesis
            by (auto simp: batch_effect_def)
        next
          case e: 2
          have "send_batch_loop (send_eagain s) frames cnt sent (retry + 1) w1 = Some (k, s', w')"
            using eq lt ok 1(6) sys Fail e by auto
          from 1(3) [OF lt refl _ ok sys refl Fail e this] 1(5,6) wire Fail show ?thesis
            by (auto simp: batch_effect_def)
        next
          case 3
          with eq lt ok 1(6) sys Fail wire show ?thesis by (auto simp: batch_effect_def split: if_splits)
        qed
      qed
    qed
  qed
qed

lemma sender_send_batch_spec:
  assumes "sender_send_batch s (Some frames) cnt w = Some (n, s', w')" and "0 \<le> tx_fd s" and "cnt \<le> length frames"
  obtains k where "n = int k" "batch_effect frames cnt 0 k (s, w) (s', w')"
proof (cases "cnt = 0")
  case True
  with assms that [of 0] show thesis by (simp add: sender_send_batch_def batch_effect_def)
next
  case False
  with assms(1,2) obtain k where "send_batch_loop s frames cnt 0 0 w = Some (k, s', w')" "n = int k"
    by (auto simp: sender_send_batch_def)
  with send_batch_loop_spec [OF this(1)] assms(3) that show thesis by blast
qed

section \<open>The portable branch\<close>

lemma send_one_loop_spec:
  assumes "send_one_loop s data len retry w = Some (ok, s', w')" and "length data = len"
  shows "on_wire w' = on_wire w @ (if ok then [data] else []) \<and>
    sent_packets (tx_stats s') = sent_packets (tx_stats s) + (if ok then 1 else 0) \<and>
    sent_bytes (tx_stats s') = sent_bytes (tx_stats s) + (if ok then of_nat len else 0) \<and>
    sent_errors (tx_stats s') = sent_errors (tx_stats s) + (if ok then 0 else 1) \<and> tx_fd s' = tx_fd s \<and>
    open_fds w' = open_fds w"
  using assms
proof (induction s data len retry w rule: send_one_loop.induct)
  case (1 s data len retry w)
  let ?c = "if tx_connected s then Sys_send (tx_fd s) data else Sys_sendto (tx_fd s) data (tx_remote s)"
  note eq = 1(3) [unfolded send_one_loop.simps [of s data len retry w]]
  obtain r w1 where sys: "sys ?c w = Some (r, w1)" using eq by (cases "sys ?c w") auto
  have wire: "on_wire w1 = on_wire w @ (if r = Ret len then [data] else [])"
    using on_wire_sys [OF sys] 1(4) by (cases r) auto
  have fds: "open_fds w1 = open_fds w"
    using open_fds_sys [OF sys] by (simp split: if_splits)
  show ?case
  proof (cases r)
    case (Ret n)
    with eq sys wire fds sent_stats [of s "[len]"] show ?thesis
      by (auto simp: sent_one_def split: if_splits)
  next
    case (Fail e)
    consider "e = EINTR" | "e \<noteq> EINTR" "is_transient_send_error e" "retry < kMaxSendRetries"
      | "e \<noteq> EINTR" "\<not> (is_transient_send_error e \<and> retry < kMaxSendRetries)" by blast
    then show ?thesis
    proof cases
      case e: 1
      with eq sys Fail have "send_one_loop s data len retry w1 = Some (ok, s', w')" by simp
      from 1(1) [OF sys refl Fail e this 1(4)] wire fds Fail show ?thesis by simp
    next
      case e: 2
      with eq sys Fail have "send_one_loop (send_eagain s) data len (retry + 1) w1 = Some (ok, s', w')" by simp
      from 1(2) [OF sys refl Fail e this 1(4)] wire fds Fail show ?thesis by simp
    next
      case 3
      with eq sys Fail wire fds show ?thesis by (auto split: if_splits)
    qed
  qed
qed

text \<open>A frame whose data is as long as it says.\<close>

definition frame_ok :: "TxFrame \<Rightarrow> bool" where
  "frame_ok f \<longleftrightarrow> (case tx_data f of None \<Rightarrow> True | Some d \<Rightarrow> tx_len f \<le> length d)"

lemma send_each_spec:
  assumes "send_each s fs sent w = Some (k, s', w')" and "list_all frame_ok fs"
  obtains n where "k = sent + n" "batch_effect fs (length fs) 0 n (s, w) (s', w')"
  using assms
proof (induction s fs sent w arbitrary: thesis rule: send_each.induct)
  case (1 s sent w)
  then show ?case by (auto simp: batch_effect_def)
next
  case (2 s f fs sent w)
  show ?case
  proof (cases "bad_frame f")
    case True
    with 2(3) have "k = sent + 0" "s' = send_error s" "w' = w" by auto
    then show ?thesis using 2(2) by (auto simp: batch_effect_def)
  next
    case good: False
    obtain ok s1 w1 where one: "send_one_loop s (frame_bytes f) (tx_len f) 0 w = Some (ok, s1, w1)"
      using 2(3) good by (auto split: option.splits)
    have "length (frame_bytes f) = tx_len f"
      using 2(4) good by (auto simp: frame_ok_def bad_frame_def frame_bytes_def)
    note sp = send_one_loop_spec [OF one this]
    show ?thesis
    proof (cases ok)
      case True
      with 2(3) good one have "send_each s1 fs (sent + 1) w1 = Some (k, s', w')" by simp
      then obtain n where "k = sent + 1 + n" "batch_effect fs (length fs) 0 n (s1, w1) (s', w')"
        using 2(1) [OF good one refl refl True] 2(4) by auto
      with sp True show ?thesis by (intro 2(2) [of "Suc n"]) (auto simp: batch_effect_def)
    next
      case False
      with 2(3) good one have "k = sent + 0" "s' = s1" "w' = w1" by auto
      with sp False show ?thesis by (intro 2(2) [of 0]) (auto simp: batch_effect_def)
    qed
  qed
qed

section \<open>The contract of both branches\<close>

text \<open>
  What a caller of \<^verbatim>\<open>send_batch\<close> relies on: the number returned says how far it got, and the
  kernel has accepted exactly the frames up to there.
\<close>

locale batch_sender =
  fixes send_batch :: "Sender \<Rightarrow> TxFrame list option \<Rightarrow> nat \<Rightarrow> world \<Rightarrow> (int \<times> Sender \<times> world) option"
  assumes effect: "send_batch s (Some frames) cnt w = Some (n, s', w') \<Longrightarrow> 0 \<le> tx_fd s \<Longrightarrow> cnt \<le> length frames \<Longrightarrow>
    list_all frame_ok frames \<Longrightarrow> \<exists>k. n = int k \<and> batch_effect frames cnt 0 k (s, w) (s', w')"
    and closed: "tx_fd s < 0 \<Longrightarrow> send_batch s fo cnt w = Some (- 1, send_error s, w)"
begin

lemma in_order:
  assumes "send_batch s (Some frames) cnt w = Some (n, s', w')" and "0 \<le> tx_fd s" and "cnt \<le> length frames"
    and "list_all frame_ok frames"
  shows "\<exists>k \<le> cnt. n = int k \<and> on_wire w' = on_wire w @ map frame_bytes (take k frames) \<and>
    sent_packets (tx_stats s') = sent_packets (tx_stats s) + of_nat k \<and>
    sent_bytes (tx_stats s') = sent_bytes (tx_stats s) + of_nat (sum_list (map tx_len (take k frames))) \<and>
    sent_errors (tx_stats s') = sent_errors (tx_stats s) + (if k = cnt then 0 else 1)"
  using effect [OF assms] by (auto simp: batch_effect_def)

lemma complete_iff:
  assumes "send_batch s (Some frames) cnt w = Some (n, s', w')" and "0 \<le> tx_fd s" and "cnt \<le> length frames"
    and "list_all frame_ok frames"
  shows "n = int cnt \<longleftrightarrow> sent_errors (tx_stats s') = sent_errors (tx_stats s)"
  using effect [OF assms] by (auto simp: batch_effect_def split: if_splits)

end

interpretation mmsg: batch_sender sender_send_batch
proof unfold_locales
  fix s frames cnt w n s' w'
  assume "sender_send_batch s (Some frames) cnt w = Some (n, s', w')" "0 \<le> tx_fd s" "cnt \<le> length frames"
  then show "\<exists>k. n = int k \<and> batch_effect frames cnt 0 k (s, w) (s', w')"
    using sender_send_batch_spec by metis
qed (simp add: sender_send_batch_def)

lemma batch_effect_take: "batch_effect (take cnt fs) cnt 0 k sw sw' \<longleftrightarrow> batch_effect fs cnt 0 k sw sw'"
  by (auto simp: batch_effect_def min_def)

interpretation each: batch_sender send_batch_portable
proof unfold_locales
  fix s frames cnt w n s' w'
  assume run: "send_batch_portable s (Some frames) cnt w = Some (n, s', w')"
    and fr: "0 \<le> tx_fd s" "cnt \<le> length frames" "list_all frame_ok frames"
  show "\<exists>k. n = int k \<and> batch_effect frames cnt 0 k (s, w) (s', w')"
  proof (cases "cnt = 0")
    case True
    with run fr show ?thesis by (auto simp: send_batch_portable_def batch_effect_def)
  next
    case False
    with run fr obtain k where k: "send_each s (take cnt frames) 0 w = Some (k, s', w')" "n = int k"
      by (auto simp: send_batch_portable_def)
    have "list_all frame_ok (take cnt frames)"
      using fr(3) by (auto simp: list_all_iff dest: in_set_takeD)
    from send_each_spec [OF k(1) this] obtain m where
      "k = m" "batch_effect (take cnt frames) (length (take cnt frames)) 0 m (s, w) (s', w')" by auto
    moreover have "length (take cnt frames) = cnt" using fr(2) by simp
    ultimately show ?thesis using k(2) by (simp only: batch_effect_take) blast
  qed
qed (simp add: send_batch_portable_def)

text \<open>
  C16. \<^verbatim>\<open>send_batch\<close> sends each frame once and in order, in the Linux branch and in the portable
  one: whatever partial sends, interruptions and transient errors the kernel answers with, when
  it returns \<open>k\<close>, the datagrams the kernel has accepted are exactly the first \<open>k\<close> frames;
  packets and bytes are counted accordingly; and an error is counted if and only if \<open>k\<close> is
  less than asked for.
\<close>

theorem send_batch_in_order:
  assumes "sender_send_batch s (Some frames) cnt w = Some (n, s', w') \<or>
      send_batch_portable s (Some frames) cnt w = Some (n, s', w')"
    and "0 \<le> tx_fd s" and "cnt \<le> length frames" and "list_all frame_ok frames"
  shows "\<exists>k \<le> cnt. n = int k \<and> on_wire w' = on_wire w @ map frame_bytes (take k frames) \<and>
    sent_packets (tx_stats s') = sent_packets (tx_stats s) + of_nat k \<and>
    sent_bytes (tx_stats s') = sent_bytes (tx_stats s) + of_nat (sum_list (map tx_len (take k frames))) \<and>
    sent_errors (tx_stats s') = sent_errors (tx_stats s) + (if k = cnt then 0 else 1)"
  using assms(1)
proof
  assume "sender_send_batch s (Some frames) cnt w = Some (n, s', w')"
  from mmsg.in_order [OF this assms(2-4)] show ?thesis .
next
  assume "send_batch_portable s (Some frames) cnt w = Some (n, s', w')"
  from each.in_order [OF this assms(2-4)] show ?thesis .
qed

theorem send_batch_in_order_witness:
  "\<exists>s' w'. sender_send_batch (sender_new\<lparr>tx_fd := 3\<rparr>)
      (Some [\<lparr>tx_data = Some [1], tx_len = 1\<rparr>, \<lparr>tx_data = Some [2], tx_len = 1\<rparr>]) 2
      \<lparr>script = [Fail EAGAIN, Ret 1, Fail EINTR, Ret 1], rxs = [], evs = [], trace = []\<rparr> = Some (2, s', w') \<and>
    on_wire w' = [[1], [2]]"
proof -
  let ?fs = "[\<lparr>tx_data = Some [1], tx_len = 1\<rparr>, \<lparr>tx_data = Some [2], tx_len = 1\<rparr>] :: TxFrame list"
  let ?w = "\<lparr>script = [Fail EAGAIN, Ret 1, Fail EINTR, Ret 1], rxs = [], evs = [], trace = []\<rparr>"
  have "\<exists>s' w'. sender_send_batch (sender_new\<lparr>tx_fd := 3\<rparr>) (Some ?fs) 2 ?w = Some (2, s', w')"
    unfolding sender_send_batch_def
    by (subst send_batch_loop.simps, simp add: sys_def bad_frame_def is_transient_send_error_def
        kMaxSendRetries_def sender_new_def,
      subst send_batch_loop.simps, simp add: sys_def bad_frame_def send_eagain_def sent_one_def,
      subst send_batch_loop.simps, simp add: sys_def bad_frame_def,
      subst send_batch_loop.simps, simp add: sys_def bad_frame_def, simp add: send_batch_loop.simps)
  then obtain s' w' where run: "sender_send_batch (sender_new\<lparr>tx_fd := 3\<rparr>) (Some ?fs) 2 ?w = Some (2, s', w')" by blast
  have "\<exists>k \<le> 2. (2 :: int) = int k \<and> on_wire w' = on_wire ?w @ map frame_bytes (take k ?fs)"
    using send_batch_in_order [OF disjI1 [OF run]] by (auto simp: frame_ok_def)
  with run show ?thesis by (auto simp: on_wire_def frame_bytes_def)
qed

section \<open>Descriptors\<close>

lemma sender_open_fds:
  assumes "sender_open inet cfg s w = Some (ok, s', w')"
    and "open_fds w = base + (if 0 \<le> tx_fd s then {#tx_fd s#} else {#})"
  shows "open_fds w' = base + (if ok then {#tx_fd s'#} else {#}) \<and> (if ok then 0 \<le> tx_fd s' else tx_fd s' = - 1)"
proof -
  obtain s0 w0 where c: "sender_close s w = (s0, w0)" by fastforce
  have c0: "tx_fd s0 = - 1" "open_fds w0 = base"
    using c assms(2) by (auto simp: sender_close_def split: if_splits)
  show ?thesis
    using assms(1) c0 unfolding sender_open_def c Let_def prod.case
    apply (simp split: if_splits)
    by (elim call_Some call_if_Some; auto split: option.splits if_splits elim!: call_Some)+
qed

text \<open>Opening and closing send nothing.\<close>

lemma on_wire_close [simp]: "on_wire (sys_close fd w) = on_wire w"
  by (simp add: on_wire_def sys_close_def)

lemma call_wire:
  assumes "call c w f k = Some x" and "\<And>r. accepted_by (c, r) = []"
  obtains w' where "x = f w'" "on_wire w' = on_wire w" | n w' where "k n w' = Some x" "on_wire w' = on_wire w"
  using assms by (auto simp: call_def on_wire_sys split: option.splits sysret.splits)

lemma call_if_wire:
  assumes "call_if b c w f k = Some x" and "\<And>r. accepted_by (c, r) = []"
  obtains w' where "x = f w'" "on_wire w' = on_wire w" | w' where "k w' = Some x" "on_wire w' = on_wire w"
  using assms by (auto simp: call_if_def elim!: call_wire split: if_splits)

lemma sender_open_wire:
  assumes "sender_open inet cfg s w = Some (ok, s', w')"
  shows "on_wire w' = on_wire w"
proof -
  obtain s0 w0 where c: "sender_close s w = (s0, w0)" by fastforce
  then have c0: "on_wire w0 = on_wire w"
    by (auto simp: sender_close_def split: if_splits)
  show ?thesis
    using assms c0 unfolding sender_open_def c Let_def prod.case
    by (auto split: if_splits option.splits elim!: call_wire call_if_wire)
qed

end
