(* ===== verification/Generator.thy ===== *)
theory Generator
  imports Udp_Sender Normalize Sequencing
begin

text \<open>
  The generators: \<^verbatim>\<open>src/src/generator/v1/generator.cpp\<close> over the client socket of
  \<^verbatim>\<open>src/src/common/net/v1/udp_client.hpp\<close>, and \<^verbatim>\<open>src/src/generator/v2/generator.cpp\<close> over
  the sender. Each has its own pseudo-random numbers, messages and rounds; that they make the
  same ones is shown below.
\<close>

section \<open>Messages\<close>

record gen_state =
  symbol_count :: u32
  rng_state :: u32
  seq :: u64

definition gen_init :: gen_state where
  "gen_init = \<lparr>symbol_count = 1, rng_state = 1, seq = 0\<rparr>"

definition next_rand :: "gen_state \<Rightarrow> u32 \<times> gen_state" where
  "next_rand g = (let r = rng_state g * 1664525 + 1013904223 in (r, g\<lparr>rng_state := r\<rparr>))"

definition make_message :: "gen_state \<Rightarrow> MarketDataMsg \<times> gen_state" where
  "make_message g =
     (let (r, g) = next_rand g;
          sym = (if symbol_count g = 0 then 1 else r mod symbol_count g + 1);
          sq = seq g; g = g\<lparr>seq := seq g + 1\<rparr>;
          ts = sq;
          bid = 10 + ucast (r mod 991);
          ask = bid + 1;
          size = 1 + r mod 100
      in (\<lparr>seq_num = sq, symbol_id = sym, exchange_ts = ts, bid_price = bid, ask_price = ask,
           bid_size = size, ask_size = size + 1\<rparr>, g))"

text \<open>
  One round of the loops in \<^verbatim>\<open>run\<close>: a message, or a gap. The modulus and the span are positive
  \<^verbatim>\<open>int\<close>s there, so the comparison is one of unsigned 32-bit numbers.
\<close>

definition gen_slot :: "int \<Rightarrow> int \<Rightarrow> gen_state \<Rightarrow> MarketDataMsg option \<times> gen_state" where
  "gen_slot gap_mod gap_span g =
     (let inject_gap = gap_mod > 0 \<and> gap_span > 0; msg = (\<lambda>g. let (m, g) = make_message g in (Some m, g)) in
      if inject_gap then
        let (r, g) = next_rand g in
        if r mod of_int gap_mod < of_int gap_span
        then (None, g\<lparr>seq := seq g + (of_int gap_span + 1)\<rparr>)
        else msg g
      else msg g)"

fun gen_slots :: "int \<Rightarrow> int \<Rightarrow> nat \<Rightarrow> gen_state \<Rightarrow> MarketDataMsg list \<times> gen_state" where
  "gen_slots gap_mod gap_span 0 g = ([], g)"
| "gen_slots gap_mod gap_span (Suc n) g =
     (let (mo, g) = gen_slot gap_mod gap_span g; (ms, g) = gen_slots gap_mod gap_span n g
      in ((case mo of None \<Rightarrow> [] | Some m \<Rightarrow> [m]) @ ms, g))"

text \<open>The state at the start of \<^verbatim>\<open>run\<close>.\<close>

definition gen_start :: "int \<Rightarrow> gen_state \<Rightarrow> gen_state" where
  "gen_start seed g = (let seed = (if seed \<le> 0 then 1 else seed) in g\<lparr>rng_state := of_int seed, seq := 0\<rparr>)"

section \<open>The client of generator v1\<close>

record Client =
  client_fd :: int
  client_connected :: bool

definition close_client :: "Client \<Rightarrow> world \<Rightarrow> Client \<times> world" where
  "close_client c w =
     (c\<lparr>client_fd := - 1, client_connected := False\<rparr>, if 0 \<le> client_fd c then sys_close (client_fd c) w else w)"

definition open_client ::
  "(string \<Rightarrow> u32 option) \<Rightarrow> Client \<Rightarrow> string \<Rightarrow> u16 \<Rightarrow> string option \<Rightarrow> u16 \<Rightarrow> int \<Rightarrow> world \<Rightarrow> (bool \<times> Client \<times> world) option" where
  "open_client inet_pton c remote_ip remote_port local_ip local_port sndbuf w =
     (let (c, w) = close_client c w in
      call (Sys_socket_dgram False) w (\<lambda>w. (False, c, w)) (\<lambda>n w.
      let fd = int n; bail = (\<lambda>w. (False, c, sys_close fd w));
          finish = (\<lambda>w. case inet_pton remote_ip of
              None \<Rightarrow> Some (bail w)
            | Some ra \<Rightarrow>
                call (Sys_connect fd \<lparr>sin_inet = True, sin_port = remote_port, sin_addr = ra\<rparr>) w bail (\<lambda>_ w.
                Some (True, c\<lparr>client_fd := fd, client_connected := True\<rparr>, w))) in
      call_if (0 < sndbuf) (Sys_setsockopt fd SO_SNDBUF sndbuf) w bail (\<lambda>w.
      if local_ip \<noteq> None \<and> local_ip \<noteq> Some [] \<or> local_port \<noteq> 0 then
        (case (if local_ip = None \<or> local_ip = Some [] then Some INADDR_ANY else inet_pton (the local_ip)) of
           None \<Rightarrow> Some (bail w)
         | Some a \<Rightarrow>
             call (Sys_bind fd \<lparr>sin_inet = True, sin_port = local_port, sin_addr = a\<rparr>) w bail (\<lambda>_. finish))
      else finish w)))"

function send_bytes_loop :: "Client \<Rightarrow> bytes \<Rightarrow> world \<Rightarrow> (bool \<times> world) option" where
  "send_bytes_loop c data w =
     (case sys (Sys_send (client_fd c) data) w of
        None \<Rightarrow> None
      | Some (Ret n, w) \<Rightarrow> Some (n = length data, w)
      | Some (Fail e, w) \<Rightarrow> if e = EINTR then send_bytes_loop c data w else Some (False, w))"
  by pat_completeness auto
termination
  by (relation "measure (\<lambda>(c, data, w). length (script w))") (auto dest: sys_script)

declare send_bytes_loop.simps [simp del]

definition send_bytes :: "Client \<Rightarrow> bytes option \<Rightarrow> nat \<Rightarrow> world \<Rightarrow> (bool \<times> world) option" where
  "send_bytes c data len w =
     (if \<not> client_connected c \<or> client_fd c < 0 \<or> data = None then Some (False, w)
      else if len = 0 then Some (True, w)
      else send_bytes_loop c (take len (the data)) w)"

definition send_message :: "endian \<Rightarrow> bytes \<Rightarrow> Client \<Rightarrow> MarketDataMsg \<Rightarrow> world \<Rightarrow> (bool \<times> world) option" where
  "send_message e junk c msg w = do { bs \<leftarrow> encode e junk msg; send_bytes c (Some bs) (length bs) w }"

section \<open>Pacing\<close>

text \<open>
  The end of a round of the paced loops, after \<open>slots\<close> messages or gaps: the next point of
  the schedule is \<open>slots\<close> intervals later and the thread sleeps until then. The state is the
  time \<^verbatim>\<open>next\<close> in nanoseconds; without a rate the loops do not sleep.
\<close>

definition interval :: "int \<Rightarrow> int" where
  "interval rate = 1000000000 div rate"

definition pace :: "int \<Rightarrow> nat \<Rightarrow> int \<Rightarrow> world \<Rightarrow> int \<times> world" where
  "pace rate slots nxt w =
     (if rate \<le> 0 then (nxt, w)
      else let nxt = nxt + interval rate * int slots in (nxt, sys_sleep_until nxt w))"

section \<open>Generator v1\<close>

definition v1_connect ::
  "(string \<Rightarrow> u32 option) \<Rightarrow> Client \<Rightarrow> string \<Rightarrow> u16 \<Rightarrow> world \<Rightarrow> (bool \<times> Client \<times> world) option" where
  "v1_connect inet_pton c addr port w = open_client inet_pton c addr port None 0 0 w"

definition v1_send :: "endian \<Rightarrow> bytes \<Rightarrow> Client \<Rightarrow> MarketDataMsg \<Rightarrow> world \<Rightarrow> (bool \<times> world) option" where
  "v1_send e junk c msg w =
     (if \<not> client_connected c \<or> client_fd c < 0 then Some (False, w) else send_message e junk c msg w)"

text \<open>The random numbers, the messages and the rounds of generator v1.\<close>

definition v1_next_rand :: "gen_state \<Rightarrow> u32 \<times> gen_state" where
  "v1_next_rand g =
     (let g = g\<lparr>rng_state := rng_state g * 1664525 + 1013904223\<rparr> in (rng_state g, g))"

definition v1_make_message :: "gen_state \<Rightarrow> MarketDataMsg \<times> gen_state" where
  "v1_make_message g =
     (let (r, g) = v1_next_rand g;
          sym = (if symbol_count g = 0 then 1 else r mod symbol_count g + 1);
          sq = seq g; g = g\<lparr>seq := seq g + 1\<rparr>;
          ts = sq;
          bid = 10 + ucast (r mod 991);
          ask = bid + 1;
          size = 1 + r mod 100
      in (\<lparr>seq_num = sq, symbol_id = sym, exchange_ts = ts, bid_price = bid, ask_price = ask,
           bid_size = size, ask_size = size + 1\<rparr>, g))"

definition v1_gen_slot :: "int \<Rightarrow> int \<Rightarrow> gen_state \<Rightarrow> MarketDataMsg option \<times> gen_state" where
  "v1_gen_slot gap_mod gap_span g =
     (let inject_gap = gap_mod > 0 \<and> gap_span > 0;
          (r, g') = v1_next_rand g in
      if inject_gap \<and> r mod of_int gap_mod < of_int gap_span
      then (None, g'\<lparr>seq := seq g' + (of_int gap_span + 1)\<rparr>)
      else let (msg, g) = v1_make_message (if inject_gap then g' else g) in (Some msg, g))"

text \<open>
  The two loops of \<^verbatim>\<open>run\<close>, without and with a rate: they make the same rounds and differ in
  the pacing at the end of a round. \<open>now\<close> is the time at which the paced loop starts.
\<close>

fun v1_gen_loop ::
  "endian \<Rightarrow> bytes \<Rightarrow> Client \<Rightarrow> int \<Rightarrow> int \<Rightarrow> int \<Rightarrow> nat \<Rightarrow> int \<Rightarrow> gen_state \<Rightarrow> world \<Rightarrow> (bool \<times> gen_state \<times> world) option" where
  "v1_gen_loop e junk c rate gap_mod gap_span 0 nxt g w = Some (True, g, w)"
| "v1_gen_loop e junk c rate gap_mod gap_span (Suc n) nxt g w =
     (case v1_gen_slot gap_mod gap_span g of
        (None, g) \<Rightarrow>
          let (nxt, w) = pace rate 1 nxt w in v1_gen_loop e junk c rate gap_mod gap_span n nxt g w
      | (Some msg, g) \<Rightarrow>
          do { (ok, w) \<leftarrow> v1_send e junk c msg w;
               if \<not> ok then Some (False, g, w)
               else let (nxt, w) = pace rate 1 nxt w in v1_gen_loop e junk c rate gap_mod gap_span n nxt g w })"

definition v1_gen_run ::
  "endian \<Rightarrow> bytes \<Rightarrow> Client \<Rightarrow> int \<Rightarrow> int \<Rightarrow> int \<Rightarrow> int \<Rightarrow> int \<Rightarrow> int \<Rightarrow> gen_state \<Rightarrow> world \<Rightarrow> (bool \<times> gen_state \<times> world) option" where
  "v1_gen_run e junk c cnt rate seed gap_mod gap_span now g w =
     (if \<not> client_connected c \<or> client_fd c < 0 then Some (False, g, w)
      else if cnt \<le> 0 then Some (True, g, w)
      else v1_gen_loop e junk c rate gap_mod gap_span (nat cnt) now (gen_start seed g) w)"

section \<open>Generator v2\<close>

text \<open>
  The encoded frames of a batch; the buffers are reused, so \<open>junk\<close> is what they held. A send
  that reports fewer frames than the batch ends the run.
\<close>

fun encode_all :: "endian \<Rightarrow> bytes \<Rightarrow> MarketDataMsg list \<Rightarrow> TxFrame list option" where
  "encode_all e junk [] = Some []"
| "encode_all e junk (m # ms) =
     do { bs \<leftarrow> encode e junk m; fs \<leftarrow> encode_all e junk ms;
          Some (\<lparr>tx_data = Some bs, tx_len = length bs\<rparr> # fs) }"

definition v2_send_batch ::
  "endian \<Rightarrow> bytes \<Rightarrow> MarketDataMsg list option \<Rightarrow> nat \<Rightarrow> Sender \<Rightarrow> world \<Rightarrow> (int \<times> Sender \<times> world) option" where
  "v2_send_batch e junk msgs cnt s w =
     (case msgs of
        None \<Rightarrow> sender_send_batch s None cnt w
      | Some ms \<Rightarrow>
          if length ms < cnt then None
          else do { fs \<leftarrow> encode_all e junk (take cnt ms); sender_send_batch s (Some fs) cnt w })"

definition v2_send_one :: "endian \<Rightarrow> bytes \<Rightarrow> MarketDataMsg \<Rightarrow> Sender \<Rightarrow> world \<Rightarrow> (bool \<times> Sender \<times> world) option" where
  "v2_send_one e junk msg s w = do { bs \<leftarrow> encode e junk msg; send_one s (Some bs) (length bs) w }"

definition send_or_fail :: "endian \<Rightarrow> bytes \<Rightarrow> MarketDataMsg list \<Rightarrow> Sender \<Rightarrow> world \<Rightarrow> (bool \<times> Sender \<times> world) option" where
  "send_or_fail e junk batch s w =
     (if batch = [] then Some (True, s, w)
      else do { (sent, s, w) \<leftarrow> v2_send_batch e junk (Some batch) (length batch) s w;
                if sent = int (length batch) then Some (True, s, w)
                else if 0 \<le> sent \<and> nat sent < length batch then Some (False, s, w)
                else None })"

function v2_gen_loop ::
  "endian \<Rightarrow> bytes \<Rightarrow> int \<Rightarrow> int \<Rightarrow> int \<Rightarrow> nat \<Rightarrow> nat \<Rightarrow> nat \<Rightarrow> int \<Rightarrow> gen_state \<Rightarrow> Sender \<Rightarrow> world \<Rightarrow>
     (bool \<times> gen_state \<times> Sender \<times> world) option" where
  "v2_gen_loop e junk rate gap_mod gap_span burst cnt produced nxt g s w =
     (if cnt \<le> produced then Some (True, g, s, w)
      else if burst = 0 then None
      else
        let slots = min burst (cnt - produced); (batch, g) = gen_slots gap_mod gap_span slots g in
        do { (ok, s, w) \<leftarrow> send_or_fail e junk batch s w;
             if \<not> ok then Some (False, g, s, w)
             else let (nxt, w) = pace rate slots nxt w in
               v2_gen_loop e junk rate gap_mod gap_span burst cnt (produced + slots) nxt g s w })"
  by pat_completeness auto
termination
  by (relation "measure (\<lambda>(e, junk, rate, gm, gs, burst, cnt, produced, nxt, g, s, w). cnt - produced)") auto

declare v2_gen_loop.simps [simp del]

definition v2_gen_run ::
  "endian \<Rightarrow> bytes \<Rightarrow> int \<Rightarrow> int \<Rightarrow> int \<Rightarrow> int \<Rightarrow> int \<Rightarrow> int \<Rightarrow> int \<Rightarrow> gen_state \<Rightarrow> Sender \<Rightarrow> world \<Rightarrow>
     (bool \<times> gen_state \<times> Sender \<times> world) option" where
  "v2_gen_run e junk cnt rate seed gap_mod gap_span burst_size now g s w =
     (if tx_fd s < 0 then Some (False, g, s, w)
      else if cnt \<le> 0 then Some (True, g, s, w)
      else v2_gen_loop e junk rate gap_mod gap_span (nat (if burst_size \<le> 0 then 1 else burst_size)) (nat cnt) 0 now
        (gen_start seed g) s w)"

text \<open>
  The generator object with its sender. \<^verbatim>\<open>running_\<close> is set by \<^verbatim>\<open>open\<close> and during a run and is
  cleared when a run ends; nothing reads it.
\<close>

record gen2_generator =
  g2_running :: bool
  g2_cfg :: SenderConfig
  g2_sender :: Sender
  g2_gen :: gen_state

definition gen2_new :: gen2_generator where
  "gen2_new = \<lparr>g2_running = False, g2_cfg = default_sender_config, g2_sender = sender_new, g2_gen = gen_init\<rparr>"

definition gen2_open ::
  "(string \<Rightarrow> u32 option) \<Rightarrow> SenderConfig \<Rightarrow> gen2_generator \<Rightarrow> world \<Rightarrow> (bool \<times> gen2_generator \<times> world) option" where
  "gen2_open inet_pton cfg G w =
     do { (opened, s, w) \<leftarrow> sender_open inet_pton cfg (g2_sender G) w;
          Some (opened, G\<lparr>g2_cfg := cfg, g2_sender := s, g2_running := opened\<rparr>, w) }"

definition gen2_run ::
  "endian \<Rightarrow> bytes \<Rightarrow> int \<Rightarrow> int \<Rightarrow> int \<Rightarrow> int \<Rightarrow> int \<Rightarrow> int \<Rightarrow> int \<Rightarrow> gen2_generator \<Rightarrow> world \<Rightarrow>
     (bool \<times> gen2_generator \<times> world) option" where
  "gen2_run e junk cnt rate seed gap_mod gap_span burst_size now G w =
     do { (ok, g, s, w) \<leftarrow> v2_gen_run e junk cnt rate seed gap_mod gap_span burst_size now (g2_gen G) (g2_sender G) w;
          Some (ok, G\<lparr>g2_gen := g, g2_sender := s,
            g2_running := g2_running G \<and> (tx_fd (g2_sender G) < 0 \<or> cnt \<le> 0)\<rparr>, w) }"

definition gen2_destroy :: "gen2_generator \<Rightarrow> world \<Rightarrow> gen2_generator \<times> world" where
  "gen2_destroy G w =
     (let (s, w) = sender_close (g2_sender G) w in (G\<lparr>g2_running := False, g2_sender := s\<rparr>, w))"

lemmas gen2_defs = gen2_new_def gen2_open_def gen2_run_def

lemma gen2_destroy_world [simp]: "snd (gen2_destroy G w) = snd (sender_close (g2_sender G) w)"
  by (simp add: gen2_destroy_def case_prod_unfold Let_def)

section \<open>The messages are valid\<close>

lemma unat_plus_small: "unat x + n < 2 ^ 64 \<Longrightarrow> unat (x + of_nat n) = unat x + n" for x :: u64
  by (metis of_nat_add of_nat_unat_id unat_of_nat_size)

lemma unat_plus_one_small: "unat x + 1 < 2 ^ 64 \<Longrightarrow> unat (x + 1) = unat x + 1" for x :: u64
  using unat_plus_small [of x 1] by simp

lemma sint_small: "n < 1000000 \<Longrightarrow> sint (of_nat n :: 64 word) = int n" "n < 1000000 \<Longrightarrow> sint (of_nat n :: 32 word) = int n"
  by (simp_all add: signed_of_nat signed_take_bit_int_eq_self)

lemma make_message_values:
  assumes "make_message g = (m, g')"
  obtains r :: u32 where "bid_price m = of_nat (10 + unat r mod 991)" "ask_price m = of_nat (11 + unat r mod 991)"
    "bid_size m = of_nat (1 + unat r mod 100)" "ask_size m = of_nat (2 + unat r mod 100)"
    "seq_num m = seq g" "exchange_ts m = seq g" "seq g' = seq g + 1" "symbol_count g' = symbol_count g"
    "symbol_id m = (if symbol_count g = 0 then 1 else r mod symbol_count g + 1)"
proof -
  obtain r g1 where r: "next_rand g = (r, g1)" by fastforce
  have g1: "seq g1 = seq g" "symbol_count g1 = symbol_count g"
    using r by (auto simp: next_rand_def Let_def)
  have "ucast (r mod 991) = (of_nat (unat r mod 991) :: 64 word)"
    using of_nat_unat [of "r mod 991", where 'a = "64 word"] by (simp add: unat_mod)
  moreover have "r mod 100 = of_nat (unat r mod 100)"
    using of_nat_unat_id [of "r mod 100"] by (simp add: unat_mod)
  ultimately show thesis
    using assms r g1 by (intro that [of r]) (auto simp: make_message_def Let_def)
qed

lemma make_message_sane:
  assumes "make_message g = (m, g')"
  shows "10 \<le> sint (bid_price m) \<and> sint (bid_price m) \<le> 1000 \<and> sint (ask_price m) = sint (bid_price m) + 1 \<and>
    1 \<le> sint (bid_size m) \<and> sint (bid_size m) \<le> 100 \<and> sint (ask_size m) = sint (bid_size m) + 1 \<and> sanityCheck m"
proof -
  obtain r :: u32 where v: "bid_price m = of_nat (10 + unat r mod 991)" "ask_price m = of_nat (11 + unat r mod 991)"
    "bid_size m = of_nat (1 + unat r mod 100)" "ask_size m = of_nat (2 + unat r mod 100)"
    by (rule make_message_values [OF assms])
  have b: "unat r mod 991 < 991" "unat r mod 100 < 100" by simp_all
  have "ask_price m \<noteq> 0 \<longleftrightarrow> sint (ask_price m) \<noteq> 0"
    by (metis sint_0 signed_eq_0_iff)
  moreover have "sint (bid_price m) = int (10 + unat r mod 991)" "sint (ask_price m) = int (11 + unat r mod 991)"
    "sint (bid_size m) = int (1 + unat r mod 100)" "sint (ask_size m) = int (2 + unat r mod 100)"
    unfolding v using b by (intro sint_small; linarith)+
  ultimately show ?thesis
    using b unfolding sanityCheck_def word_sle_eq word_sless_alt by auto
qed

text \<open>A round: the sequence number moves on by one for a message, by the span and one for a gap.\<close>

lemma gen_slot_cases:
  assumes "gen_slot gm gs g = (mo, g')"
  obtains (msg) g1 m where "mo = Some m" "make_message g1 = (m, g')" "seq g1 = seq g"
  | (gap) "mo = None" "seq g' = seq g + (of_int gs + 1)" "0 < gs"
proof -
  obtain r g1 where r: "next_rand g = (r, g1)" by fastforce
  then have "seq g1 = seq g" by (auto simp: next_rand_def Let_def)
  with assms r that show thesis
    by (auto simp: gen_slot_def Let_def split: if_splits prod.splits)
qed

lemma gen_slots_sane: "m \<in> set (fst (gen_slots gm gs n g)) \<Longrightarrow> sanityCheck m \<and> exchange_ts m = seq_num m"
proof (induction n arbitrary: g)
  case (Suc n)
  obtain mo g1 where s: "gen_slot gm gs g = (mo, g1)" by fastforce
  from s show ?case
  proof (cases rule: gen_slot_cases)
    case (msg g2 m')
    have "exchange_ts m' = seq_num m'"
      using make_message_values [OF msg(2)] by metis
    with Suc.prems Suc.IH [of g1] make_message_sane [OF msg(2)] msg(1) show ?thesis
      by (auto simp: s split: prod.splits)
  next
    case gap
    with Suc.prems Suc.IH [of g1] show ?thesis by (auto simp: s split: prod.splits)
  qed
qed simp

text \<open>
  The sequence numbers, as long as they stay below \<open>2 ^ 64\<close>; \<open>k\<close> bounds what a round adds.
\<close>

lemma gen_slots_increasing:
  assumes "gen_slots gm gs n g = (ms, g')" and "unat (seq g) + n * (nat gs + 1) < 2 ^ 64"
  shows "sorted_wrt (<) (map seq_num ms) \<and> (\<forall>m\<in>set ms. seq g \<le> seq_num m \<and> seq_num m < seq g') \<and> seq g \<le> seq g' \<and>
    unat (seq g') \<le> unat (seq g) + n * (nat gs + 1)"
  using assms
proof (induction n arbitrary: g ms)
  case 0
  then show ?case by simp
next
  case (Suc n)
  obtain mo g1 where s: "gen_slot gm gs g = (mo, g1)" by fastforce
  obtain ms1 where rest: "gen_slots gm gs n g1 = (ms1, g')"
    and ms: "ms = (case mo of None \<Rightarrow> [] | Some m \<Rightarrow> [m]) @ ms1"
    using Suc.prems(1) s by (auto split: prod.splits)
  have step: "unat (seq g1) \<le> unat (seq g) + (nat gs + 1) \<and> seq g < seq g1 \<and> (\<forall>m. mo = Some m \<longrightarrow> seq_num m = seq g)"
    using s
  proof (cases rule: gen_slot_cases)
    case (msg g2 m)
    have q: "seq_num m = seq g" "seq g1 = seq g + 1"
      using make_message_values [OF msg(2)] msg(3) by metis+
    moreover have "unat (seq g + 1) = unat (seq g) + 1"
      using Suc.prems(2) by (intro unat_plus_one_small) simp
    ultimately show ?thesis using msg(1) by (simp add: word_less_nat_alt)
  next
    case gap
    have "unat (seq g) + (nat gs + 1) < 2 ^ 64" using Suc.prems(2) by simp
    then have "unat (seq g + (of_int gs + 1)) = unat (seq g) + (nat gs + 1)"
      using gap(3) unat_plus_small [of "seq g" "nat gs + 1"] by (simp add: add.commute)
    with gap show ?thesis by (simp add: word_less_nat_alt)
  qed
  have "unat (seq g1) + n * (nat gs + 1) < 2 ^ 64"
    using step Suc.prems(2) by simp
  from Suc.IH [OF rest this] step ms show ?case
    by (auto simp: split: option.splits)
qed

section \<open>What the generators send\<close>

lemma gen_slots_add:
  "gen_slots gm gs (a + b) g =
    (fst (gen_slots gm gs a g) @ fst (gen_slots gm gs b (snd (gen_slots gm gs a g))),
     snd (gen_slots gm gs b (snd (gen_slots gm gs a g))))"
proof (induction a arbitrary: g)
  case (Suc a)
  obtain mo g1 where "gen_slot gm gs g = (mo, g1)" by fastforce
  with Suc [of g1] show ?case by (simp add: case_prod_unfold Let_def)
qed simp

lemma encode_all_layout:
  "length junk = kWireSize \<Longrightarrow>
   encode_all e junk ms = Some (map (\<lambda>m. \<lparr>tx_data = Some (wire_layout m), tx_len = kWireSize\<rparr>) ms)"
  by (induction ms) (simp_all add: encode_eq_layout)

lemma send_or_fail_spec:
  assumes "send_or_fail e junk batch s w = Some (ok, s', w')" and "0 \<le> tx_fd s" and "length junk = kWireSize"
  obtains k where "on_wire w' = on_wire w @ map wire_layout (take k batch)" "k \<le> length batch"
    "ok \<longleftrightarrow> k = length batch" "tx_fd s' = tx_fd s" "open_fds w' = open_fds w"
proof (cases "batch = []")
  case True
  with assms(1) that [of 0] show thesis by (simp add: send_or_fail_def)
next
  case False
  let ?fs = "map (\<lambda>m. \<lparr>tx_data = Some (wire_layout m), tx_len = kWireSize\<rparr>) batch"
  obtain n where b: "sender_send_batch s (Some ?fs) (length batch) w = Some (n, s', w')"
    and ok: "ok \<longleftrightarrow> n = int (length batch)"
    using assms(1) False encode_all_layout [OF assms(3), of e batch]
    by (auto simp: send_or_fail_def v2_send_batch_def bind_eq_Some_conv split: if_splits)
  obtain k where k: "n = int k" "batch_effect ?fs (length batch) 0 k (s, w) (s', w')"
    by (rule sender_send_batch_spec [OF b assms(2)]) simp_all
  have "map frame_bytes (take k ?fs) = map wire_layout (take k batch)"
    by (simp add: take_map frame_bytes_def)
  with k ok show thesis by (intro that [of k]) (auto simp: batch_effect_def)
qed

lemma pace_effect:
  assumes "pace rate slots nxt w = (nxt', w')"
  shows "on_wire w' = on_wire w" "open_fds w' = open_fds w" "script w' = script w"
    "nxt' = (if rate \<le> 0 then nxt else nxt + interval rate * int slots)"
  using assms by (auto simp: pace_def Let_def sys_sleep_until_def on_wire_def open_fds_def split: if_splits)

lemma v2_gen_loop_spec:
  assumes "v2_gen_loop e junk rate gm gs burst cnt produced nxt g s w = Some (ok, g', s', w')"
    and "0 \<le> tx_fd s" and "length junk = kWireSize"
  shows "\<exists>k. on_wire w' = on_wire w @ map wire_layout (take k (fst (gen_slots gm gs (cnt - produced) g))) \<and>
    (ok \<longrightarrow> k = length (fst (gen_slots gm gs (cnt - produced) g)) \<and> g' = snd (gen_slots gm gs (cnt - produced) g)) \<and>
    tx_fd s' = tx_fd s \<and> open_fds w' = open_fds w"
  using assms
proof (induction e junk rate gm gs burst cnt produced nxt g s w rule: v2_gen_loop.induct)
  case (1 e junk rate gm gs burst cnt produced nxt g s w)
  note eq = 1(2) [unfolded v2_gen_loop.simps [of e junk rate gm gs burst cnt produced nxt g s w] Let_def]
  show ?case
  proof (cases "cnt \<le> produced \<or> burst = 0")
    case True
    with eq show ?thesis by (intro exI [of _ 0]) (auto split: if_splits)
  next
    case False
    let ?n = "min burst (cnt - produced)"
    obtain batch g1 where b: "gen_slots gm gs ?n g = (batch, g1)" by fastforce
    obtain ok1 s1 w1 where sf: "send_or_fail e junk batch s w = Some (ok1, s1, w1)"
      using eq False b by (auto simp: bind_eq_Some_conv)
    obtain j where j: "on_wire w1 = on_wire w @ map wire_layout (take j batch)" "j \<le> length batch"
      "ok1 \<longleftrightarrow> j = length batch" "tx_fd s1 = tx_fd s" "open_fds w1 = open_fds w"
      by (rule send_or_fail_spec [OF sf 1(3,4)])
    have split: "cnt - produced = ?n + (cnt - (produced + ?n))" using False by simp
    have all: "gen_slots gm gs (cnt - produced) g =
        (batch @ fst (gen_slots gm gs (cnt - (produced + ?n)) g1), snd (gen_slots gm gs (cnt - (produced + ?n)) g1))"
      by (subst split) (simp add: gen_slots_add b)
    show ?thesis
    proof (cases ok1)
      case False
      with eq \<open>\<not> (cnt \<le> produced \<or> burst = 0)\<close> b sf have "\<not> ok" "w' = w1" "s' = s1" by auto
      with j show ?thesis unfolding all by (intro exI [of _ j]) simp
    next
      case True
      obtain nxt1 w2 where pc: "pace rate ?n nxt w1 = (nxt1, w2)" by fastforce
      with True eq False b sf
      have "v2_gen_loop e junk rate gm gs burst cnt (produced + ?n) nxt1 g1 s1 w2 = Some (ok, g', s', w')" by auto
      then obtain k where k: "on_wire w' = on_wire w1 @
          map wire_layout (take k (fst (gen_slots gm gs (cnt - (produced + ?n)) g1)))"
        "ok \<longrightarrow> k = length (fst (gen_slots gm gs (cnt - (produced + ?n)) g1)) \<and>
          g' = snd (gen_slots gm gs (cnt - (produced + ?n)) g1)"
        "tx_fd s' = tx_fd s1" "open_fds w' = open_fds w1"
        using 1(1) [OF _ _ refl b [symmetric] refl sf refl refl _ pc [symmetric] refl] False True j(4) 1(3,4) pace_effect [OF pc]
        by auto
      with j True show ?thesis
        unfolding all by (intro exI [of _ "length batch + k"]) simp
    qed
  qed
qed

lemma v2_gen_run_spec:
  assumes "v2_gen_run e junk cnt rate seed gap_mod gap_span burst now g s w = Some (ok, g', s', w')"
    and "0 \<le> tx_fd s" and "length junk = kWireSize"
  shows "\<exists>k. let ms = fst (gen_slots gap_mod gap_span (nat cnt) (gen_start seed g)) in
    on_wire w' = on_wire w @ map wire_layout (take k ms) \<and> (ok \<longrightarrow> k = length ms)"
proof (cases "cnt \<le> 0")
  case True
  with assms show ?thesis by (intro exI [of _ 0]) (auto simp: v2_gen_run_def)
next
  case False
  let ?b = "nat (if burst \<le> 0 then 1 else burst)"
  have "v2_gen_loop e junk rate gap_mod gap_span ?b (nat cnt) 0 now (gen_start seed g) s w = Some (ok, g', s', w')"
    using assms(1,2) False by (auto simp: v2_gen_run_def)
  from v2_gen_loop_spec [OF this assms(2,3)] show ?thesis by (auto simp: Let_def)
qed

lemma v2_gen_run_fds:
  assumes "v2_gen_run e junk cnt rate seed gap_mod gap_span burst now g s w = Some (ok, g', s', w')"
    and "0 \<le> tx_fd s" and "length junk = kWireSize"
  shows "tx_fd s' = tx_fd s \<and> open_fds w' = open_fds w"
proof (cases "cnt \<le> 0")
  case True
  with assms show ?thesis by (auto simp: v2_gen_run_def)
next
  case False
  let ?b = "nat (if burst \<le> 0 then 1 else burst)"
  have "v2_gen_loop e junk rate gap_mod gap_span ?b (nat cnt) 0 now (gen_start seed g) s w = Some (ok, g', s', w')"
    using assms(1,2) False by (auto simp: v2_gen_run_def)
  from v2_gen_loop_spec [OF this assms(2,3)] show ?thesis by blast
qed

text \<open>The two generators make the same rounds from the same state.\<close>

lemma v1_next_rand_eq: "v1_next_rand g = next_rand g"
  by (simp add: v1_next_rand_def next_rand_def Let_def)

lemma v1_make_message_eq: "v1_make_message g = make_message g"
  by (simp add: v1_make_message_def make_message_def v1_next_rand_eq)

lemma v1_gen_slot_eq [simp]: "v1_gen_slot gm gs g = gen_slot gm gs g"
  by (simp add: v1_gen_slot_def gen_slot_def v1_next_rand_eq v1_make_message_eq Let_def case_prod_unfold)

text \<open>Generator v1, one datagram per call.\<close>

lemma send_bytes_loop_spec:
  "send_bytes_loop c data w = Some (ok, w') \<Longrightarrow> on_wire w' = on_wire w @ (if ok then [data] else [])"
proof (induction c data w rule: send_bytes_loop.induct)
  case (1 c data w)
  note eq = 1(2) [unfolded send_bytes_loop.simps [of c data w]]
  obtain r w1 where r: "sys (Sys_send (client_fd c) data) w = Some (r, w1)"
    using eq by (cases "sys (Sys_send (client_fd c) data) w") auto
  show ?case
  proof (cases r)
    case (Ret n)
    with eq r on_wire_sys [OF r] show ?thesis by auto
  next
    case (Fail err)
    with eq r on_wire_sys [OF r] 1(1) [OF r refl Fail] show ?thesis by (auto split: if_splits)
  qed
qed

lemma v1_send_spec:
  assumes "v1_send e junk c m w = Some (ok, w')" and "length junk = kWireSize"
  shows "on_wire w' = on_wire w @ (if ok then [wire_layout m] else [])"
proof -
  have "wire_layout m \<noteq> []"
    using length_wire_layout [of m] by (auto simp: kWireSize_def simp del: length_wire_layout)
  with assms send_bytes_loop_spec [of c "wire_layout m" w ok w'] show ?thesis
    by (auto simp: v1_send_def send_message_def encode_eq_layout send_bytes_def split: if_splits)
qed

lemma v1_gen_loop_spec:
  assumes "v1_gen_loop e junk c rate gm gs n nxt g w = Some (ok, g', w')" and "length junk = kWireSize"
  shows "\<exists>k. on_wire w' = on_wire w @ map wire_layout (take k (fst (gen_slots gm gs n g))) \<and>
    (ok \<longrightarrow> k = length (fst (gen_slots gm gs n g)))"
  using assms(1)
proof (induction n arbitrary: nxt g w)
  case 0
  then show ?case by simp
next
  case (Suc n)
  obtain mo g1 where mo: "gen_slot gm gs g = (mo, g1)" by fastforce
  let ?rest = "fst (gen_slots gm gs n g1)"
  show ?case
  proof (cases mo)
    case None
    obtain nxt1 w1 where pc: "pace rate 1 nxt w = (nxt1, w1)" by fastforce
    with None Suc.prems mo Suc.IH [of nxt1 g1 w1] pace_effect [OF pc] show ?thesis
      by (simp add: case_prod_unfold Let_def)
  next
    case (Some m)
    then have all: "fst (gen_slots gm gs (Suc n) g) = m # ?rest"
      by (simp add: mo case_prod_unfold Let_def)
    obtain ok1 w1 where w1: "v1_send e junk c m w = Some (ok1, w1)"
      "(if ok1 then case pace rate 1 nxt w1 of (nxt, w) \<Rightarrow> v1_gen_loop e junk c rate gm gs n nxt g1 w
        else Some (False, g1, w1)) = Some (ok, g', w')"
      using Suc.prems unfolding v1_gen_loop.simps v1_gen_slot_eq mo Some
      by (auto simp: bind_eq_Some_conv split: if_splits)
    have sent: "on_wire w1 = on_wire w @ (if ok1 then [wire_layout m] else [])"
      using v1_send_spec [OF w1(1) assms(2)] .
    show ?thesis
    proof (cases ok1)
      case True
      obtain nxt2 w2 where pc: "pace rate 1 nxt w1 = (nxt2, w2)" by fastforce
      with True w1(2) Suc.IH [of nxt2 g1 w2] pace_effect [OF pc] obtain k where "on_wire w' = on_wire w1 @ map wire_layout (take k ?rest)"
        "ok \<longrightarrow> k = length ?rest" by auto
      with True sent all show ?thesis by (intro exI [of _ "Suc k"]) simp
    next
      case False
      with w1(2) sent show ?thesis by (intro exI [of _ 0]) auto
    qed
  qed
qed

lemma v1_gen_run_spec:
  assumes "v1_gen_run e junk c cnt rate seed gap_mod gap_span now g w = Some (ok, g', w')"
    and "0 \<le> client_fd c" "client_connected c" and "length junk = kWireSize"
  shows "\<exists>k. let ms = fst (gen_slots gap_mod gap_span (nat cnt) (gen_start seed g)) in
    on_wire w' = on_wire w @ map wire_layout (take k ms) \<and> (ok \<longrightarrow> k = length ms)"
proof (cases "cnt \<le> 0")
  case True
  with assms show ?thesis by (intro exI [of _ 0]) (auto simp: v1_gen_run_def)
next
  case False
  then show ?thesis
    using assms(1-3) v1_gen_loop_spec [OF _ assms(4), of e c rate gap_mod gap_span "nat cnt" now "gen_start seed g" w]
    by (auto simp: v1_gen_run_def Let_def)
qed

text \<open>
  The batched generator sends the specified stream, whatever the burst size and whatever
  partial sends and transient errors the kernel answers with: the datagrams on the wire are
  the encodings of the messages of \<open>cnt\<close> rounds from the seed, in order, each once; all of
  them if \<^verbatim>\<open>run\<close> reports success, a prefix of them if it reports failure.
\<close>

lemma v2_generator_stream:
  assumes "v2_gen_run e junk cnt rate seed gap_mod gap_span burst now g s w = Some (ok, g', s', w')"
    and "0 \<le> tx_fd s" and "length junk = kWireSize"
  shows "\<exists>k. let ms = fst (gen_slots gap_mod gap_span (nat cnt) (gen_start seed g)) in
    on_wire w' = on_wire w @ map wire_layout (take k ms) \<and> (ok \<longrightarrow> k = length ms)"
  using assms by (rule v2_gen_run_spec)

lemma demo_gen_run:
  "\<exists>g' s' w'. v2_gen_run Little (replicate kWireSize 0) 2 50000 42 0 1 2 7 gen_init (sender_new\<lparr>tx_fd := 3\<rparr>)
    \<lparr>script = [Ret 1, Ret 1], rxs = [], evs = [], trace = []\<rparr> = Some (True, g', s', w')"
proof -
  let ?s = "sender_new\<lparr>tx_fd := 3\<rparr>"
  let ?w = "\<lparr>script = [Ret 1, Ret 1], rxs = [], evs = [], trace = []\<rparr>"
  let ?g = "gen_start 42 gen_init"
  obtain m1 m2 g' where ms: "gen_slots 0 1 2 ?g = ([m1, m2], g')"
    by (simp add: numeral_2_eq_2 gen_slot_def Let_def case_prod_unfold)
  let ?fs = "map (\<lambda>m. \<lparr>tx_data = Some (wire_layout m), tx_len = kWireSize\<rparr>) [m1, m2]"
  have "\<exists>s' w'. sender_send_batch ?s (Some ?fs) 2 ?w = Some (2, s', w')"
    unfolding sender_send_batch_def
    by (subst send_batch_loop.simps, simp add: sys_def bad_frame_def kWireSize_def sender_new_def sent_one_def,
      subst send_batch_loop.simps, simp add: sys_def bad_frame_def, simp add: send_batch_loop.simps)
  then obtain s' w' where "sender_send_batch ?s (Some ?fs) 2 ?w = Some (2, s', w')" by blast
  then have "send_or_fail Little (replicate kWireSize 0) [m1, m2] ?s ?w = Some (True, s', w')"
    using encode_all_layout [of "replicate kWireSize 0" Little "[m1, m2]"]
    by (simp add: send_or_fail_def v2_send_batch_def numeral_2_eq_2)
  then show ?thesis
    unfolding v2_gen_run_def by (subst v2_gen_loop.simps) (simp add: ms v2_gen_loop.simps pace_def Let_def)
qed

lemma v2_generator_stream_witness:
  "\<exists>g' s' w'. v2_gen_run Little (replicate kWireSize 0) 2 50000 42 0 1 2 7 gen_init (sender_new\<lparr>tx_fd := 3\<rparr>)
      \<lparr>script = [Ret 1, Ret 1], rxs = [], evs = [], trace = []\<rparr> = Some (True, g', s', w') \<and>
    on_wire w' = map wire_layout (fst (gen_slots 0 1 (nat 2) (gen_start 42 gen_init)))"
proof -
  obtain g' s' w' where run: "v2_gen_run Little (replicate kWireSize 0) 2 50000 42 0 1 2 7 gen_init (sender_new\<lparr>tx_fd := 3\<rparr>)
      \<lparr>script = [Ret 1, Ret 1], rxs = [], evs = [], trace = []\<rparr> = Some (True, g', s', w')"
    using demo_gen_run by blast
  from v2_generator_stream [OF run] have "on_wire w' = map wire_layout (fst (gen_slots 0 1 (nat 2) (gen_start 42 gen_init)))"
    by (auto simp: Let_def on_wire_def)
  with run show ?thesis by blast
qed

lemma gen_stream_increasing:
  assumes "gen_slots gap_mod gap_span cnt (gen_start seed g) = (ms, g')" and "cnt * (nat gap_span + 1) < 2 ^ 64"
  shows "sorted_wrt (<) (map seq_num ms) \<and>
    (\<forall>m\<in>set ms. unat (seq_num m) < cnt * (nat gap_span + 1) \<and> sanityCheck m \<and> exchange_ts m = seq_num m)"
proof -
  have z: "unat (seq (gen_start seed g)) = 0" by (simp add: gen_start_def Let_def)
  then have "unat (seq (gen_start seed g)) + cnt * (nat gap_span + 1) < 2 ^ 64"
    using assms(2) by simp
  from gen_slots_increasing [OF assms(1) this] z gen_slots_sane [of _ gap_mod gap_span cnt "gen_start seed g"] assms(1)
  show ?thesis by (fastforce simp: word_less_nat_alt)
qed

text \<open>
  The generated stream is valid: every message passes the engine's sanity check and its
  timestamp is its sequence number; and as long as the numbers stay below \<open>2 ^ 64\<close>, they
  increase strictly.
\<close>

lemma generator_stream_valid:
  assumes "cnt * (nat gap_span + 1) < 2 ^ 64"
  shows "let ms = fst (gen_slots gap_mod gap_span cnt (gen_start seed g)) in
    sorted_wrt (<) (map seq_num ms) \<and> (\<forall>m\<in>set ms. sanityCheck m \<and> exchange_ts m = seq_num m)"
  using gen_stream_increasing [OF prod.collapse [symmetric] assms, of gap_mod seed g] by (auto simp: Let_def)

lemma generator_stream_valid_witness:
  "let ms = fst (gen_slots 1000 1 30000000 (gen_start 42 gen_init)) in
    sorted_wrt (<) (map seq_num ms) \<and> (\<forall>m\<in>set ms. sanityCheck m \<and> exchange_ts m = seq_num m)"
  by (rule generator_stream_valid) simp

text \<open>A gap of span \<open>n\<close> leaves out \<open>n + 1\<close> numbers: after it the next message has the number \<open>n + 1\<close> further.\<close>

lemma gap_skips_one_more:
  assumes "gen_slot gap_mod gap_span g = (None, g1)" and "gen_slot gap_mod gap_span g1 = (Some m, g2)"
  shows "seq_num m = seq g + (of_int gap_span + 1)"
  using assms(2)
proof (cases rule: gen_slot_cases)
  case (msg g3 m')
  then have "seq_num m = seq g1" using make_message_values [OF msg(2)] by auto
  moreover have "seq g1 = seq g + (of_int gap_span + 1)"
    using assms(1) by (cases rule: gen_slot_cases) auto
  ultimately show ?thesis by simp
qed auto

text \<open>
  C23. The two generators are interchangeable: with the same seed, count and gap parameters,
  whenever both runs report success they have put the same datagrams on the wire in the same
  order, whatever the rates, the burst size, the byte orders, and the interruptions and partial sends
  on either side.
\<close>

theorem generators_agree:
  assumes "v1_gen_run e1 junk1 c cnt rate1 seed gap_mod gap_span now1 g1 w1 = Some (True, g1', w1')"
    and "v2_gen_run e2 junk2 cnt rate2 seed gap_mod gap_span burst now2 g2 s w2 = Some (True, g2', s', w2')"
    and "0 \<le> client_fd c" "client_connected c" "0 \<le> tx_fd s" and "symbol_count g1 = symbol_count g2"
    and "length junk1 = kWireSize" "length junk2 = kWireSize"
  shows "\<exists>ds. on_wire w1' = on_wire w1 @ ds \<and> on_wire w2' = on_wire w2 @ ds"
proof -
  have "gen_start seed g1 = gen_start seed g2"
    using assms(6) by (simp add: gen_start_def Let_def)
  with v1_gen_run_spec [OF assms(1,3,4,7)] v2_gen_run_spec [OF assms(2,5,8)] show ?thesis
    by (auto simp: Let_def)
qed

lemma demo_gen1_run:
  "\<exists>g' w'. v1_gen_run Big (replicate kWireSize 1) \<lparr>client_fd = 4, client_connected = True\<rparr> 2 0 42 0 1 5 gen_init
    \<lparr>script = [Fail EINTR, Ret 44, Ret 44], rxs = [], evs = [], trace = []\<rparr> = Some (True, g', w')"
proof -
  obtain m1 m2 ga gb where "gen_slot 0 1 (gen_start 42 gen_init) = (Some m1, ga)" "gen_slot 0 1 ga = (Some m2, gb)"
    by (simp add: gen_slot_def case_prod_unfold Let_def)
  then show ?thesis
    by (simp add: v1_gen_run_def numeral_2_eq_2 v1_send_def pace_def send_message_def encode_eq_layout send_bytes_def
        send_bytes_loop.simps sys_def kWireSize_def)
qed

theorem generators_agree_witness:
  "\<exists>g1' w1' g2' s' w2'. v1_gen_run Big (replicate kWireSize 1) \<lparr>client_fd = 4, client_connected = True\<rparr> 2 0 42 0 1 5 gen_init
      \<lparr>script = [Fail EINTR, Ret 44, Ret 44], rxs = [], evs = [], trace = []\<rparr> = Some (True, g1', w1') \<and>
    v2_gen_run Little (replicate kWireSize 0) 2 50000 42 0 1 2 7 gen_init (sender_new\<lparr>tx_fd := 3\<rparr>)
      \<lparr>script = [Ret 1, Ret 1], rxs = [], evs = [], trace = []\<rparr> = Some (True, g2', s', w2') \<and>
    on_wire w1' = on_wire w2'"
proof -
  obtain g1' w1' g2' s' w2' where
    one: "v1_gen_run Big (replicate kWireSize 1) \<lparr>client_fd = 4, client_connected = True\<rparr> 2 0 42 0 1 5 gen_init
      \<lparr>script = [Fail EINTR, Ret 44, Ret 44], rxs = [], evs = [], trace = []\<rparr> = Some (True, g1', w1')"
    and two: "v2_gen_run Little (replicate kWireSize 0) 2 50000 42 0 1 2 7 gen_init (sender_new\<lparr>tx_fd := 3\<rparr>)
      \<lparr>script = [Ret 1, Ret 1], rxs = [], evs = [], trace = []\<rparr> = Some (True, g2', s', w2')"
    using demo_gen1_run demo_gen_run by blast
  from generators_agree [OF one two] have "on_wire w1' = on_wire w2'" by (auto simp: on_wire_def)
  with one two show ?thesis by blast
qed

end
