(* ===== verification/Pacing.thy ===== *)
theory Pacing
  imports Generator
begin

text \<open>
  When the generators send: the times in the trace of a run of
  \<^verbatim>\<open>src/src/generator/v1/generator.cpp\<close> or \<^verbatim>\<open>src/src/generator/v2/generator.cpp\<close> with a rate,
  against a schedule that gives each round of the stream its time.
\<close>

section \<open>Times in a trace\<close>

text \<open>
  Each datagram of a trace with the time the thread had last slept until, \<open>t\<close> at the
  beginning: the datagram is not sent before it. \<open>awake\<close> is that time at the end.
\<close>

fun awake :: "int \<Rightarrow> (syscall \<times> sysret) list \<Rightarrow> int" where
  "awake t [] = t"
| "awake t (ev # es) = awake (case fst ev of Sys_sleep_until u \<Rightarrow> u | _ \<Rightarrow> t) es"

fun timed :: "int \<Rightarrow> (syscall \<times> sysret) list \<Rightarrow> (int \<times> bytes) list" where
  "timed t [] = []"
| "timed t (ev # es) =
     map (Pair t) (accepted_by ev) @ timed (case fst ev of Sys_sleep_until u \<Rightarrow> u | _ \<Rightarrow> t) es"

definition quiet :: "(syscall \<times> sysret) list \<Rightarrow> bool" where
  "quiet es \<longleftrightarrow> (\<forall>ev\<in>set es. \<forall>u. fst ev \<noteq> Sys_sleep_until u)"

lemma quiet_simps [simp]:
  "quiet []" "quiet (xs @ ys) \<longleftrightarrow> quiet xs \<and> quiet ys"
  "quiet (ev # es) \<longleftrightarrow> (\<forall>u. fst ev \<noteq> Sys_sleep_until u) \<and> quiet es"
  by (auto simp: quiet_def)

lemma timed_append: "timed t (xs @ ys) = timed t xs @ timed (awake t xs) ys"
  by (induction xs arbitrary: t) simp_all

lemma timed_quiet:
  assumes "quiet es"
  shows "awake t es = t" "timed t es = map (Pair t) (concat (map accepted_by es))"
proof -
  have "(case c of Sys_sleep_until u \<Rightarrow> u | _ \<Rightarrow> t) = t" if "\<forall>u. c \<noteq> Sys_sleep_until u" for c
    using that by (cases c) auto
  then show "awake t es = t" "timed t es = map (Pair t) (concat (map accepted_by es))"
    using assms by (induction es) simp_all
qed

text \<open>An operation that does not sleep extends the trace quietly.\<close>

definition quietly :: "world \<Rightarrow> world \<Rightarrow> bool" where
  "quietly w w' \<longleftrightarrow> (\<exists>es. trace w' = trace w @ es \<and> quiet es)"

lemma quietly_refl [simp]: "quietly w w"
  by (auto simp: quietly_def)

lemma quietly_trans: "quietly w1 w2 \<Longrightarrow> quietly w2 w3 \<Longrightarrow> quietly w1 w3"
  unfolding quietly_def by (metis append.assoc quiet_simps(2))

lemma quietly_sys: "sys c w = Some (r, w') \<Longrightarrow> \<forall>u. c \<noteq> Sys_sleep_until u \<Longrightarrow> quietly w w'"
  by (auto simp: sys_def quietly_def split: list.splits)

lemma quietly_timed:
  assumes "quietly w w'" and "on_wire w' = on_wire w @ ds"
  obtains es where "trace w' = trace w @ es" "awake t es = t" "timed t es = map (Pair t) ds"
proof -
  from assms(1) obtain es where es: "trace w' = trace w @ es" "quiet es" by (auto simp: quietly_def)
  then have "concat (map accepted_by es) = ds" using assms(2) by (simp add: on_wire_def)
  with es timed_quiet [OF es(2), of t] show thesis by (intro that) simp_all
qed

lemma send_batch_loop_quietly:
  "send_batch_loop s frames cnt sent retry w = Some (k, s', w') \<Longrightarrow> quietly w w'"
proof (induction s frames cnt sent retry w rule: send_batch_loop.induct)
  case (1 s frames cnt sent retry w)
  note eq = 1(4) [unfolded send_batch_loop.simps [of s frames cnt sent retry w] Let_def]
  show ?case
  proof (cases "cnt \<le> sent \<or> (\<exists>f\<in>set (take (cnt - sent) (drop sent frames)). bad_frame f)")
    case True
    with eq show ?thesis by (auto split: if_splits)
  next
    case False
    let ?rest = "take (cnt - sent) (drop sent frames)"
    let ?c = "Sys_sendmmsg (tx_fd s) (map frame_bytes ?rest) (if tx_connected s then None else Some (tx_remote s))"
    have go: "\<not> cnt \<le> sent" "\<not> length frames < cnt" "\<not> (\<exists>f\<in>set ?rest. bad_frame f)"
      using False eq by (auto split: if_splits)
    obtain r w1 where sys: "sys ?c w = Some (r, w1)" using eq go by (auto split: option.splits)
    have q: "quietly w w1" using quietly_sys [OF sys] by simp
    show ?thesis
    proof (cases r)
      case (Ret n)
      with 1(1) [OF go(1) refl go(2,3) sys refl Ret] eq go sys q show ?thesis
        by (auto split: if_splits intro: quietly_trans)
    next
      case (Fail e)
      with 1(2,3) [OF go(1) refl go(2,3) sys refl Fail] eq go sys q show ?thesis
        by (auto split: if_splits intro: quietly_trans)
    qed
  qed
qed

lemma send_or_fail_quietly:
  "send_or_fail e junk batch s w = Some (ok, s', w') \<Longrightarrow> quietly w w'"
  by (auto simp: send_or_fail_def v2_send_batch_def sender_send_batch_def bind_eq_Some_conv
      split: if_splits dest: send_batch_loop_quietly)

lemma send_bytes_loop_quietly:
  "send_bytes_loop c data w = Some (ok, w') \<Longrightarrow> quietly w w'"
proof (induction c data w rule: send_bytes_loop.induct)
  case (1 c data w)
  note eq = 1(2) [unfolded send_bytes_loop.simps [of c data w]]
  obtain r w1 where r: "sys (Sys_send (client_fd c) data) w = Some (r, w1)"
    using eq by (cases "sys (Sys_send (client_fd c) data) w") auto
  have q: "quietly w w1" using quietly_sys [OF r] by simp
  show ?case
  proof (cases r)
    case (Fail err)
    with eq r 1(1) [OF r refl Fail] q show ?thesis by (auto split: if_splits intro: quietly_trans)
  qed (use eq r q in auto)
qed

lemma v1_send_quietly: "v1_send e junk c m w = Some (ok, w') \<Longrightarrow> quietly w w'"
  by (auto simp: v1_send_def send_message_def send_bytes_def bind_eq_Some_conv
      split: if_splits dest: send_bytes_loop_quietly)

section \<open>The schedule\<close>

text \<open>
  The messages of the stream with the numbers of their rounds, from round \<open>i\<close>; a round
  without a message is a gap. Round \<open>i\<close> is due when the burst it belongs to starts: at a
  multiple of the burst size many intervals after \<open>now\<close>.
\<close>

fun gen_rounds :: "int \<Rightarrow> int \<Rightarrow> nat \<Rightarrow> nat \<Rightarrow> gen_state \<Rightarrow> (nat \<times> MarketDataMsg) list" where
  "gen_rounds gap_mod gap_span 0 i g = []"
| "gen_rounds gap_mod gap_span (Suc n) i g =
     (let (mo, g) = gen_slot gap_mod gap_span g
      in (case mo of None \<Rightarrow> [] | Some m \<Rightarrow> [(i, m)]) @ gen_rounds gap_mod gap_span n (Suc i) g)"

definition due :: "int \<Rightarrow> int \<Rightarrow> nat \<Rightarrow> nat \<times> MarketDataMsg \<Rightarrow> int \<times> bytes" where
  "due now rate burst = (\<lambda>(i, m). (now + interval rate * int (burst * (i div burst)), wire_layout m))"

text \<open>The steps from one world to another send the beginning of the scheduled messages; all of them if \<open>ok\<close>.\<close>

definition on_schedule :: "bool \<Rightarrow> int \<Rightarrow> (int \<times> bytes) list \<Rightarrow> world \<Rightarrow> world \<Rightarrow> bool" where
  "on_schedule ok t ps w w' \<longleftrightarrow>
     (\<exists>es k. trace w' = trace w @ es \<and> timed t es = take k ps \<and> (ok \<longrightarrow> timed t es = ps))"

lemma gen_rounds_messages: "map snd (gen_rounds gm gs n i g) = fst (gen_slots gm gs n g)"
  by (induction n arbitrary: i g) (auto simp: case_prod_unfold Let_def split: option.splits)

lemma gen_rounds_range: "p \<in> set (gen_rounds gm gs n i g) \<Longrightarrow> i \<le> fst p \<and> fst p < i + n"
  by (induction n arbitrary: i g) (fastforce simp: case_prod_unfold Let_def split: option.splits)+

lemma gen_rounds_add:
  "gen_rounds gm gs (a + b) i g = gen_rounds gm gs a i g @ gen_rounds gm gs b (i + a) (snd (gen_slots gm gs a g))"
proof (induction a arbitrary: i g)
  case (Suc a)
  obtain mo g1 where "gen_slot gm gs g = (mo, g1)" by fastforce
  with Suc [of "Suc i" g1] show ?case by (simp add: case_prod_unfold Let_def)
qed simp

text \<open>All rounds of a burst are due at its start.\<close>

lemma burst_due:
  assumes "n \<le> burst" and "burst dvd i"
  shows "map (due now rate burst) (gen_rounds gm gs n i g) =
    map (Pair (now + interval rate * int i)) (map wire_layout (fst (gen_slots gm gs n g)))"
proof -
  have "due now rate burst p = (now + interval rate * int i, wire_layout (snd p))"
    if p: "p \<in> set (gen_rounds gm gs n i g)" for p
  proof -
    obtain q where q: "i = burst * q" using assms(2) by blast
    obtain r where r: "fst p = i + r" "r < burst"
      using gen_rounds_range [OF p] assms(1) by (metis add_less_cancel_left le_Suc_ex order_less_le_trans)
    have "burst * (fst p div burst) = i" using q r by simp
    then show ?thesis by (simp add: due_def case_prod_unfold del: of_nat_mult)
  qed
  then show ?thesis
    by (simp add: gen_rounds_messages [symmetric, of gm gs n g i])
qed

lemma on_schedule_step:
  assumes "quietly w w1" and "on_wire w1 = on_wire w @ ds"
    and "on_schedule ok u ps (sys_sleep_until u w1) w'"
  shows "on_schedule ok t (map (Pair t) ds @ ps) w w'"
proof -
  obtain es where es: "trace w1 = trace w @ es" "awake t es = t" "timed t es = map (Pair t) ds"
    by (rule quietly_timed [OF assms(1,2)])
  from assms(3) obtain fs k where fs: "trace w' = trace (sys_sleep_until u w1) @ fs" "timed u fs = take k ps"
    "ok \<longrightarrow> timed u fs = ps"
    unfolding on_schedule_def by blast
  have "timed t (es @ (Sys_sleep_until u, Ret 0) # fs) = map (Pair t) ds @ timed u fs"
    by (simp add: timed_append es)
  with es(1) fs show ?thesis unfolding on_schedule_def
    by (intro exI [of _ "es @ (Sys_sleep_until u, Ret 0) # fs"] exI [of _ "length ds + k"]) (simp add: sys_sleep_until_def)
qed

lemma on_schedule_stop:
  assumes "quietly w w'" and "on_wire w' = on_wire w @ take j ds"
  shows "on_schedule False t (map (Pair t) ds @ ps) w w'"
proof -
  obtain es where es: "trace w' = trace w @ es" "timed t es = map (Pair t) (take j ds)"
    by (rule quietly_timed [OF assms])
  then show ?thesis unfolding on_schedule_def
    by (intro exI [of _ es] exI [of _ "min j (length ds)"]) (auto simp: take_map min_def)
qed

lemma on_schedule_refl [simp]: "on_schedule ok t [] w w"
  by (simp add: on_schedule_def)

lemma pace_sleeps: "0 < rate \<Longrightarrow> pace rate n nxt w = (nxt + interval rate * int n, sys_sleep_until (nxt + interval rate * int n) w)"
  by (simp add: pace_def Let_def)

lemma v2_gen_loop_schedule:
  assumes "v2_gen_loop e junk rate gm gs burst cnt produced nxt g s w = Some (ok, g', s', w')"
    and "0 \<le> tx_fd s" and "length junk = kWireSize" and "0 < rate"
    and "cnt \<le> produced \<or> burst dvd produced" and "nxt = now + interval rate * int produced"
  shows "on_schedule ok nxt (map (due now rate burst) (gen_rounds gm gs (cnt - produced) produced g)) w w'"
  using assms
proof (induction e junk rate gm gs burst cnt produced nxt g s w rule: v2_gen_loop.induct)
  case (1 e junk rate gm gs burst cnt produced nxt g s w)
  note eq = 1(2) [unfolded v2_gen_loop.simps [of e junk rate gm gs burst cnt produced nxt g s w] Let_def]
  show ?case
  proof (cases "cnt \<le> produced \<or> burst = 0")
    case True
    with eq show ?thesis by (auto split: if_splits)
  next
    case False
    let ?n = "min burst (cnt - produced)" and ?u = "nxt + interval rate * int (min burst (cnt - produced))"
    obtain batch g1 where b: "gen_slots gm gs ?n g = (batch, g1)" by fastforce
    obtain ok1 s1 w1 where sf: "send_or_fail e junk batch s w = Some (ok1, s1, w1)"
      using eq False b by (auto simp: bind_eq_Some_conv)
    obtain j where j: "on_wire w1 = on_wire w @ map wire_layout (take j batch)" "ok1 \<longleftrightarrow> j = length batch" "tx_fd s1 = tx_fd s"
      by (rule send_or_fail_spec [OF sf 1(3,4)])
    let ?rest = "map (due now rate burst) (gen_rounds gm gs (cnt - (produced + ?n)) (produced + ?n) g1)"
    have split: "cnt - produced = ?n + (cnt - (produced + ?n))" using False by simp
    have "map (due now rate burst) (gen_rounds gm gs (cnt - produced) produced g) =
        map (due now rate burst) (gen_rounds gm gs ?n produced g) @ ?rest"
      by (subst split) (simp add: gen_rounds_add b)
    also have "map (due now rate burst) (gen_rounds gm gs ?n produced g) = map (Pair nxt) (map wire_layout batch)"
      using burst_due [of ?n burst produced now rate gm gs g] 1(6,7) False b by simp
    finally have all: "map (due now rate burst) (gen_rounds gm gs (cnt - produced) produced g) =
        map (Pair nxt) (map wire_layout batch) @ ?rest" .
    note pc = pace_sleeps [OF 1(5), of ?n nxt w1]
    show ?thesis
    proof (cases ok1)
      case stop: False
      then have "\<not> ok" "w' = w1" using eq False b sf by auto
      with on_schedule_stop [OF send_or_fail_quietly [OF sf], of j "map wire_layout batch" nxt ?rest] j(1) show ?thesis
        unfolding all by (simp add: take_map)
    next
      case True
      have run: "v2_gen_loop e junk rate gm gs burst cnt (produced + ?n) ?u g1 s1 (sys_sleep_until ?u w1) = Some (ok, g', s', w')"
        using True eq False b sf pc by auto
      have "cnt \<le> produced + ?n \<or> burst dvd produced + ?n"
        using 1(6) False by (cases "burst \<le> cnt - produced") auto
      moreover have "?u = now + interval rate * int (produced + ?n)" using 1(7) by (simp add: algebra_simps)
      ultimately have "on_schedule ok ?u ?rest (sys_sleep_until ?u w1) w'"
        using 1(1) [OF _ _ refl b [symmetric] refl sf refl refl _ pc [symmetric] refl run] False True j(3) 1(3,4,5) by auto
      with on_schedule_step [OF send_or_fail_quietly [OF sf], of "map wire_layout batch" ok ?u ?rest w' nxt] j True show ?thesis
        unfolding all by simp
    qed
  qed
qed

lemma v1_gen_loop_schedule:
  assumes "v1_gen_loop e junk c rate gm gs n nxt g w = Some (ok, g', w')" and "length junk = kWireSize" and "0 < rate"
    and "nxt = now + interval rate * int i"
  shows "on_schedule ok nxt (map (due now rate 1) (gen_rounds gm gs n i g)) w w'"
  using assms(1,4)
proof (induction n arbitrary: nxt g w i)
  case (Suc n)
  let ?u = "nxt + interval rate * int 1"
  obtain mo g1 where mo: "gen_slot gm gs g = (mo, g1)" by fastforce
  let ?rest = "map (due now rate 1) (gen_rounds gm gs n (Suc i) g1)"
  have u: "?u = now + interval rate * int (Suc i)" using Suc.prems(2) by (simp add: algebra_simps)
  show ?case
  proof (cases mo)
    case None
    have "v1_gen_loop e junk c rate gm gs n ?u g1 (sys_sleep_until ?u w) = Some (ok, g', w')"
      using Suc.prems(1) mo None pace_sleeps [OF assms(3), of 1 nxt w] by simp
    from on_schedule_step [OF quietly_refl _ Suc.IH [OF this u], of "[]" nxt] None show ?thesis
      by (simp add: mo)
  next
    case (Some m)
    obtain ok1 w1 where w1: "v1_send e junk c m w = Some (ok1, w1)"
      "(if ok1 then v1_gen_loop e junk c rate gm gs n ?u g1 (sys_sleep_until ?u w1) else Some (False, g1, w1)) = Some (ok, g', w')"
      using Suc.prems(1) pace_sleeps [OF assms(3), of 1 nxt] unfolding v1_gen_loop.simps v1_gen_slot_eq mo Some
      by (auto simp: bind_eq_Some_conv split: if_splits)
    note sent = v1_send_spec [OF w1(1) assms(2)] and q = v1_send_quietly [OF w1(1)]
    have all: "map (due now rate 1) (gen_rounds gm gs (Suc n) i g) = map (Pair nxt) [wire_layout m] @ ?rest"
      using Some Suc.prems(2) by (simp add: mo due_def)
    show ?thesis
    proof (cases ok1)
      case True
      then have "v1_gen_loop e junk c rate gm gs n ?u g1 (sys_sleep_until ?u w1) = Some (ok, g', w')" using w1(2) by simp
      from on_schedule_step [OF q _ Suc.IH [OF this u], of "[wire_layout m]" nxt] sent True show ?thesis unfolding all by simp
    next
      case False
      with w1(2) on_schedule_stop [OF q, of 0 "[wire_layout m]" nxt ?rest] sent show ?thesis
        unfolding all by simp
    qed
  qed
qed simp

lemma v1_run_paced:
  assumes "v1_gen_run e junk c cnt rate seed gap_mod gap_span now g w = Some (ok, g', w')"
    and "client_connected c" "0 \<le> client_fd c" and "length junk = kWireSize" and "0 < rate"
  shows "on_schedule ok now (map (due now rate 1) (gen_rounds gap_mod gap_span (nat cnt) 0 (gen_start seed g))) w w'"
proof (cases "cnt \<le> 0")
  case False
  with assms show ?thesis
    using v1_gen_loop_schedule [of e junk c rate gap_mod gap_span "nat cnt" now "gen_start seed g" w ok g' w' now 0]
    by (simp add: v1_gen_run_def)
qed (use assms in \<open>simp add: v1_gen_run_def\<close>)

text \<open>
  C24. A run of generator v2 with a rate keeps to its schedule: the datagrams it hands to the
  kernel are those of the stream, in order, and the one of round \<open>i\<close> only after the thread has
  slept until the start of its burst, \<open>burst * (i div burst)\<close> intervals after the start of
  the run; the rounds of gaps keep their time as well. If the run fails, this holds for the
  messages sent until then.
\<close>

theorem v2_run_paced:
  assumes "v2_gen_run e junk cnt rate seed gap_mod gap_span burst now g s w = Some (ok, g', s', w')"
    and "0 \<le> tx_fd s" and "length junk = kWireSize" and "0 < rate"
  shows "on_schedule ok now
    (map (due now rate (nat (if burst \<le> 0 then 1 else burst)))
      (gen_rounds gap_mod gap_span (nat cnt) 0 (gen_start seed g))) w w'"
proof (cases "cnt \<le> 0")
  case False
  with assms show ?thesis
    using v2_gen_loop_schedule [of e junk rate gap_mod gap_span "nat (if burst \<le> 0 then 1 else burst)" "nat cnt" 0 now
        "gen_start seed g" s w ok g' s' w' now]
    by (simp add: v2_gen_run_def)
qed (use assms in \<open>simp add: v2_gen_run_def\<close>)

theorem v2_run_paced_witness:
  "\<exists>g' s' w'. v2_gen_run Little (replicate kWireSize 0) 2 50000 42 0 1 2 7 gen_init (sender_new\<lparr>tx_fd := 3\<rparr>)
      \<lparr>script = [Ret 1, Ret 1], rxs = [], evs = [], trace = []\<rparr> = Some (True, g', s', w') \<and>
    timed 7 (trace w') = map (due 7 50000 2) (gen_rounds 0 1 2 0 (gen_start 42 gen_init)) \<and>
    map fst (timed 7 (trace w')) = [7, 7]"
proof -
  obtain g' s' w' where run: "v2_gen_run Little (replicate kWireSize 0) 2 50000 42 0 1 2 7 gen_init (sender_new\<lparr>tx_fd := 3\<rparr>)
      \<lparr>script = [Ret 1, Ret 1], rxs = [], evs = [], trace = []\<rparr> = Some (True, g', s', w')"
    using demo_gen_run by blast
  from v2_run_paced [OF run] have "timed 7 (trace w') = map (due 7 50000 2) (gen_rounds 0 1 2 0 (gen_start 42 gen_init))"
    by (auto simp: on_schedule_def)
  moreover have "map fst (map (due 7 50000 2) (gen_rounds 0 1 2 0 (gen_start 42 gen_init))) = [7, 7]"
    by (simp add: numeral_2_eq_2 gen_slot_def due_def Let_def case_prod_unfold)
  ultimately show ?thesis using run by (metis (no_types))
qed

end
