(* ===== verification/Tcp_Reassembly.thy ===== *)
theory Tcp_Reassembly
  imports Udp_Server
begin

text \<open>
  The TCP server \<^verbatim>\<open>src/src/common/net/v1/tcp_server_nonblock_epoll.hpp\<close>: cutting the byte
  stream of a connection into frames of 44 bytes, and reading, accepting and closing
  connections.
\<close>

section \<open>Connections\<close>

record ConnState =
  conn_fd :: int
  have_bytes :: nat        \<comment> \<open>\<^verbatim>\<open>have\<close>\<close>
  conn_frame :: bytes

definition conn_ok :: "ConnState \<Rightarrow> bool" where
  "conn_ok st \<longleftrightarrow> have_bytes st < kWireSize \<and> length (conn_frame st) = kWireSize"

text \<open>A complete frame: into a free slot and on to the ready ring, or dropped.\<close>

definition publish_frame :: "bytes \<Rightarrow> FramePool \<times> Metrics \<Rightarrow> FramePool \<times> Metrics" where
  "publish_frame frame pm =
     (let (pool, m) = pm in
      case free_pop pool of
        (None, pool) \<Rightarrow> (pool, inc_drops 1 m)
      | (Some idx, pool) \<Rightarrow>
          (let pool = slot_write pool idx frame in
           case ready_push pool idx of
             (True, pool) \<Rightarrow> (pool, m)
           | (False, pool) \<Rightarrow> (snd (free_push pool idx), inc_drops 1 m)))"

text \<open>
  \<^verbatim>\<open>consume_frames\<close> on the bytes that are left. \<^const>\<open>None\<close>: more than 44 bytes are
  pending, where the subtraction in the code would wrap around.
\<close>

function consume_frames ::
  "ConnState \<Rightarrow> bytes \<Rightarrow> FramePool \<times> Metrics \<Rightarrow> (ConnState \<times> (FramePool \<times> Metrics)) option" where
  "consume_frames st data pm =
     (if data = [] then Some (st, pm)
      else if kWireSize < have_bytes st then None
      else
        let need = kWireSize - have_bytes st;
            n = (if length data < need then length data else need);
            frame = take (have_bytes st) (conn_frame st) @ take n data @ drop (have_bytes st + n) (conn_frame st);
            st = st\<lparr>conn_frame := frame, have_bytes := have_bytes st + n\<rparr> in
        if have_bytes st = kWireSize
        then consume_frames (st\<lparr>have_bytes := 0\<rparr>) (drop n data) (publish_frame (take kWireSize (conn_frame st)) pm)
        else consume_frames st (drop n data) pm)"
  by pat_completeness auto
termination
  by (relation "measures [\<lambda>(st, data, pm). length data, \<lambda>(st, data, pm). if have_bytes st = 0 then 0 else 1]")
    (auto simp: kWireSize_def split: if_splits)

declare consume_frames.simps [simp del]

section \<open>The server\<close>

text \<open>
  The handle, the table of connections (a static array of 65536 entries, indexed by
  descriptor), and what the loop changes: the pool, the counters and the world.
\<close>

record TcpServer =
  tcp_running :: bool
  listen_fd :: int
  tcp_epfd :: int
  tcp_wake_fd :: int
  tcp_joinable :: bool       \<comment> \<open>\<^verbatim>\<open>io_thread.joinable()\<close>\<close>
  conns :: "int \<Rightarrow> ConnState"
  tcp_pm :: "FramePool \<times> Metrics"
  tcp_world :: world

definition MAX_FD :: int where
  "MAX_FD = 65536"

definition no_conn :: ConnState where
  "no_conn = \<lparr>conn_fd = - 1, have_bytes = 0, conn_frame = replicate kWireSize 0\<rparr>"

definition tcp_new :: "FramePool \<times> Metrics \<Rightarrow> world \<Rightarrow> TcpServer" where
  "tcp_new pm w = \<lparr>tcp_running = False, listen_fd = - 1, tcp_epfd = - 1, tcp_wake_fd = - 1,
     tcp_joinable = False,
     conns = (\<lambda>_. no_conn), tcp_pm = pm, tcp_world = w\<rparr>"

definition init_conn :: "int \<Rightarrow> TcpServer \<Rightarrow> TcpServer option" where
  "init_conn fd s =
     (if fd < 0 \<or> MAX_FD \<le> fd then None
      else Some (s\<lparr>conns := (conns s)(fd := (conns s fd)\<lparr>conn_fd := fd, have_bytes := 0\<rparr>)\<rparr>))"

definition reset_conn :: "int \<Rightarrow> TcpServer \<Rightarrow> TcpServer" where
  "reset_conn fd s =
     (if 0 \<le> fd \<and> fd < MAX_FD
      then s\<lparr>conns := (conns s)(fd := (conns s fd)\<lparr>conn_fd := - 1, have_bytes := 0\<rparr>)\<rparr>
      else s)"

definition close_fd :: "int \<Rightarrow> TcpServer \<Rightarrow> TcpServer" where
  "close_fd fd s = s\<lparr>tcp_world := sys_close fd (tcp_world s)\<rparr>"

text \<open>The bytes of one message of a \<^verbatim>\<open>recvmmsg\<close> call, if the connection is registered.\<close>

definition on_bytes :: "int \<Rightarrow> bytes \<Rightarrow> TcpServer \<Rightarrow> TcpServer option" where
  "on_bytes fd data s =
     (if data \<noteq> [] \<and> 0 \<le> fd \<and> fd < MAX_FD \<and> conn_fd (conns s fd) = fd
      then map_option (\<lambda>(st, pm). s\<lparr>conns := (conns s)(fd := st), tcp_pm := pm\<rparr>)
             (consume_frames (conns s fd) data (tcp_pm s))
      else Some s)"

fun on_chunks :: "int \<Rightarrow> bytes list \<Rightarrow> TcpServer \<Rightarrow> TcpServer option" where
  "on_chunks fd [] s = Some s"
| "on_chunks fd (c # cs) s = (case on_bytes fd c s of None \<Rightarrow> None | Some s \<Rightarrow> on_chunks fd cs s)"

text \<open>
  The receive loop of one connection, on the answers of \<^verbatim>\<open>recvmmsg\<close>: no message closes the
  connection, as every error does except the two that end the loop and \<^verbatim>\<open>EINTR\<close>.
\<close>

fun recv_loop :: "int \<Rightarrow> rxret list \<Rightarrow> TcpServer \<Rightarrow> (TcpServer \<times> rxret list) option" where
  "recv_loop fd [] s = None"
| "recv_loop fd (Rx [] # rs) s = Some (reset_conn fd (close_fd fd s), rs)"
| "recv_loop fd (Rx (m # ms) # rs) s =
     (case on_chunks fd (map rx_data (m # ms)) s of None \<Rightarrow> None | Some s \<Rightarrow> recv_loop fd rs s)"
| "recv_loop fd (Rx_fail e # rs) s =
     (if e = EAGAIN \<or> e = EWOULDBLOCK then Some (s, rs)
      else if e = EINTR then recv_loop fd rs s
      else Some (reset_conn fd (close_fd fd s), rs))"

text \<open>The accept loop: until \<^verbatim>\<open>accept4\<close> fails with anything but \<^verbatim>\<open>EINTR\<close>.\<close>

function accept_loop :: "TcpServer \<Rightarrow> TcpServer option" where
  "accept_loop s =
     (case sys (Sys_accept (listen_fd s)) (tcp_world s) of
        None \<Rightarrow> None
      | Some (Fail e, w) \<Rightarrow>
          (let s = s\<lparr>tcp_world := w\<rparr> in if e = EINTR then accept_loop s else Some s)
      | Some (Ret n, w) \<Rightarrow>
          (let s = s\<lparr>tcp_world := w\<rparr>; cfd = int n in
           case init_conn cfd s of
             None \<Rightarrow> accept_loop (close_fd cfd s)
           | Some s \<Rightarrow>
               (case sys (Sys_epoll_add (tcp_epfd s) cfd) (tcp_world s) of
                  None \<Rightarrow> None
                | Some (Fail _, w) \<Rightarrow> accept_loop (reset_conn cfd (close_fd cfd (s\<lparr>tcp_world := w\<rparr>)))
                | Some (Ret _, w) \<Rightarrow> accept_loop (s\<lparr>tcp_world := w\<rparr>))))"
  by pat_completeness auto
termination
  by (relation "measure (\<lambda>s. length (script (tcp_world s)))")
    (auto simp: sys_def init_conn_def reset_conn_def close_fd_def sys_close_def Let_def split: list.splits if_splits)

declare accept_loop.simps [simp del]

text \<open>The events of one \<^verbatim>\<open>epoll_wait\<close>, and the loop on \<^verbatim>\<open>running\<close>.\<close>

fun tcp_events :: "epoll_ev list \<Rightarrow> TcpServer \<Rightarrow> TcpServer option" where
  "tcp_events [] s = Some s"
| "tcp_events (ev # es) s =
     (let fd = ev_fd ev in
      if fd = tcp_wake_fd s then tcp_events es (s\<lparr>tcp_running := False\<rparr>)
      else if fd = listen_fd s then
        (case accept_loop s of None \<Rightarrow> None | Some s \<Rightarrow> tcp_events es s)
      else if ev_err ev \<or> ev_rdhup ev then tcp_events es (reset_conn fd (close_fd fd s))
      else case recv_loop fd (rxs (tcp_world s)) s of
          None \<Rightarrow> None
        | Some (s, rx) \<Rightarrow> tcp_events es (s\<lparr>tcp_world := (tcp_world s)\<lparr>rxs := rx\<rparr>\<rparr>))"

fun tcp_serve :: "bool list \<Rightarrow> evret list \<Rightarrow> TcpServer \<Rightarrow> (TcpServer \<times> evret list) option" where
  "tcp_serve [] ws s = None"
| "tcp_serve (stop # stops) ws s =
     (let s = (if stop then s\<lparr>tcp_running := False\<rparr> else s) in
      if \<not> tcp_running s then Some (s, ws)
      else case ws of
          [] \<Rightarrow> None
        | Ev_fail e # ws \<Rightarrow> if e = EINTR then tcp_serve stops ws s else Some (s, ws)
        | Evs es # ws \<Rightarrow>
            (case tcp_events es s of None \<Rightarrow> None | Some s \<Rightarrow> tcp_serve stops ws s))"

text \<open>
  Before the loop: the listening socket, on the address that \<open>inet_pton\<close> gives for the
  loopback address, and the \<^verbatim>\<open>epoll\<close> and wake descriptors.
\<close>

definition make_listen_socket ::
  "(string \<Rightarrow> u32 option) \<Rightarrow> u16 \<Rightarrow> world \<Rightarrow> (int \<times> world) option" where
  "make_listen_socket inet_pton port w =
     call (Sys_socket_stream True) w (\<lambda>w. (- 1, w)) (\<lambda>n w.
     let fd = int n; bail = (\<lambda>w. (- 1, sys_close fd w)) in
     call (Sys_setsockopt fd SO_REUSEADDR 1) w bail (\<lambda>_ w.
     case inet_pton ''127.0.0.1'' of
       None \<Rightarrow> Some (bail w)
     | Some a \<Rightarrow>
         call (Sys_bind fd \<lparr>sin_inet = True, sin_port = port, sin_addr = a\<rparr>) w bail (\<lambda>_ w.
         call (Sys_listen fd) w bail (\<lambda>_ w.
         Some (fd, w)))))"

definition tcp_setup ::
  "(string \<Rightarrow> u32 option) \<Rightarrow> u16 \<Rightarrow> TcpServer \<Rightarrow> (bool \<times> TcpServer) option" where
  "tcp_setup inet_pton port s =
     (case make_listen_socket inet_pton port (tcp_world s) of
        None \<Rightarrow> None
      | Some (fd, w) \<Rightarrow>
          (let s = s\<lparr>listen_fd := fd, tcp_world := w\<rparr> in
           if listen_fd s = - 1 then Some (False, s\<lparr>tcp_running := False\<rparr>)
           else
             call Sys_epoll_create (tcp_world s)
               (\<lambda>w. (False, s\<lparr>tcp_world := sys_close (listen_fd s) w, tcp_epfd := - 1, listen_fd := - 1,
                  tcp_running := False\<rparr>)) (\<lambda>ep w.
             let s = s\<lparr>tcp_epfd := int ep\<rparr> in
             call Sys_eventfd w
               (\<lambda>w. (False, s\<lparr>tcp_world := sys_close (listen_fd s) (sys_close (tcp_epfd s) w),
                  tcp_wake_fd := - 1, tcp_epfd := - 1, listen_fd := - 1, tcp_running := False\<rparr>)) (\<lambda>wk w.
             let s = s\<lparr>tcp_wake_fd := int wk\<rparr>;
                 bail = (\<lambda>w. (False, s\<lparr>tcp_world :=
                     sys_close (listen_fd s) (sys_close (tcp_epfd s) (sys_close (tcp_wake_fd s) w)),
                   tcp_wake_fd := - 1, tcp_epfd := - 1, listen_fd := - 1, tcp_running := False\<rparr>)) in
             call (Sys_epoll_add (tcp_epfd s) (listen_fd s)) w bail (\<lambda>_ w.
             call (Sys_epoll_add (tcp_epfd s) (tcp_wake_fd s)) w bail (\<lambda>_ w.
             Some (True, s\<lparr>tcp_world := w\<rparr>)))))))"

definition tcp_teardown :: "TcpServer \<Rightarrow> TcpServer" where
  "tcp_teardown s =
     (let s = (if tcp_epfd s \<noteq> - 1 then (close_fd (tcp_epfd s) s)\<lparr>tcp_epfd := - 1\<rparr> else s);
          s = (if listen_fd s \<noteq> - 1 then (close_fd (listen_fd s) s)\<lparr>listen_fd := - 1\<rparr> else s)
      in (if tcp_wake_fd s \<noteq> - 1 then (close_fd (tcp_wake_fd s) s)\<lparr>tcp_wake_fd := - 1\<rparr> else s))"

definition tcp_run ::
  "(string \<Rightarrow> u32 option) \<Rightarrow> u16 \<Rightarrow> bool list \<Rightarrow> TcpServer \<Rightarrow> TcpServer option" where
  "tcp_run inet_pton port stops s =
     (case tcp_setup inet_pton port s of
        None \<Rightarrow> None
      | Some (entered, s) \<Rightarrow>
          if \<not> entered then Some s
          else (case tcp_serve stops (evs (tcp_world s)) s of
              None \<Rightarrow> None
            | Some (s, ws) \<Rightarrow> Some (tcp_teardown (s\<lparr>tcp_world := (tcp_world s)\<lparr>evs := ws\<rparr>\<rparr>))))"

text \<open>
  Starting and stopping the thread, as in the UDP server: assigning to a joinable thread
  object terminates the program (\<^const>\<open>None\<close>).
\<close>

definition tcp_start :: "TcpServer \<Rightarrow> (bool \<times> TcpServer) option" where
  "tcp_start s =
     (if tcp_running s then Some (False, s)
      else if tcp_joinable s then None
      else Some (True, s\<lparr>tcp_running := True, tcp_joinable := True\<rparr>))"

definition tcp_stop :: "TcpServer \<Rightarrow> TcpServer" where
  "tcp_stop s =
     (if \<not> tcp_running s then s
      else (let s = s\<lparr>tcp_running := False\<rparr> in if tcp_joinable s then s\<lparr>tcp_joinable := False\<rparr> else s))"

section \<open>Specification: blocks of a stream\<close>

fun blocks :: "bytes \<Rightarrow> bytes list \<times> bytes" where
  "blocks xs = (if length xs < kWireSize \<or> kWireSize = 0 then ([], xs)
     else let (bs, r) = blocks (drop kWireSize xs) in (take kWireSize xs # bs, r))"

declare blocks.simps [simp del]

lemma blocks_short: "length xs < kWireSize \<Longrightarrow> blocks xs = ([], xs)"
  by (simp add: blocks.simps)

lemma blocks_long: "length b = kWireSize \<Longrightarrow> blocks (b @ xs) = (b # fst (blocks xs), snd (blocks xs))"
  by (subst blocks.simps) (simp add: kWireSize_def case_prod_unfold Let_def)

lemma blocks_append: "blocks (xs @ ys) = (fst (blocks xs) @ fst (blocks (snd (blocks xs) @ ys)), snd (blocks (snd (blocks xs) @ ys)))"
proof (induction xs rule: blocks.induct)
  case (1 xs)
  show ?case
  proof (cases "length xs < kWireSize")
    case True
    then show ?thesis by (simp add: blocks_short)
  next
    case False
    let ?b = "take kWireSize xs" and ?r = "drop kWireSize xs"
    have b: "length ?b = kWireSize" using False by simp
    have xy: "xs @ ys = ?b @ ?r @ ys" by (simp flip: append_assoc)
    have one: "blocks (xs @ ys) = (?b # fst (blocks (?r @ ys)), snd (blocks (?r @ ys)))"
      by (subst xy) (rule blocks_long [OF b])
    have two: "blocks xs = (?b # fst (blocks ?r), snd (blocks ?r))"
      using blocks_long [OF b, of ?r] by (simp only: append_take_drop_id)
    have "blocks (?r @ ys) = (fst (blocks ?r) @ fst (blocks (snd (blocks ?r) @ ys)), snd (blocks (snd (blocks ?r) @ ys)))"
      using 1 False by (simp add: kWireSize_def)
    then show ?thesis by (simp add: one two)
  qed
qed

definition pending :: "ConnState \<Rightarrow> bytes" where
  "pending st = take (have_bytes st) (conn_frame st)"

lemma length_pending: "conn_ok st \<Longrightarrow> length (pending st) = have_bytes st"
  by (simp add: conn_ok_def pending_def)

lemma consume_frames_part:
  assumes "conn_ok st" and "have_bytes st + length data < kWireSize"
  obtains st' where "consume_frames st data pm = Some (st', pm)" "conn_ok st'"
    "pending st' = pending st @ data" "conn_fd st' = conn_fd st"
proof (cases "data = []")
  case True
  with assms show thesis by (intro that [of st]) (simp_all add: consume_frames.simps)
next
  case False
  let ?st = "st\<lparr>conn_frame := pending st @ data @ drop (have_bytes st + length data) (conn_frame st),
    have_bytes := have_bytes st + length data\<rparr>"
  have less: "length data < kWireSize - have_bytes st" using assms(2) by simp
  have "consume_frames st data pm = consume_frames ?st [] pm"
    using False assms less by (subst consume_frames.simps) (simp add: Let_def pending_def)
  then have "consume_frames st data pm = Some (?st, pm)"
    by (simp add: consume_frames.simps)
  moreover have "conn_ok ?st" "pending ?st = pending st @ data"
    using assms length_pending [OF assms(1)] by (auto simp: conn_ok_def pending_def)
  ultimately show thesis by (intro that [of ?st]) simp_all
qed

lemma consume_frames_full:
  assumes "conn_ok st" and "length (pending st @ b) = kWireSize"
  shows "consume_frames st (b @ data) pm =
    consume_frames (st\<lparr>conn_frame := pending st @ b, have_bytes := 0\<rparr>) data (publish_frame (pending st @ b) pm)"
proof -
  have n: "length b = kWireSize - have_bytes st" "have_bytes st < kWireSize" "length (conn_frame st) = kWireSize"
    using assms length_pending [OF assms(1)] by (auto simp: conn_ok_def)
  then have "b \<noteq> []" by auto
  moreover have "\<not> length (b @ data) < kWireSize - have_bytes st" using n by simp
  moreover have "take (kWireSize - have_bytes st) (b @ data) = b" "drop (kWireSize - have_bytes st) (b @ data) = data"
    using n by simp_all
  moreover have "take kWireSize (pending st @ b) = pending st @ b" using assms(2) by simp
  ultimately show ?thesis
    using n by (subst consume_frames.simps) (simp add: Let_def pending_def)
qed

lemma consume_frames_spec:
  assumes "conn_ok st"
  shows "\<exists>st'. consume_frames st data pm =
      Some (st', fold publish_frame (fst (blocks (pending st @ data))) pm) \<and>
    conn_ok st' \<and> pending st' = snd (blocks (pending st @ data)) \<and> conn_fd st' = conn_fd st"
  using assms
proof (induction "length data" arbitrary: st data pm rule: less_induct)
  case less
  have h: "length (pending st) = have_bytes st" "have_bytes st < kWireSize" "length (conn_frame st) = kWireSize"
    using less.prems length_pending by (auto simp: conn_ok_def)
  show ?case
  proof (cases "have_bytes st + length data < kWireSize")
    case True
    with less.prems obtain st' where "consume_frames st data pm = Some (st', pm)" "conn_ok st'"
      "pending st' = pending st @ data" "conn_fd st' = conn_fd st"
      by (rule consume_frames_part)
    with True h show ?thesis by (simp add: blocks_short)
  next
    case False
    define b r where "b = take (kWireSize - have_bytes st) data" and "r = drop (kWireSize - have_bytes st) data"
    have data: "data = b @ r" by (simp add: b_def r_def)
    have len: "length (pending st @ b) = kWireSize" and shorter: "length r < length data"
      using False h by (auto simp: b_def r_def)
    let ?st = "st\<lparr>conn_frame := pending st @ b, have_bytes := 0\<rparr>"
    have "conn_ok ?st" "pending ?st = []"
      using len by (auto simp: conn_ok_def pending_def kWireSize_def)
    with less.hyps [OF shorter, of ?st "publish_frame (pending st @ b) pm"]
    obtain st' where "consume_frames ?st r (publish_frame (pending st @ b) pm) =
        Some (st', fold publish_frame (fst (blocks r)) (publish_frame (pending st @ b) pm))"
      "conn_ok st'" "pending st' = snd (blocks r)" "conn_fd st' = conn_fd st"
      by auto
    moreover have "blocks (pending st @ data) = (((pending st @ b) # fst (blocks r)), snd (blocks r))"
      using blocks_long [OF len, of r] by (simp add: data)
    ultimately show ?thesis
      using consume_frames_full [OF less.prems len, of r pm] by (simp add: data)
  qed
qed

section \<open>From bytes to frames\<close>

text \<open>A frame is published as the UDP server publishes a datagram of 44 bytes.\<close>

definition as_datagram :: "bytes \<Rightarrow> rxmsg" where
  "as_datagram b = \<lparr>rx_data = b, rx_trunc = False, rx_peer = no_addr\<rparr>"

lemma as_datagram_data [simp]: "rx_data (as_datagram b) = b"
  by (simp add: as_datagram_def)

lemma publish_frame_datagram:
  "length b = kWireSize \<Longrightarrow> publish_frame b pm = on_datagram pm (as_datagram b)"
  by (auto simp: publish_frame_def on_datagram_def as_datagram_def Let_def split: prod.split option.split)

lemma well_formed_as_datagram: "well_formed (as_datagram b) \<longleftrightarrow> length b = kWireSize"
  by (simp add: well_formed_def as_datagram_def)

lemma blocks_length: "b \<in> set (fst (blocks xs)) \<Longrightarrow> length b = kWireSize"
proof (induction xs rule: blocks.induct)
  case (1 xs)
  then show ?case
    by (subst (asm) (2) blocks.simps) (auto simp: Let_def split: if_splits prod.splits)
qed

lemma fold_publish_spec:
  assumes "fp_owned p held" and "\<And>b. b \<in> set bs \<Longrightarrow> length b = kWireSize"
  shows "let (p', m') = fold publish_frame bs (p, m); acc = take (length (rb_list (free p))) bs in
    fp_owned p' held \<and> ready_frames p' = ready_frames p @ acc \<and>
    m' = inc_drops (of_nat (length bs - length acc)) m"
proof -
  have "fold publish_frame bs pm = foldl on_datagram pm (map as_datagram bs)" for pm
    using assms(2) by (induction bs arbitrary: pm) (simp_all add: publish_frame_datagram)
  moreover have "filter well_formed (map as_datagram bs) = map as_datagram bs"
    using assms(2) by (auto simp: filter_id_conv well_formed_as_datagram)
  moreover have "map rx_data (map as_datagram bs) = bs"
    by (simp add: map_idI)
  ultimately show ?thesis
    using batch_spec [OF assms(1), of m "map as_datagram bs"] by (simp only: length_map)
qed

section \<open>A connection\<close>

text \<open>A registered connection between two events.\<close>

definition registered :: "int \<Rightarrow> TcpServer \<Rightarrow> bool" where
  "registered fd s \<longleftrightarrow> 0 \<le> fd \<and> fd < MAX_FD \<and> conn_fd (conns s fd) = fd \<and> conn_ok (conns s fd)"

text \<open>What a run of the loop over the received bytes amounts to.\<close>

definition after_bytes :: "int \<Rightarrow> bytes \<Rightarrow> TcpServer \<Rightarrow> TcpServer \<Rightarrow> bool" where
  "after_bytes fd xs s s' \<longleftrightarrow>
     registered fd s' \<and>
     pending (conns s' fd) = snd (blocks (pending (conns s fd) @ xs)) \<and>
     tcp_pm s' = fold publish_frame (fst (blocks (pending (conns s fd) @ xs))) (tcp_pm s) \<and>
     (\<forall>g. g \<noteq> fd \<longrightarrow> conns s' g = conns s g) \<and>
     s' = s\<lparr>conns := conns s', tcp_pm := tcp_pm s'\<rparr>"

lemma after_bytes_refl: "registered fd s \<Longrightarrow> after_bytes fd [] s s"
  by (simp add: after_bytes_def blocks_short length_pending registered_def conn_ok_def)

lemma after_bytes_trans:
  "after_bytes fd xs s s' \<Longrightarrow> after_bytes fd ys s' s'' \<Longrightarrow> after_bytes fd (xs @ ys) s s''"
  unfolding after_bytes_def
  by (simp add: blocks_append [of "pending (conns s fd) @ xs" ys, unfolded append_assoc])
    (metis TcpServer.surjective TcpServer.update_convs(6) TcpServer.update_convs(7))

lemma on_bytes_spec:
  assumes "registered fd s"
  shows "\<exists>s'. on_bytes fd c s = Some s' \<and> after_bytes fd c s s'"
proof (cases "c = []")
  case True
  with assms show ?thesis by (auto simp: on_bytes_def after_bytes_refl)
next
  case False
  obtain st' where "consume_frames (conns s fd) c (tcp_pm s) =
      Some (st', fold publish_frame (fst (blocks (pending (conns s fd) @ c))) (tcp_pm s))"
    "conn_ok st'" "pending st' = snd (blocks (pending (conns s fd) @ c))" "conn_fd st' = fd"
    using assms consume_frames_spec [of "conns s fd" c "tcp_pm s"] by (auto simp: registered_def)
  with False assms show ?thesis
    by (auto simp: on_bytes_def registered_def after_bytes_def)
qed

lemma on_chunks_spec:
  "registered fd s \<Longrightarrow> \<exists>s'. on_chunks fd cs s = Some s' \<and> after_bytes fd (concat cs) s s'"
proof (induction cs arbitrary: s)
  case Nil
  then show ?case by (simp add: after_bytes_refl)
next
  case (Cons c cs)
  obtain s1 where s1: "on_bytes fd c s = Some s1" "after_bytes fd c s s1"
    using on_bytes_spec [OF Cons.prems] by blast
  then have "registered fd s1" by (simp add: after_bytes_def)
  then obtain s2 where "on_chunks fd cs s1 = Some s2" "after_bytes fd (concat cs) s1 s2"
    using Cons.IH by blast
  with s1 show ?case using after_bytes_trans by fastforce
qed

text \<open>
  The answers of the kernel before the one that ends the loop: interruptions, and batches of
  at least one message.
\<close>

fun keeps_on :: "rxret \<Rightarrow> bool" where
  "keeps_on (Rx ms) = (ms \<noteq> [])"
| "keeps_on (Rx_fail e) = (e = EINTR)"

fun rx_chunks :: "rxret \<Rightarrow> bytes list" where
  "rx_chunks (Rx ms) = map rx_data ms"
| "rx_chunks (Rx_fail e) = []"

definition stream_of :: "rxret list \<Rightarrow> bytes" where
  "stream_of as = concat (concat (map rx_chunks as))"

lemma stream_of_simps [simp]:
  "stream_of [] = []" "stream_of (a # as) = concat (rx_chunks a) @ stream_of as"
  by (simp_all add: stream_of_def)

lemma recv_loop_keeps:
  assumes "registered fd s" and "list_all keeps_on as"
  shows "\<exists>s'. recv_loop fd (as @ rest) s = recv_loop fd rest s' \<and> after_bytes fd (stream_of as) s s'"
  using assms
proof (induction as arbitrary: s)
  case Nil
  then show ?case by (auto simp: after_bytes_refl)
next
  case (Cons a as)
  show ?case
  proof (cases a)
    case (Rx_fail e)
    with Cons show ?thesis by auto
  next
    case (Rx ms)
    with Cons.prems obtain m ms' where ms: "ms = m # ms'" by (cases ms) auto
    obtain s1 where s1: "on_chunks fd (map rx_data ms) s = Some s1" "after_bytes fd (concat (map rx_data ms)) s s1"
      using on_chunks_spec [OF Cons.prems(1)] by blast
    then have "registered fd s1" by (simp add: after_bytes_def)
    then obtain s2 where s2: "recv_loop fd (as @ rest) s1 = recv_loop fd rest s2" "after_bytes fd (stream_of as) s1 s2"
      using Cons.IH Cons.prems(2) by auto
    have "recv_loop fd ((a # as) @ rest) s = recv_loop fd rest s2"
      using s1(1) s2(1) by (simp add: Rx ms)
    moreover have "after_bytes fd (stream_of (a # as)) s s2"
      using after_bytes_trans [OF s1(2) s2(2)] by (simp add: Rx)
    ultimately show ?thesis by blast
  qed
qed

lemma after_bytes_pool:
  assumes "after_bytes fd xs s s'" and "tcp_pm s = (p, m)" and "fp_owned p held"
  obtains p' m' where "tcp_pm s' = (p', m')" "fp_owned p' held"
    "let bs = fst (blocks (pending (conns s fd) @ xs)); acc = take (length (rb_list (free p))) bs in
       ready_frames p' = ready_frames p @ acc \<and> m' = inc_drops (of_nat (length bs - length acc)) m"
proof -
  let ?bs = "fst (blocks (pending (conns s fd) @ xs))"
  obtain p' m' where run: "fold publish_frame ?bs (p, m) = (p', m')" by fastforce
  with assms(1,2) have "tcp_pm s' = (p', m')" by (simp add: after_bytes_def)
  then show thesis
    using fold_publish_spec [OF assms(3), of ?bs m] blocks_length run
    by (intro that) (auto simp: Let_def)
qed

section \<open>Properties\<close>

text \<open>
  C9. Reassembly: for a registered connection, whatever the sizes in which the kernel hands
  out the bytes, in whichever batches and with whatever interruptions, the receive loop
  returns when the socket has no more data; the complete 44-byte blocks of the stream (the
  bytes held back before, then the new ones) are published in order to the free slots, the
  blocks beyond the free slots are counted as drops, the incomplete last block is held back,
  and no other connection is touched.
\<close>

theorem tcp_stream_reassembly:
  assumes "registered fd s" and "tcp_pm s = (p, m)" and "fp_owned p held" and "list_all keeps_on as"
    and "e = EAGAIN \<or> e = EWOULDBLOCK"
  shows "\<exists>s' p' m'. recv_loop fd (as @ Rx_fail e # rest) s = Some (s', rest) \<and>
    tcp_pm s' = (p', m') \<and> registered fd s' \<and> fp_owned p' held \<and>
    (let (bs, r) = blocks (pending (conns s fd) @ stream_of as); acc = take (length (rb_list (free p))) bs in
      ready_frames p' = ready_frames p @ acc \<and> m' = inc_drops (of_nat (length bs - length acc)) m \<and>
      pending (conns s' fd) = r) \<and>
    (\<forall>g. g \<noteq> fd \<longrightarrow> conns s' g = conns s g)"
proof -
  obtain s' where s': "recv_loop fd (as @ Rx_fail e # rest) s = recv_loop fd (Rx_fail e # rest) s'"
      "after_bytes fd (stream_of as) s s'"
    using recv_loop_keeps [OF assms(1,4)] by blast
  from s'(2) assms(2,3) obtain p' m' where pm: "tcp_pm s' = (p', m')" "fp_owned p' held"
    "let bs = fst (blocks (pending (conns s fd) @ stream_of as)); acc = take (length (rb_list (free p))) bs in
       ready_frames p' = ready_frames p @ acc \<and> m' = inc_drops (of_nat (length bs - length acc)) m"
    by (rule after_bytes_pool)
  have "recv_loop fd (as @ Rx_fail e # rest) s = Some (s', rest)"
    using s'(1) assms(5) by simp
  moreover have "registered fd s'" "\<forall>g. g \<noteq> fd \<longrightarrow> conns s' g = conns s g"
    "pending (conns s' fd) = snd (blocks (pending (conns s fd) @ stream_of as))"
    using s'(2) by (auto simp: after_bytes_def)
  ultimately show ?thesis
    using pm by (simp only: Let_def case_prod_unfold) blast
qed

definition demo_conn :: TcpServer where
  "demo_conn = (tcp_new (pool4, metrics_zero) (ok_world [] [] []))\<lparr>conns := (\<lambda>_. no_conn)(6 := no_conn\<lparr>conn_fd := 6\<rparr>)\<rparr>"

definition demo_part :: "nat \<Rightarrow> rxmsg" where
  "demo_part n = \<lparr>rx_data = replicate n 7, rx_trunc = False, rx_peer = no_addr\<rparr>"

lemma demo_conn_facts: "registered 6 demo_conn" "tcp_pm demo_conn = (pool4, metrics_zero)"
  by (simp_all add: demo_conn_def registered_def no_conn_def conn_ok_def tcp_new_def MAX_FD_def kWireSize_def)

theorem tcp_stream_reassembly_witness:
  "\<exists>s' p' m'. recv_loop 6 ([Rx [demo_part 20], Rx_fail EINTR, Rx [demo_part 4, demo_part 30]] @ [Rx_fail EAGAIN]) demo_conn =
      Some (s', []) \<and> tcp_pm s' = (p', m') \<and> registered 6 s' \<and> fp_owned p' [] \<and>
    (let (bs, r) = blocks (pending (conns demo_conn 6) @
        stream_of [Rx [demo_part 20], Rx_fail EINTR, Rx [demo_part 4, demo_part 30]]);
        acc = take (length (rb_list (free pool4))) bs in
      ready_frames p' = ready_frames pool4 @ acc \<and> m' = inc_drops (of_nat (length bs - length acc)) metrics_zero \<and>
      pending (conns s' 6) = r) \<and>
    (\<forall>g. g \<noteq> 6 \<longrightarrow> conns s' g = conns demo_conn g)"
  by (rule tcp_stream_reassembly [OF demo_conn_facts pool4_owned]) (simp_all add: demo_part_def)

lemma on_chunks_empty: "list_all (\<lambda>c. c = []) cs \<Longrightarrow> on_chunks fd cs s = Some s"
  by (induction cs) (simp_all add: on_bytes_def)

lemma recv_loop_empty:
  "ms \<noteq> [] \<Longrightarrow> list_all (\<lambda>m. rx_data m = []) ms \<Longrightarrow> recv_loop fd (Rx ms # rest) s = recv_loop fd rest s"
  by (cases ms) (simp_all add: on_bytes_def on_chunks_empty list.pred_map comp_def)

text \<open>
  Answers of messages of length zero do not end the receive loop: it goes on to the next answer
  with nothing changed. On a stream whose peer has closed, \<^verbatim>\<open>recvmmsg\<close> gives only such answers.
\<close>

lemma recv_loop_empties:
  assumes "list_all (\<lambda>ms. ms \<noteq> [] \<and> list_all (\<lambda>m. rx_data m = []) ms) batches"
  shows "recv_loop fd (map Rx batches @ rest) s = recv_loop fd rest s"
  using assms by (induction batches) (simp_all add: recv_loop_empty)

definition tcp_demo_world :: world where
  "tcp_demo_world = ok_world
     [Ret 3, Ret 0, Ret 0, Ret 0, Ret 4, Ret 5, Ret 0, Ret 0,   \<comment> \<open>setup\<close>
      Ret 6, Ret 0, Fail EAGAIN]                                \<comment> \<open>one client\<close>
     [] [Evs [\<lparr>ev_fd = 3, ev_err = False, ev_rdhup = False\<rparr>], Evs [\<lparr>ev_fd = 5, ev_err = False, ev_rdhup = False\<rparr>]]"

text \<open>
  Stopping the server with a client connected: the loop returns with its three
  descriptors closed, but the client's socket stays open.
\<close>

lemma tcp_clients_left_open:
  "\<exists>s s'. tcp_start (tcp_new (pool4, metrics_zero) tcp_demo_world) = Some (True, s) \<and>
     tcp_run (\<lambda>_. Some 0x7F000001) 9000 [False, False, False] s = Some s' \<and>
     \<not> tcp_running s' \<and> listen_fd s' = - 1 \<and> tcp_epfd s' = - 1 \<and> tcp_wake_fd s' = - 1 \<and>
     open_fds (tcp_world s') = {#6#} \<and> conn_fd (conns s' 6) = 6"
  by (simp add: tcp_new_def tcp_start_def tcp_run_def tcp_setup_def make_listen_socket_def call_def sys_def tcp_demo_world_def
      ok_world_def accept_loop.simps init_conn_def MAX_FD_def tcp_teardown_def close_fd_def sys_close_def open_fds_def Let_def)

section \<open>The server's invariant\<close>

text \<open>
  Between any two operations: every entry of the table holds less than a frame and belongs to
  its own descriptor or to none, and every slot of the pool is accounted for.
\<close>

definition tcp_ok :: "size_t list \<Rightarrow> TcpServer \<Rightarrow> bool" where
  "tcp_ok held s \<longleftrightarrow> (\<forall>fd. conn_ok (conns s fd) \<and> conn_fd (conns s fd) \<in> {- 1, fd}) \<and> fp_owned (fst (tcp_pm s)) held"

lemma tcp_ok_cong: "conns s' = conns s \<Longrightarrow> tcp_pm s' = tcp_pm s \<Longrightarrow> tcp_ok held s' = tcp_ok held s"
  by (simp add: tcp_ok_def)

lemma tcp_ok_upd [simp]:
  "tcp_ok held (s\<lparr>tcp_world := w\<rparr>) = tcp_ok held s" "tcp_ok held (s\<lparr>tcp_running := b\<rparr>) = tcp_ok held s"
  "tcp_ok held (close_fd fd s) = tcp_ok held s"
  by (simp_all add: tcp_ok_def close_fd_def)

lemma reset_conn_ok: "tcp_ok held s \<Longrightarrow> tcp_ok held (reset_conn fd s)"
  by (auto simp: tcp_ok_def reset_conn_def conn_ok_def kWireSize_def)

lemma init_conn_ok: "tcp_ok held s \<Longrightarrow> init_conn fd s = Some s' \<Longrightarrow> tcp_ok held s'"
  by (auto simp: tcp_ok_def init_conn_def conn_ok_def kWireSize_def split: if_splits)

lemma on_bytes_ok:
  assumes "tcp_ok held s"
  shows "\<exists>s'. on_bytes fd c s = Some s' \<and> tcp_ok held s'"
proof (cases "0 \<le> fd \<and> fd < MAX_FD \<and> conn_fd (conns s fd) = fd")
  case False
  with assms show ?thesis by (auto simp: on_bytes_def)
next
  case True
  with assms have reg: "registered fd s" by (auto simp: registered_def tcp_ok_def)
  then obtain s' where s': "on_bytes fd c s = Some s'" "after_bytes fd c s s'"
    using on_bytes_spec by blast
  obtain p m where pm: "tcp_pm s = (p, m)" by fastforce
  with assms have "fp_owned p held" by (simp add: tcp_ok_def)
  with s'(2) pm obtain p' m' where "tcp_pm s' = (p', m')" "fp_owned p' held"
    using after_bytes_pool by metis
  moreover have "conn_ok (conns s' g) \<and> conn_fd (conns s' g) \<in> {- 1, g}" for g
    using s'(2) assms by (cases "g = fd") (auto simp: after_bytes_def registered_def tcp_ok_def)
  ultimately show ?thesis using s'(1) by (auto simp: tcp_ok_def)
qed

lemma on_chunks_ok: "tcp_ok held s \<Longrightarrow> \<exists>s'. on_chunks fd cs s = Some s' \<and> tcp_ok held s'"
proof (induction cs arbitrary: s)
  case (Cons c cs)
  obtain s1 where "on_bytes fd c s = Some s1" "tcp_ok held s1"
    using on_bytes_ok [OF Cons.prems] by blast
  with Cons.IH [of s1] show ?case by simp
qed simp

lemma recv_loop_ok:
  "tcp_ok held s \<Longrightarrow> (\<forall>s' rs'. recv_loop fd rs s = Some (s', rs') \<longrightarrow> tcp_ok held s') \<and>
     (list_ex (\<lambda>r. \<not> keeps_on r) rs \<longrightarrow> recv_loop fd rs s \<noteq> None)"
proof (induction fd rs s rule: recv_loop.induct)
  case (3 fd m ms rs s)
  obtain s1 where s1: "on_chunks fd (map rx_data (m # ms)) s = Some s1" "tcp_ok held s1"
    using on_chunks_ok [OF 3(2)] by blast
  with 3(1) [OF s1] show ?case by simp
qed (auto simp: reset_conn_ok)

text \<open>One round of the accept loop: it ends, or goes on with fewer answers to come.\<close>

lemma accept_loop_round:
  assumes "accept_loop s = Some s'" and "tcp_ok held s"
  obtains "tcp_ok held s'"
  | s1 where "accept_loop s1 = Some s'" "tcp_ok held s1" "length (script (tcp_world s1)) < length (script (tcp_world s))"
proof -
  obtain r w where sys: "sys (Sys_accept (listen_fd s)) (tcp_world s) = Some (r, w)"
    using assms(1) by (subst (asm) accept_loop.simps) (auto split: option.splits)
  then have w: "length (script w) < length (script (tcp_world s))" by (auto simp: sys_Some_iff)
  note eq = assms(1) [unfolded accept_loop.simps [of s] sys option.case prod.case]
  let ?s = "s\<lparr>tcp_world := w\<rparr>"
  have ok: "tcp_ok held ?s" using assms(2) by simp
  show thesis
  proof (cases r)
    case (Fail e)
    with eq ok w that show thesis by (auto simp: Let_def split: if_splits)
  next
    case (Ret n)
    show thesis
    proof (cases "init_conn (int n) ?s")
      case None
      with eq Ret have "accept_loop (close_fd (int n) ?s) = Some s'" by (simp add: Let_def)
      then show thesis using ok w by (intro that(2) [of "close_fd (int n) ?s"]) (simp_all add: close_fd_def sys_close_def)
    next
      case (Some s1)
      have ok1: "tcp_ok held s1" by (rule init_conn_ok [OF ok Some])
      have w1: "tcp_world s1 = w" using Some by (auto simp: init_conn_def split: if_splits)
      obtain r1 w1 where sys1: "sys (Sys_epoll_add (tcp_epfd s1) (int n)) (tcp_world s1) = Some (r1, w1)"
        using eq Ret Some by (auto simp: Let_def split: option.splits)
      then have "length (script w1) < length (script w)" using w1 by (auto simp: sys_Some_iff)
      with eq Ret Some sys1 ok1 w that reset_conn_ok [of held "close_fd (int n) (s1\<lparr>tcp_world := w1\<rparr>)" "int n"]
      show thesis
        by (cases r1) (auto simp: Let_def reset_conn_def close_fd_def sys_close_def split: if_splits)
    qed
  qed
qed

lemma accept_loop_ok: "accept_loop s = Some s' \<Longrightarrow> tcp_ok held s \<Longrightarrow> tcp_ok held s'"
proof (induction "length (script (tcp_world s))" arbitrary: s rule: less_induct)
  case less
  from less.prems show ?case
    by (rule accept_loop_round) (auto intro: less.hyps)
qed

lemma tcp_events_ok: "tcp_events es s = Some s' \<Longrightarrow> tcp_ok held s \<Longrightarrow> tcp_ok held s'"
proof (induction es s rule: tcp_events.induct)
  case (2 ev es s)
  consider "ev_fd ev = tcp_wake_fd s" | "ev_fd ev \<noteq> tcp_wake_fd s" "ev_fd ev = listen_fd s"
    | "ev_fd ev \<noteq> tcp_wake_fd s" "ev_fd ev \<noteq> listen_fd s" "ev_err ev \<or> ev_rdhup ev"
    | "ev_fd ev \<noteq> tcp_wake_fd s" "ev_fd ev \<noteq> listen_fd s" "\<not> (ev_err ev \<or> ev_rdhup ev)" by blast
  then show ?case
  proof cases
    case 1
    with 2(1) [OF refl 1] 2(5,6) show ?thesis by simp
  next
    case c: 2
    with 2(5) obtain s1 where "accept_loop s = Some s1" "tcp_events es s1 = Some s'"
      by (auto simp: Let_def split: option.splits)
    with 2(2) [OF refl c] accept_loop_ok 2(6) show ?thesis by blast
  next
    case c: 3
    with 2(5) have "tcp_events es (reset_conn (ev_fd ev) (close_fd (ev_fd ev) s)) = Some s'" by (simp add: Let_def)
    with 2(3) [OF refl c] 2(6) show ?thesis by (simp add: reset_conn_ok)
  next
    case c: 4
    with 2(5) obtain s1 rx where r: "recv_loop (ev_fd ev) (rxs (tcp_world s)) s = Some (s1, rx)"
      "tcp_events es (s1\<lparr>tcp_world := (tcp_world s1)\<lparr>rxs := rx\<rparr>\<rparr>) = Some s'"
      by (auto simp: Let_def split: option.splits)
    with 2(4) [OF refl c r(1) refl] recv_loop_ok [OF 2(6), of "ev_fd ev" "rxs (tcp_world s)"] show ?thesis by simp
  qed
qed simp

lemma tcp_serve_ok: "tcp_serve stops ws s = Some (s', ws') \<Longrightarrow> tcp_ok held s \<Longrightarrow> tcp_ok held s'"
proof (induction stops ws s rule: tcp_serve.induct)
  case (2 stop stops ws s)
  let ?s = "if stop then s\<lparr>tcp_running := False\<rparr> else s"
  have ok: "tcp_ok held ?s" using 2(4) by simp
  show ?case
  proof (cases "tcp_running ?s")
    case False
    with 2(3) ok show ?thesis by (auto simp: Let_def split: if_splits)
  next
    case run: True
    then obtain x ws1 where ws: "ws = x # ws1" using 2(3) by (cases ws) (auto simp: Let_def)
    show ?thesis
    proof (cases x)
      case (Ev_fail e)
      show ?thesis
      proof (cases "e = EINTR")
        case True
        with 2(3) run ws Ev_fail have "tcp_serve stops ws1 ?s = Some (s', ws')" by (auto simp: Let_def)
        with 2(2) [OF refl _ ws Ev_fail True] run ok show ?thesis by auto
      next
        case False
        with 2(3) run ws Ev_fail have "s' = ?s" by (auto simp: Let_def split: if_splits)
        with ok show ?thesis by simp
      qed
    next
      case (Evs es)
      then obtain s1 where s1: "tcp_events es ?s = Some s1" "tcp_serve stops ws1 s1 = Some (s', ws')"
        using 2(3) run ws by (auto simp: Let_def split: option.splits)
      with 2(1) [OF refl _ ws Evs s1(1)] run ok tcp_events_ok show ?thesis by blast
    qed
  qed
qed simp

lemma tcp_setup_keeps:
  assumes "tcp_setup inet_pton port s = Some (b, s')"
  shows "conns s' = conns s \<and> tcp_pm s' = tcp_pm s"
  using assms
  by (auto simp: tcp_setup_def call_def Let_def split: option.splits if_splits prod.splits sysret.splits)

lemma tcp_teardown_ok: "tcp_ok held (tcp_teardown s) = tcp_ok held s"
  by (rule tcp_ok_cong) (simp_all add: tcp_teardown_def close_fd_def Let_def)

text \<open>
  C18. The TCP server's state stays well formed: whatever the kernel answers, however clients
  connect, send and leave, a run that returns leaves a table in which every entry holds
  less than one frame and belongs to its own descriptor or none, and a pool with every slot
  accounted for; so the reassembly never computes a negative length. In such a state
  the receive loop of any descriptor returns as soon as the kernel answers with no messages
  or with an error other than an interruption.
\<close>

theorem tcp_server_invariant:
  assumes "tcp_ok held s"
  shows "(\<forall>s'. tcp_run inet_pton port stops s = Some s' \<longrightarrow> tcp_ok held s') \<and>
    (list_ex (\<lambda>r. \<not> keeps_on r) rs \<longrightarrow> recv_loop fd rs s \<noteq> None)"
proof -
  have "tcp_ok held s'" if run: "tcp_run inet_pton port stops s = Some s'" for s'
  proof -
    obtain b s1 where s1: "tcp_setup inet_pton port s = Some (b, s1)"
      using run by (auto simp: tcp_run_def split: option.splits)
    have ok: "tcp_ok held s1"
      using tcp_setup_keeps [OF s1] assms tcp_ok_cong [of s1 s] by simp
    show ?thesis
    proof (cases b)
      case False
      with run s1 ok show ?thesis by (simp add: tcp_run_def)
    next
      case True
      with run s1 obtain s2 ws where "tcp_serve stops (evs (tcp_world s1)) s1 = Some (s2, ws)"
        "s' = tcp_teardown (s2\<lparr>tcp_world := (tcp_world s2)\<lparr>evs := ws\<rparr>\<rparr>)"
        by (auto simp: tcp_run_def split: option.splits)
      with tcp_serve_ok ok show ?thesis by (auto simp: tcp_teardown_ok)
    qed
  qed
  with recv_loop_ok [OF assms] show ?thesis by simp
qed

theorem tcp_server_invariant_witness:
  "\<exists>s s'. tcp_start (tcp_new (pool4, metrics_zero) tcp_demo_world) = Some (True, s) \<and>
     tcp_run (\<lambda>_. Some 0x7F000001) 9000 [False, False, False] s = Some s' \<and> tcp_ok [] s' \<and>
     recv_loop 6 [Rx_fail EINTR, Rx_fail EAGAIN] s' \<noteq> None"
proof -
  obtain s s' where st: "tcp_start (tcp_new (pool4, metrics_zero) tcp_demo_world) = Some (True, s)"
    and run: "tcp_run (\<lambda>_. Some 0x7F000001) 9000 [False, False, False] s = Some s'"
    using tcp_clients_left_open by blast
  have "tcp_ok [] s"
    using st pool4_owned by (auto simp: tcp_start_def tcp_ok_def tcp_new_def no_conn_def conn_ok_def kWireSize_def)
  with run have "tcp_ok [] s'" using tcp_server_invariant by blast
  with tcp_server_invariant [of "[]" s' _ _ _ "[Rx_fail EINTR, Rx_fail EAGAIN]" 6] st run show ?thesis by auto
qed

end
