(* ===== verification/Tcp_Block.thy ===== *)
theory Tcp_Block
  imports Protocol Posix "HOL-Library.Signed_Division" "HOL-Library.Monad_Syntax"
begin

text \<open>
  The blocking TCP code, \<^verbatim>\<open>src/src/common/net/v1/tcp_client_block.hpp\<close> and
  \<^verbatim>\<open>src/src/common/net/v1/tcp_server_block.hpp\<close>: sending a buffer completely, receiving
  messages of a fixed size, and the server that handles one client after the other.
  \<^verbatim>\<open>die\<close> ends the process: its outcome is a value of its own.
\<close>

section \<open>The client\<close>

datatype died = Died string

definition connect_to_server ::
  "(string \<Rightarrow> u32 option) \<Rightarrow> string \<Rightarrow> u16 \<Rightarrow> world \<Rightarrow> ((died + int) \<times> world) option" where
  "connect_to_server inet_pton addr_in port w =
     call (Sys_socket_stream False) w (\<lambda>w. (Inl (Died ''socket''), w)) (\<lambda>n w.
     let fd = int n; die = (\<lambda>msg w. (Inl (Died msg), sys_close fd w)) in
     case inet_pton addr_in of
       None \<Rightarrow> Some (die ''setup server address'' w)
     | Some a \<Rightarrow>
         call (Sys_connect fd \<lparr>sin_inet = True, sin_port = port, sin_addr = a\<rparr>) w (die ''connect'') (\<lambda>_ w.
         Some (Inr fd, w)))"

text \<open>The loop of \<^verbatim>\<open>send_all\<close>; \<open>tot\<close> bytes have been accepted.\<close>

function send_all_loop :: "int \<Rightarrow> bytes \<Rightarrow> nat \<Rightarrow> world \<Rightarrow> (bool \<times> world) option" where
  "send_all_loop fd data tot w =
     (if tot < length data then
        case sys (Sys_send fd (drop tot data)) w of
          None \<Rightarrow> None
        | Some (Ret n, w) \<Rightarrow> if 0 < n then send_all_loop fd data (tot + n) w else Some (False, w)
        | Some (Fail e, w) \<Rightarrow> if e = EINTR then send_all_loop fd data tot w else Some (False, w)
      else Some (True, w))"
  by pat_completeness auto
termination
  by (relation "measure (\<lambda>(fd, data, tot, w). length (script w))") (auto simp: sys_Some_iff)

declare send_all_loop.simps [simp del]

definition send_all :: "int \<Rightarrow> bytes option \<Rightarrow> nat \<Rightarrow> world \<Rightarrow> (bool \<times> world) option" where
  "send_all fd data len w =
     (if data = None \<or> len = 0 then Some (True, w)
      else if length (the data) < len then None
      else send_all_loop fd (take len (the data)) 0 w)"

section \<open>The server\<close>

definition block_listen_socket :: "u16 \<Rightarrow> world \<Rightarrow> ((died + int) \<times> world) option" where
  "block_listen_socket port w =
     call (Sys_socket_stream False) w (\<lambda>w. (Inl (Died ''socket''), w)) (\<lambda>n w.
     let fd = int n; die = (\<lambda>msg w. (Inl (Died msg), w)) in
     call (Sys_setsockopt fd SO_REUSEADDR 1) w (die ''setsockopt'') (\<lambda>_ w.
     call (Sys_bind fd \<lparr>sin_inet = True, sin_port = port, sin_addr = INADDR_ANY\<rparr>) w (die ''bind'') (\<lambda>_ w.
     call (Sys_listen fd) w (die ''listen'') (\<lambda>_ w.
     Some (Inr fd, w)))))"

text \<open>\<^verbatim>\<open>accept_one\<close>: every path leaves the loop in its first round.\<close>

definition accept_one :: "int \<Rightarrow> world \<Rightarrow> ((died + int) \<times> world) option" where
  "accept_one listen_fd w =
     (case sys (Sys_accept listen_fd) w of
        None \<Rightarrow> None
      | Some (Ret n, w) \<Rightarrow> Some (Inr (int n), w)
      | Some (Fail e, w) \<Rightarrow>
          if e = EINTR \<or> e = EBADF \<or> e = EINVAL then Some (Inr (- 1), w)
          else Some (Inl (Died ''accept''), w))"

text \<open>Seconds and microseconds of a timeout in milliseconds; the divisions truncate towards zero.\<close>

definition timeout_timeval :: "int \<Rightarrow> int \<times> int" where
  "timeout_timeval ms = (ms sdiv 1000, (ms smod 1000) * 1000)"

definition set_recv_timeout :: "int \<Rightarrow> int \<Rightarrow> world \<Rightarrow> (bool \<times> world) option" where
  "set_recv_timeout fd timeout w =
     (let (tv_sec, tv_usec) = timeout_timeval timeout in
      call (Sys_rcvtimeo fd tv_sec tv_usec) w (\<lambda>w. (False, w)) (\<lambda>_ w. Some (True, w)))"

text \<open>
  The answers of \<^verbatim>\<open>recv\<close>: some bytes (none at the end of the stream), or an error. An answer
  longer than the request is not possible for the kernel: \<^const>\<open>None\<close>.
\<close>

datatype recvret = Got bytes | Recv_fail errno

text \<open>\<open>acc\<close> is the part of the buffer that is filled, so its length is \<^verbatim>\<open>total\<close>.\<close>

fun recv_exact :: "nat \<Rightarrow> bytes \<Rightarrow> recvret list \<Rightarrow> (int \<times> bytes \<times> recvret list) option" where
  "recv_exact len acc rs =
     (if length acc < len then
        case rs of
          [] \<Rightarrow> None
        | Got bs # rs \<Rightarrow>
            if bs = [] then Some (0, acc, rs)
            else if len - length acc < length bs then None
            else recv_exact len (acc @ bs) rs
        | Recv_fail e # rs \<Rightarrow> if e = EINTR then recv_exact len acc rs else Some (- 1, acc, rs)
      else Some (int (length acc), acc, rs))"

text \<open>The same with a stop test before each \<^verbatim>\<open>recv\<close>; \<open>stops\<close> are its answers.\<close>

fun recv_exact_until ::
  "nat \<Rightarrow> bytes \<Rightarrow> bool list \<Rightarrow> recvret list \<Rightarrow> (int \<times> bytes \<times> bool list \<times> recvret list) option" where
  "recv_exact_until len acc stops rs =
     (if length acc < len then
        case stops of
          [] \<Rightarrow> None
        | stop # stops \<Rightarrow>
            if stop then Some (- 2, acc, stops, rs)
            else case rs of
              [] \<Rightarrow> None
            | Got bs # rs \<Rightarrow>
                if bs = [] then Some (0, acc, stops, rs)
                else if len - length acc < length bs then None
                else recv_exact_until len (acc @ bs) stops rs
            | Recv_fail e # rs \<Rightarrow>
                if e = EINTR then recv_exact_until len acc stops rs
                else if e = EAGAIN \<or> e = EWOULDBLOCK then recv_exact_until len acc stops rs
                else Some (- 1, acc, stops, rs)
      else Some (int (length acc), acc, stops, rs))"

declare recv_exact.simps [simp del] recv_exact_until.simps [simp del]

lemma recv_exact_shorter: "recv_exact len acc rs = Some (n, b, rs') \<Longrightarrow> length rs' \<le> length rs \<and> (length acc < len \<longrightarrow> length rs' < length rs)"
proof (induction len acc rs rule: recv_exact.induct)
  case (1 len acc rs)
  then show ?case
    by (subst (asm) (3) recv_exact.simps) (fastforce split: if_splits list.splits recvret.splits)
qed

lemma recv_exact_until_shorter:
  "recv_exact_until len acc stops rs = Some (n, b, stops', rs') \<Longrightarrow>
     length stops' \<le> length stops \<and> (length acc < len \<longrightarrow> length stops' < length stops)"
proof (induction len acc stops rs rule: recv_exact_until.induct)
  case (1 len acc stops rs)
  then show ?case
    by (subst (asm) (4) recv_exact_until.simps) (fastforce split: if_splits list.splits recvret.splits)
qed

text \<open>
  The two \<^verbatim>\<open>handle_client\<close>: \<open>f\<close> is the callback \<^verbatim>\<open>on_message\<close>, acting on the caller's state. The
  buffer has 4096 bytes. A positive count is always a whole message.
\<close>

function client_loop ::
  "nat \<Rightarrow> (bytes \<Rightarrow> 's \<Rightarrow> 's) \<Rightarrow> recvret list \<Rightarrow> 's \<Rightarrow> (bool \<times> 's \<times> recvret list) option" where
  "client_loop msg_len f rs s =
     (case recv_exact msg_len [] rs of
        None \<Rightarrow> None
      | Some (n, buff, rs) \<Rightarrow>
          let s = (if 0 < n then f (take (nat n) buff) s else s) in
          if n = 0 then Some (True, s, rs)
          else if n < 0 then Some (False, s, rs)
          else client_loop msg_len f rs s)"
  by pat_completeness auto
termination
proof (relation "measure (\<lambda>(msg_len, f, rs, s). length rs)", goal_cases)
  case (2 msg_len f rs s x n y buff rs' s')
  then have n: "recv_exact msg_len [] rs = Some (n, buff, rs')" "0 < n" by auto
  then have "0 < msg_len" by (cases "msg_len = 0") (simp_all add: recv_exact.simps)
  with recv_exact_shorter [OF n(1)] show ?case by simp
qed simp

definition handle_client ::
  "nat \<Rightarrow> (bytes \<Rightarrow> 's \<Rightarrow> 's) \<Rightarrow> recvret list \<Rightarrow> 's \<Rightarrow> (bool \<times> 's \<times> recvret list) option" where
  "handle_client msg_len f rs s =
     (if msg_len = 0 \<or> 4096 < msg_len then Some (False, s, rs) else client_loop msg_len f rs s)"

function client_loop_until ::
  "nat \<Rightarrow> (bytes \<Rightarrow> 's \<Rightarrow> 's) \<Rightarrow> bool list \<Rightarrow> recvret list \<Rightarrow> 's \<Rightarrow> (bool \<times> 's \<times> bool list \<times> recvret list) option" where
  "client_loop_until msg_len f stops rs s =
     (case recv_exact_until msg_len [] stops rs of
        None \<Rightarrow> None
      | Some (n, buff, stops, rs) \<Rightarrow>
          let s = (if 0 < n then f (take (nat n) buff) s else s) in
          if n = 0 then Some (True, s, stops, rs)
          else if n = - 2 then Some (False, s, stops, rs)
          else if n < 0 then Some (False, s, stops, rs)
          else client_loop_until msg_len f stops rs s)"
  by pat_completeness auto
termination
proof (relation "measure (\<lambda>(msg_len, f, stops, rs, s). length stops)", goal_cases)
  case (2 msg_len f stops rs s x n y buff z stops' rs' s')
  then have n: "recv_exact_until msg_len [] stops rs = Some (n, buff, stops', rs')" "0 < n" by auto
  then have "0 < msg_len" by (cases "msg_len = 0") (simp_all add: recv_exact_until.simps)
  with recv_exact_until_shorter [OF n(1)] show ?case by simp
qed simp

definition handle_client_until ::
  "nat \<Rightarrow> (bytes \<Rightarrow> 's \<Rightarrow> 's) \<Rightarrow> bool list \<Rightarrow> recvret list \<Rightarrow> 's \<Rightarrow> (bool \<times> 's \<times> bool list \<times> recvret list) option" where
  "handle_client_until msg_len f stops rs s =
     (if msg_len = 0 \<or> 4096 < msg_len then Some (False, s, stops, rs) else client_loop_until msg_len f stops rs s)"

declare client_loop.simps [simp del] client_loop_until.simps [simp del]

text \<open>
  \<^verbatim>\<open>setup_server\<close> never returns. \<open>sessions\<close> are the answers of \<^verbatim>\<open>recv\<close> during the clients handled
  so far; the result is how things stand after them: the process has died, or it serves on.
\<close>

fun serve_clients ::
  "int \<Rightarrow> nat \<Rightarrow> (bytes \<Rightarrow> 's \<Rightarrow> 's) \<Rightarrow> recvret list list \<Rightarrow> 's \<Rightarrow> world \<Rightarrow> (died option \<times> 's \<times> world) option" where
  "serve_clients listen_fd msg_len f [] s w = Some (None, s, w)"
| "serve_clients listen_fd msg_len f (rs # sessions) s w =
     (case accept_one listen_fd w of
        None \<Rightarrow> None
      | Some (Inl d, w) \<Rightarrow> Some (Some d, s, w)
      | Some (Inr cfd, w) \<Rightarrow>
          (case handle_client msg_len f rs s of
             None \<Rightarrow> None
           | Some (_, s, _) \<Rightarrow> serve_clients listen_fd msg_len f sessions s (sys_close cfd w)))"

definition setup_server ::
  "u16 \<Rightarrow> nat \<Rightarrow> (bytes \<Rightarrow> 's \<Rightarrow> 's) \<Rightarrow> recvret list list \<Rightarrow> 's \<Rightarrow> world \<Rightarrow> (died option \<times> 's \<times> world) option" where
  "setup_server port msg_len f sessions s w =
     (case block_listen_socket port w of
        None \<Rightarrow> None
      | Some (Inl d, w) \<Rightarrow> Some (Some d, s, w)
      | Some (Inr fd, w) \<Rightarrow> serve_clients fd msg_len f sessions s w)"

section \<open>Sending\<close>

text \<open>The bytes a stream socket has accepted, in order.\<close>

fun stream_part :: "int \<Rightarrow> syscall \<times> sysret \<Rightarrow> bytes" where
  "stream_part fd (Sys_send fd' bs, Ret n) = (if fd' = fd then take n bs else [])"
| "stream_part fd _ = []"

definition stream_to :: "int \<Rightarrow> world \<Rightarrow> bytes" where
  "stream_to fd w = concat (map (stream_part fd) (trace w))"

lemma stream_to_sys: "sys c w = Some (r, w') \<Longrightarrow> stream_to fd w' = stream_to fd w @ stream_part fd (c, r)"
  by (auto simp: sys_def stream_to_def split: list.splits)

lemma stream_part_fail [simp]: "stream_part fd (c, Fail e) = []"
  by (cases c) auto

definition progress_answers :: "world \<Rightarrow> sysret list" where
  "progress_answers w = filter (\<lambda>r. r \<noteq> Fail EINTR) (script w)"

lemma take_drop_add: "take n (drop k xs) @ take m (drop (k + n) xs) = take (n + m) (drop k xs)"
  by (simp add: take_add add.commute [of k])

lemma send_all_loop_spec:
  "send_all_loop fd data k w = Some (ok, w') \<Longrightarrow>
     \<exists>n. stream_to fd w' = stream_to fd w @ take n (drop k data) \<and> (ok \<longleftrightarrow> length data \<le> k + n)"
proof (induction fd data k w rule: send_all_loop.induct)
  case (1 fd data k w)
  show ?case
  proof (cases "k < length data")
    case False
    with 1(3) show ?thesis by (intro exI [of _ 0]) (simp add: send_all_loop.simps)
  next
    case True
    then obtain r w1 where r: "sys (Sys_send fd (drop k data)) w = Some (r, w1)"
      using 1(3) by (auto simp: send_all_loop.simps [of fd data k w] split: option.splits)
    note st = stream_to_sys [OF r, of fd]
    show ?thesis
    proof (cases r)
      case (Fail e)
      show ?thesis
      proof (cases "e = EINTR")
        case True
        with 1(3) r Fail \<open>k < length data\<close> have "send_all_loop fd data k w1 = Some (ok, w')"
          by (simp add: send_all_loop.simps [of fd data k w])
        from 1(2) [OF \<open>k < length data\<close> r refl Fail True this] st Fail show ?thesis by simp
      next
        case False
        with 1(3) r Fail \<open>k < length data\<close> have "\<not> ok" "w' = w1"
          by (simp_all add: send_all_loop.simps [of fd data k w])
        with st Fail \<open>k < length data\<close> show ?thesis by (intro exI [of _ 0]) simp
      qed
    next
      case (Ret n)
      show ?thesis
      proof (cases "0 < n")
        case True
        with 1(3) r Ret \<open>k < length data\<close> have "send_all_loop fd data (k + n) w1 = Some (ok, w')"
          by (simp add: send_all_loop.simps [of fd data k w])
        from 1(1) [OF \<open>k < length data\<close> r refl Ret True this] obtain m where
          "stream_to fd w' = stream_to fd w1 @ take m (drop (k + n) data)" "ok \<longleftrightarrow> length data \<le> k + n + m"
          by blast
        with st Ret show ?thesis
          by (intro exI [of _ "n + m"]) (simp add: take_drop_add add.assoc)
      next
        case False
        with 1(3) r Ret \<open>k < length data\<close> have "\<not> ok" "w' = w1"
          by (simp_all add: send_all_loop.simps [of fd data k w])
        with st Ret False \<open>k < length data\<close> show ?thesis by (intro exI [of _ 0]) simp
      qed
    qed
  qed
qed

lemma send_all_loop_returns:
  "length data - k \<le> length (progress_answers w) \<Longrightarrow> send_all_loop fd data k w \<noteq> None"
proof (induction fd data k w rule: send_all_loop.induct)
  case (1 fd data k w)
  show ?case
  proof (cases "k < length data")
    case False
    then show ?thesis by (simp add: send_all_loop.simps)
  next
    case True
    then obtain r rs where s: "script w = r # rs"
      using 1(3) by (cases "script w") (auto simp: progress_answers_def)
    let ?w = "w\<lparr>script := rs, trace := trace w @ [(Sys_send fd (drop k data), r)]\<rparr>"
    have sys: "sys (Sys_send fd (drop k data)) w = Some (r, ?w)"
      by (simp add: sys_def s)
    have left: "length (progress_answers w) = length (progress_answers ?w) + (if r = Fail EINTR then 0 else 1)"
      by (simp add: progress_answers_def s)
    show ?thesis
    proof (cases r)
      case (Ret n)
      with 1(1) [OF True sys refl Ret] 1(3) left sys True show ?thesis
        by (cases "n = 0") (auto simp: send_all_loop.simps [of fd data k w])
    next
      case (Fail e)
      with 1(2) [OF True sys refl Fail] 1(3) left sys True show ?thesis
        by (cases "e = EINTR") (auto simp: send_all_loop.simps [of fd data k w])
    qed
  qed
qed

text \<open>
  C31. \<^verbatim>\<open>send_all\<close> on a buffer of \<open>len\<close> bytes: it returns as soon as the kernel has given as many
  answers other than interruptions as there are bytes, or earlier; what the stream has
  accepted of the buffer is a prefix of it, in order and without repetition, and it is the
  whole buffer exactly when the result is true.
\<close>

theorem send_all_complete:
  assumes "length data = len"
  shows "(len \<le> length (progress_answers w) \<longrightarrow> send_all fd (Some data) len w \<noteq> None) \<and>
    (\<forall>ok w'. send_all fd (Some data) len w = Some (ok, w') \<longrightarrow>
      (\<exists>n. stream_to fd w' = stream_to fd w @ take n data \<and> (ok \<longleftrightarrow> take n data = data)))"
proof (cases "len = 0")
  case True
  with assms show ?thesis by (simp add: send_all_def)
next
  case False
  then have eq: "send_all fd (Some data) len w = send_all_loop fd data 0 w"
    using assms by (simp add: send_all_def)
  have "\<exists>n. stream_to fd w' = stream_to fd w @ take n data \<and> (ok \<longleftrightarrow> take n data = data)"
    if "send_all_loop fd data 0 w = Some (ok, w')" for ok w'
    using send_all_loop_spec [OF that] by auto
  then show ?thesis
    unfolding eq using send_all_loop_returns [of data 0 w fd] assms by simp
qed

theorem send_all_complete_witness:
  "\<exists>w'. send_all 4 (Some [1, 2, 3]) 3 \<lparr>script = [Ret 2, Fail EINTR, Ret 1, Ret 5], rxs = [], evs = [], trace = []\<rparr> = Some (True, w') \<and>
     stream_to 4 w' = [1, 2, 3]"
proof -
  let ?w = "\<lparr>script = [Ret 2, Fail EINTR, Ret 1, Ret 5], rxs = [], evs = [], trace = []\<rparr>"
  have "\<exists>w'. send_all 4 (Some [1, 2, 3]) 3 ?w = Some (True, w')"
    by (simp add: send_all_def send_all_loop.simps sys_def)
  then obtain w' where run: "send_all 4 (Some [1, 2, 3]) 3 ?w = Some (True, w')" by blast
  moreover have "stream_to 4 w' = [1, 2, 3]"
    using send_all_complete [of "[1, 2, 3]" 3 ?w 4] run by (auto simp: stream_to_def)
  ultimately show ?thesis by blast
qed

section \<open>Receiving\<close>

text \<open>
  How a kernel can answer while it delivers the bytes \<open>m\<close>: pieces of at least one byte, with
  interruptions between them. The last answer is a piece, since then the request is complete.
\<close>

fun goes_on :: "recvret \<Rightarrow> bool" where
  "goes_on (Got bs) = (bs \<noteq> [])"
| "goes_on (Recv_fail e) = (e = EINTR)"

fun got_bytes :: "recvret \<Rightarrow> bytes" where
  "got_bytes (Got bs) = bs"
| "got_bytes (Recv_fail e) = []"

definition delivers :: "recvret list \<Rightarrow> bytes \<Rightarrow> bool" where
  "delivers rs m \<longleftrightarrow> list_all goes_on rs \<and> concat (map got_bytes rs) = m"

definition cut_of :: "recvret list \<Rightarrow> bytes \<Rightarrow> bool" where
  "cut_of rs m \<longleftrightarrow> delivers rs m \<and> rs \<noteq> [] \<and> got_bytes (last rs) \<noteq> []"

lemma recv_exact_delivers:
  assumes "delivers rs m" and "length acc + length m \<le> len" and "length acc + length m < len \<or> rs = [] \<or> got_bytes (last rs) \<noteq> []"
  shows "recv_exact len acc (rs @ rest) = recv_exact len (acc @ m) rest"
  using assms
proof (induction rs arbitrary: acc m)
  case Nil
  then show ?case by (simp add: delivers_def)
next
  case (Cons r rs)
  let ?m = "concat (map got_bytes rs)"
  have m: "m = got_bytes r @ ?m" "delivers rs ?m" "goes_on r"
    using Cons.prems(1) by (auto simp: delivers_def)
  have "got_bytes (last (r # rs)) = []" if "m = []"
    using that m(1) last_in_set [of "r # rs"] by auto
  then have less: "length acc < len"
    using Cons.prems(2,3) by (cases m) auto
  have last: "length (acc @ got_bytes r) + length ?m < len \<or> rs = [] \<or> got_bytes (last rs) \<noteq> []"
    using Cons.prems(3) m(1) by auto
  have IH: "recv_exact len (acc @ got_bytes r) (rs @ rest) = recv_exact len ((acc @ got_bytes r) @ ?m) rest"
    using Cons.IH [OF m(2) _ last] Cons.prems(2) m(1) by simp
  have "recv_exact len acc ((r # rs) @ rest) = recv_exact len (acc @ got_bytes r) (rs @ rest)"
    using less m Cons.prems(2) by (cases r) (auto simp: recv_exact.simps [of len acc])
  with IH m(1) show ?case by simp
qed

lemma client_loop_message:
  assumes "cut_of rs m" and "length m = len" and "0 < len"
  shows "client_loop len f (rs @ rest) s = client_loop len f rest (f m s)"
proof -
  have "recv_exact len [] (rs @ rest) = Some (int len, m, rest)"
    using recv_exact_delivers [of rs m "[]" len rest] assms by (simp add: cut_of_def recv_exact.simps)
  with assms(2,3) show ?thesis
    by (subst client_loop.simps) (simp add: Let_def)
qed

lemma client_loop_messages:
  assumes "list_all2 cut_of rss ms" and "\<forall>m\<in>set ms. length m = len" and "0 < len"
  shows "client_loop len f (concat rss @ rest) s = client_loop len f rest (fold f ms s)"
  using assms(1,2)
  by (induction rss ms arbitrary: s rule: list_all2_induct) (simp_all add: client_loop_message assms(3))

text \<open>The answers that end a connection: the end of the stream, or an error.\<close>

definition ends_conn :: "recvret \<Rightarrow> bool" where
  "ends_conn r \<longleftrightarrow> \<not> goes_on r"

lemma client_loop_end:
  assumes "delivers part m" and "length m < len" and "ends_conn r"
  shows "client_loop len f (part @ r # rest) s = Some (r = Got [], s, rest)"
proof -
  have "recv_exact len [] (part @ r # rest) = recv_exact len m (r # rest)"
    using recv_exact_delivers [of part m "[]" len "r # rest"] assms by simp
  also have "\<dots> = Some (if r = Got [] then 0 else - 1, m, rest)"
    using assms(2,3) by (cases r) (auto simp: recv_exact.simps [of len m] ends_conn_def)
  finally show ?thesis
    by (subst client_loop.simps) (simp add: Let_def)
qed

text \<open>
  \<^verbatim>\<open>handle_client\<close> reassembles messages: for a client that sends complete messages and then
  part of another one, cut by the kernel into pieces in any way and with interruptions
  anywhere, the callback gets exactly the complete messages, in order; the call returns at the
  end of the stream with true, at an error with false, and the partial message is discarded.
\<close>

lemma handle_client_delivers:
  assumes "0 < len" and "len \<le> 4096" and "list_all2 cut_of rss ms" and "\<forall>m\<in>set ms. length m = len"
    and "delivers part m" and "length m < len" and "ends_conn r"
  shows "handle_client len f (concat rss @ part @ r # rest) s = Some (r = Got [], fold f ms s, rest)"
  using assms client_loop_messages [OF assms(3,4,1), of f "part @ r # rest" s] client_loop_end [OF assms(5-7), of f rest]
  by (simp add: handle_client_def)

lemma handle_client_delivers_witness:
  "handle_client 3 (\<lambda>m ms. ms @ [m]) (concat [[Got [1], Recv_fail EINTR, Got [2, 3]], [Got [4, 5, 6]]] @
     [Recv_fail EINTR, Got [7]] @ Got [] # []) [] = Some (Got [] = Got [], fold (\<lambda>m ms. ms @ [m]) [[1, 2, 3], [4, 5, 6]] [], [])"
  by (rule handle_client_delivers [where m = "[7]"])
    (simp_all add: cut_of_def delivers_def ends_conn_def)

section \<open>The variant with a stop test\<close>

text \<open>Time-outs are answers that the variant with a stop test waits through.\<close>

definition timed_out :: "recvret \<Rightarrow> bool" where
  "timed_out r \<longleftrightarrow> r = Recv_fail EAGAIN \<or> r = Recv_fail EWOULDBLOCK"

abbreviation waited :: "recvret list \<Rightarrow> recvret list" where
  "waited rs \<equiv> filter (\<lambda>r. \<not> timed_out r) rs"

lemma recv_exact_step:
  "length acc < len \<Longrightarrow> recv_exact len acc [] = None"
  "length acc < len \<Longrightarrow> recv_exact len acc (Got bs # rs) =
     (if bs = [] then Some (0, acc, rs) else if len - length acc < length bs then None else recv_exact len (acc @ bs) rs)"
  "length acc < len \<Longrightarrow> recv_exact len acc (Recv_fail e # rs) =
     (if e = EINTR then recv_exact len acc rs else Some (- 1, acc, rs))"
  "\<not> length acc < len \<Longrightarrow> recv_exact len acc rs = Some (int (length acc), acc, rs)"
  by (simp_all add: recv_exact.simps [of len acc])

lemma recv_exact_until_step:
  "length acc < len \<Longrightarrow> recv_exact_until len acc (False # stops) [] = None"
  "length acc < len \<Longrightarrow> recv_exact_until len acc (False # stops) (Got bs # rs) =
     (if bs = [] then Some (0, acc, stops, rs) else if len - length acc < length bs then None
      else recv_exact_until len (acc @ bs) stops rs)"
  "length acc < len \<Longrightarrow> recv_exact_until len acc (False # stops) (Recv_fail e # rs) =
     (if e = EINTR \<or> e = EAGAIN \<or> e = EWOULDBLOCK then recv_exact_until len acc stops rs else Some (- 1, acc, stops, rs))"
  "\<not> length acc < len \<Longrightarrow> recv_exact_until len acc stops rs = Some (int (length acc), acc, stops, rs)"
  by (simp_all add: recv_exact_until.simps [of len acc])

lemmas recv_steps = recv_exact_step recv_exact_until_step

lemma recv_exact_until_waits:
  assumes "length rs < length stops" and "list_all Not stops"
  shows "map_option (\<lambda>(n, b, stops', rs'). (n, b, waited rs')) (recv_exact_until len acc stops rs) = recv_exact len acc (waited rs) \<and>
    (\<forall>n b stops' rs'. recv_exact_until len acc stops rs = Some (n, b, stops', rs') \<longrightarrow>
      length rs' < length stops' \<and> list_all Not stops')"
  using assms
proof (induction rs arbitrary: acc stops)
  case Nil
  then obtain stops' where "stops = False # stops'" by (cases stops) auto
  with Nil show ?case by (cases "length acc < len") (simp_all add: recv_steps)
next
  case (Cons r rs)
  obtain stops' where st: "stops = False # stops'" "length rs < length stops'" "list_all Not stops'"
    using Cons.prems by (cases stops) auto
  show ?case
  proof (cases "length acc < len")
    case False
    with Cons.prems show ?thesis by (simp add: recv_steps)
  next
    case True
    show ?thesis
    proof (cases r)
      case (Got bs)
      with Cons.IH [OF st(2,3), of "acc @ bs"] True st show ?thesis
        by (simp add: recv_steps timed_out_def)
    next
      case (Recv_fail e)
      with Cons.IH [OF st(2,3), of acc] True st show ?thesis
        by (cases "e = EAGAIN \<or> e = EWOULDBLOCK") (auto simp: recv_steps timed_out_def)
    qed
  qed
qed

lemma client_loop_until_waits:
  assumes "length rs < length stops" and "list_all Not stops"
  shows "map_option (\<lambda>(ok, s, stops', rs'). (ok, s, waited rs')) (client_loop_until len f stops rs s) = client_loop len f (waited rs) s"
  using assms
proof (induction len f stops rs s rule: client_loop_until.induct)
  case (1 len f stops rs s)
  note recv = recv_exact_until_waits [OF 1(2,3), of len "[]"]
  show ?case
  proof (cases "recv_exact_until len [] stops rs")
    case None
    with recv show ?thesis
      by (simp add: client_loop_until.simps [of len f stops] client_loop.simps [of len f "waited rs"])
  next
    case (Some x)
    obtain n b stops' rs' where x: "x = (n, b, stops', rs')" by (cases x)
    with Some recv have r: "recv_exact len [] (waited rs) = Some (n, b, waited rs')"
      and l: "length rs' < length stops'" "list_all Not stops'" by auto
    show ?thesis
      using 1(1) [OF Some x [symmetric] refl refl refl] Some x r l
      by (cases "0 < n")
        (auto simp: client_loop_until.simps [of len f stops] client_loop.simps [of len f "waited rs"] Let_def)
  qed
qed

lemma recv_exact_result: "recv_exact len acc rs = Some (n, b, lo) \<Longrightarrow> - 1 \<le> n"
proof (induction len acc rs rule: recv_exact.induct)
  case (1 len acc rs)
  then show ?case
    by (subst (asm) (3) recv_exact.simps) (fastforce split: if_splits list.splits recvret.splits)
qed

text \<open>
  A stop requested after the answers \<open>rs\<close>, wherever in a message that is: the variant behaves
  like the plain function that gets a fatal error there, and leaves all later answers.
\<close>

definition broken_off :: "recvret list \<Rightarrow> recvret list" where
  "broken_off rs = waited rs @ [Recv_fail EOTHER]"

definition stop_after :: "recvret list \<Rightarrow> bool list \<Rightarrow> bool list" where
  "stop_after rs ss = replicate (length rs) False @ True # ss"

lemma broken_off_Cons [simp]: "broken_off (r # rs) = (if timed_out r then broken_off rs else r # broken_off rs)"
  by (simp add: broken_off_def)

lemma stop_after_simps [simp]: "stop_after [] ss = True # ss" "stop_after (r # rs) ss = False # stop_after rs ss"
  by (simp_all add: stop_after_def)

lemma recv_exact_stop:
  "case recv_exact len acc (broken_off rs) of
     None \<Rightarrow> recv_exact_until len acc (stop_after rs ss) (rs @ later) = None
   | Some (n, b, lo) \<Rightarrow>
       (if lo = [] then n = - 1 \<and> recv_exact_until len acc (stop_after rs ss) (rs @ later) = Some (- 2, b, ss, later)
        else \<exists>rs'. lo = broken_off rs' \<and> length rs' \<le> length rs \<and> (length acc < len \<longrightarrow> length rs' < length rs) \<and>
          recv_exact_until len acc (stop_after rs ss) (rs @ later) = Some (n, b, stop_after rs' ss, rs' @ later))"
proof (induction rs arbitrary: acc)
  case Nil
  show ?case
    by (cases "length acc < len")
      (auto simp: broken_off_def recv_steps recv_exact_until.simps [of len acc "True # ss"] intro!: exI [of _ "[]"])
next
  case (Cons r rs)
  have ne: "broken_off rs \<noteq> []" by (simp add: broken_off_def)
  show ?case
  proof (cases "length acc < len")
    case False
    then have "recv_exact len acc (broken_off (r # rs)) = Some (int (length acc), acc, broken_off (r # rs))"
      "recv_exact_until len acc (stop_after (r # rs) ss) ((r # rs) @ later) =
        Some (int (length acc), acc, stop_after (r # rs) ss, (r # rs) @ later)"
      by (simp_all add: recv_steps del: broken_off_Cons stop_after_simps)
    moreover have "broken_off (r # rs) \<noteq> []" by (simp add: broken_off_def)
    ultimately show ?thesis
      using False by (auto simp del: broken_off_Cons stop_after_simps)
  next
    case True
    show ?thesis
    proof (cases r)
      case (Got bs)
      then have nt: "\<not> timed_out r" by (simp add: timed_out_def)
      show ?thesis
      proof (cases "bs = [] \<or> len - length acc < length bs")
        case True
        with nt Got \<open>length acc < len\<close> ne show ?thesis by (auto simp: recv_steps)
      next
        case False
        with nt Got \<open>length acc < len\<close> Cons.IH [of "acc @ bs"] show ?thesis
          by (auto simp: recv_steps split: option.splits if_splits prod.splits)
      qed
    next
      case (Recv_fail e)
      show ?thesis
      proof (cases "e = EINTR \<or> e = EAGAIN \<or> e = EWOULDBLOCK")
        case go: True
        then have "recv_exact len acc (broken_off (r # rs)) = recv_exact len acc (broken_off rs)"
          "recv_exact_until len acc (stop_after (r # rs) ss) ((r # rs) @ later) =
            recv_exact_until len acc (stop_after rs ss) (rs @ later)"
          using Recv_fail True by (auto simp: recv_steps timed_out_def)
        with Cons.IH [of acc] True show ?thesis
          by (auto split: option.splits if_splits prod.splits)
      next
        case False
        with Recv_fail True ne show ?thesis by (auto simp: recv_steps timed_out_def)
      qed
    qed
  qed
qed

lemma client_loop_stop:
  assumes "0 < len"
  shows "case client_loop len f (broken_off rs) s of
     None \<Rightarrow> client_loop_until len f (stop_after rs ss) (rs @ later) s = None
   | Some (ok, s', lo) \<Rightarrow> \<exists>stops' rs'. client_loop_until len f (stop_after rs ss) (rs @ later) s = Some (ok, s', stops', rs') \<and>
       (lo = [] \<longrightarrow> stops' = ss \<and> rs' = later)"
proof (induction "length rs" arbitrary: rs s rule: less_induct)
  case less
  note unf = client_loop.simps [of len f "broken_off rs" s] client_loop_until.simps [of len f "stop_after rs ss" "rs @ later" s]
  note recv = recv_exact_stop [of len "[]" rs ss later]
  show ?case
  proof (cases "recv_exact len [] (broken_off rs)")
    case None
    with recv show ?thesis unfolding unf by simp
  next
    case (Some x)
    obtain n b lo where x: "x = (n, b, lo)" by (cases x)
    show ?thesis
    proof (cases "lo = []")
      case True
      with recv Some x show ?thesis unfolding unf by simp
    next
      case False
      with recv Some x assms obtain rs' where rs': "lo = broken_off rs'" "length rs' < length rs"
        "recv_exact_until len [] (stop_after rs ss) (rs @ later) = Some (n, b, stop_after rs' ss, rs' @ later)" by auto
      have "n \<noteq> - 2" using recv_exact_result [OF Some [unfolded x]] by auto
      consider "n \<le> 0" | "0 < n" by linarith
      then show ?thesis
      proof cases
        case 1
        with \<open>n \<noteq> - 2\<close> Some x rs' False show ?thesis unfolding unf by (cases "n = 0") simp_all
      next
        case 2
        then have eqs: "client_loop len f (broken_off rs) s = client_loop len f (broken_off rs') (f (take (nat n) b) s)"
          "client_loop_until len f (stop_after rs ss) (rs @ later) s =
            client_loop_until len f (stop_after rs' ss) (rs' @ later) (f (take (nat n) b) s)"
          using Some x rs' unfolding unf by (simp_all add: Let_def)
        show ?thesis unfolding eqs by (rule less [OF rs'(2)])
      qed
    qed
  qed
qed

text \<open>
  C32. The variant of \<^verbatim>\<open>handle_client\<close> with a stop test. As long as no stop is requested it does what
  the plain one does on the answers that are not time-outs, the messages, the result and the
  answers it leaves included. If the test after the answers \<open>rs\<close> is the first to request a
  stop, in the middle of a message or between two, the variant does what the plain one does
  if the connection breaks there: it passes on the messages complete by then and returns
  false; and it makes no further test and no further call of \<^verbatim>\<open>recv\<close>.
\<close>

theorem handle_client_until_refines:
  shows "(length rs < length stops \<and> list_all Not stops \<longrightarrow>
      map_option (\<lambda>(ok, s, stops', rs'). (ok, s, waited rs')) (handle_client_until len f stops rs s) =
        handle_client len f (waited rs) s) \<and>
    (case handle_client len f (waited rs @ [Recv_fail EOTHER]) s of
       None \<Rightarrow> handle_client_until len f (replicate (length rs) False @ True # ss) (rs @ later) s = None
     | Some (ok, s', unread) \<Rightarrow>
         \<exists>stops' rs'. handle_client_until len f (replicate (length rs) False @ True # ss) (rs @ later) s =
             Some (ok, s', stops', rs') \<and>
           (unread = [] \<longrightarrow> stops' = ss \<and> rs' = later))"
  using client_loop_until_waits [of rs stops len f s] client_loop_stop [of len f rs ss later s]
  by (auto simp: handle_client_until_def handle_client_def broken_off_def stop_after_def split: option.splits)

text \<open>A stop after the first byte of a two-byte message that follows a complete one.\<close>

theorem handle_client_until_refines_witness:
  "handle_client_until 2 (\<lambda>m ms. ms @ [m]) ([False, False, False, False] @ [True])
     ([Got [1], Recv_fail EAGAIN, Got [2], Got [3]] @ [Got [4], Got []]) [] = Some (False, [[1, 2]], [], [Got [4], Got []]) \<and>
   map_option (\<lambda>(ok, s, stops', rs'). (ok, s, waited rs'))
     (handle_client_until 2 (\<lambda>m ms. ms @ [m]) [False, False, False, False, False] [Got [1], Recv_fail EAGAIN, Got [2], Got [3]] []) =
     handle_client 2 (\<lambda>m ms. ms @ [m]) (waited [Got [1], Recv_fail EAGAIN, Got [2], Got [3]]) []"
proof -
  have "handle_client 2 (\<lambda>m ms. ms @ [m]) (waited [Got [1], Recv_fail EAGAIN, Got [2], Got [3]] @ [Recv_fail EOTHER]) [] =
      Some (False, [[1, 2]], [])"
    by (simp add: handle_client_def timed_out_def client_loop.simps recv_exact.simps)
  with handle_client_until_refines [of "[Got [1], Recv_fail EAGAIN, Got [2], Got [3]]" "[False, False, False, False, False]" 2
      "\<lambda>m ms. ms @ [m]" "[]" "[]" "[Got [4], Got []]"]
  show ?thesis by simp
qed

section \<open>The server and its descriptors\<close>

text \<open>The answers during one client that sends the messages \<open>ms\<close> and possibly part of another.\<close>

definition session_of :: "nat \<Rightarrow> recvret list \<Rightarrow> bytes list \<Rightarrow> bool" where
  "session_of len rs ms \<longleftrightarrow> (\<exists>rss part m r. rs = concat rss @ part @ [r] \<and> list_all2 cut_of rss ms \<and>
     (\<forall>m\<in>set ms. length m = len) \<and> delivers part m \<and> length m < len \<and> ends_conn r)"

lemma session_handled:
  assumes "session_of len rs ms" and "0 < len" and "len \<le> 4096"
  shows "\<exists>ok. handle_client len f rs s = Some (ok, fold f ms s, [])"
proof -
  obtain rss part m r where rs: "rs = concat rss @ part @ [r]" and d: "list_all2 cut_of rss ms"
    "\<forall>m\<in>set ms. length m = len" "delivers part m" "length m < len" "ends_conn r"
    using assms(1) by (auto simp: session_of_def)
  show ?thesis
    using client_loop_messages [OF d(1,2) assms(2), of f "part @ [r]" s] client_loop_end [OF d(3-5), of f "[]"] assms(2,3)
    by (simp add: handle_client_def rs)
qed

text \<open>Accepting: a new descriptor, or an interruption, which counts as a client without descriptor.\<close>

definition accepts :: "sysret \<Rightarrow> bool" where
  "accepts r \<longleftrightarrow> (\<exists>n. r = Ret n) \<or> r = Fail EINTR"

lemma serve_clients_sessions:
  assumes "list_all2 (session_of len) sessions mss" and "0 < len" and "len \<le> 4096"
    and "length answers = length sessions" and "list_all accepts answers"
    and "script w = answers @ rest" and "- 1 \<notin># open_fds w"
  shows "\<exists>w'. serve_clients lfd len f sessions s w = Some (None, fold f (concat mss) s, w') \<and> open_fds w' = open_fds w"
  using assms(1,4-7)
proof (induction sessions mss arbitrary: s w answers rule: list_all2_induct)
  case Nil
  then show ?case by simp
next
  case (Cons rs sessions ms mss)
  obtain a as where a: "answers = a # as" "accepts a" "length as = length sessions" "list_all accepts as"
    using Cons.prems(1,2) by (cases answers) auto
  obtain ok where hc: "handle_client len f rs s = Some (ok, fold f ms s, [])"
    using session_handled [OF Cons.hyps(1) assms(2,3), of f s] by blast
  let ?w = "w\<lparr>script := as @ rest, trace := trace w @ [(Sys_accept lfd, a)]\<rparr>"
  have sys: "sys (Sys_accept lfd) w = Some (a, ?w)"
    using Cons.prems(3) a(1) by (simp add: sys_def)
  obtain cfd where acc: "accept_one lfd w = Some (Inr cfd, ?w)" and fds: "open_fds (sys_close cfd ?w) = open_fds w"
  proof (cases a)
    case (Ret n)
    with sys open_fds_sys [OF sys] show thesis by (intro that [of "int n"]) (simp_all add: accept_one_def)
  next
    case (Fail e)
    with a(2) sys open_fds_sys [OF sys] Cons.prems(4) show thesis
      by (intro that [of "- 1"]) (simp_all add: accept_one_def accepts_def diff_single_trivial)
  qed
  have "script (sys_close cfd ?w) = as @ rest" by (simp add: sys_close_def)
  with Cons.IH [OF a(3,4) this, of "fold f ms s"] fds Cons.prems(4) acc hc show ?case by auto
qed

text \<open>
  C20. The blocking server: with a listening socket and any sequence of clients, each sending
  complete messages and possibly part of one, cut into pieces in any way, the callback gets the
  messages of all the clients in order, the process goes on, and no descriptor but the
  listening one is left open, also when waiting for a client was interrupted.
\<close>

theorem setup_server_sessions:
  assumes "list_all2 (session_of len) sessions mss" and "0 < len" and "len \<le> 4096"
    and "length answers = length sessions" and "list_all accepts answers"
    and "script w = [Ret l, Ret a, Ret b, Ret c] @ answers @ rest" and "- 1 \<notin># open_fds w"
  shows "\<exists>w'. setup_server port len f sessions s w = Some (None, fold f (concat mss) s, w') \<and>
    open_fds w' = add_mset (int l) (open_fds w)"
proof -
  obtain w1 where w1: "block_listen_socket port w = Some (Inr (int l), w1)" "script w1 = answers @ rest"
    "open_fds w1 = add_mset (int l) (open_fds w)"
    using assms(6) by (auto simp: block_listen_socket_def call_def sys_def open_fds_def Let_def)
  have "- 1 \<notin># open_fds w1" using assms(7) w1(3) by simp
  from serve_clients_sessions [OF assms(1-5) w1(2) this] w1 show ?thesis
    by (simp add: setup_server_def)
qed

theorem setup_server_sessions_witness:
  "\<exists>w'. setup_server 9000 2 (\<lambda>m ms. ms @ [m]) [[Got [1], Got [2], Got []], [Recv_fail EBADF]] []
     \<lparr>script = [Ret 3, Ret 0, Ret 0, Ret 0] @ [Ret 4, Fail EINTR] @ [], rxs = [], evs = [], trace = []\<rparr> =
     Some (None, fold (\<lambda>m ms. ms @ [m]) (concat [[[1, 2]], []]) [], w') \<and>
   open_fds w' = add_mset (int 3) (open_fds \<lparr>script = [Ret 3, Ret 0, Ret 0, Ret 0] @ [Ret 4, Fail EINTR] @ [], rxs = [], evs = [], trace = []\<rparr>)"
proof (rule setup_server_sessions [where answers = "[Ret 4, Fail EINTR]" and a = 0 and b = 0 and c = 0 and rest = "[]"])
  have "session_of 2 [Got [1], Got [2], Got []] [[1, 2]]"
    unfolding session_of_def
    by (intro exI [of _ "[[Got [1], Got [2]]]"] exI [of _ "[]"] exI [of _ "[]"] exI [of _ "Got []"])
      (simp add: cut_of_def delivers_def ends_conn_def)
  moreover have "session_of 2 [Recv_fail EBADF] []"
    unfolding session_of_def
    by (intro exI [of _ "[]"] exI [of _ "[]"] exI [of _ "[]"] exI [of _ "Recv_fail EBADF"])
      (simp add: delivers_def ends_conn_def)
  ultimately show "list_all2 (session_of 2) [[Got [1], Got [2], Got []], [Recv_fail EBADF]] [[[1, 2]], []]" by simp
qed (simp_all add: accepts_def open_fds_def)

text \<open>A time-out in milliseconds is split into seconds and microseconds without loss.\<close>

lemma timeout_timeval_exact:
  "0 \<le> ms \<Longrightarrow> timeout_timeval ms = (sec, usec) \<Longrightarrow> sec * 1000000 + usec = ms * 1000 \<and> 0 \<le> usec \<and> usec < 1000000"
  by (cases "ms = 0")
    (auto simp: timeout_timeval_def signed_divide_int_def signed_modulo_int_def sgn_if, presburger)

end
