(* ===== verification/Logger_Model.thy ===== *)
theory Logger_Model
  imports Decimal
begin

text \<open>
  The logger: \<^verbatim>\<open>src/src/common/logging/logger.hpp\<close> and \<^verbatim>\<open>logger.cpp\<close>. The clock, the thread
  identifier as text and whether a file can be opened are arguments. Every operation holds the
  mutex while it touches the sinks, so concurrent calls are some sequence of the operations
  below.
\<close>

section \<open>Levels\<close>

datatype Level = TRACE | DEBUG | INFO | WARN | ERROR | FATAL

primrec level_rank :: "Level \<Rightarrow> nat" where
  "level_rank TRACE = 0"
| "level_rank DEBUG = 1"
| "level_rank INFO = 2"
| "level_rank WARN = 3"
| "level_rank ERROR = 4"
| "level_rank FATAL = 5"

lemma level_rank_inject [simp]: "level_rank a = level_rank b \<longleftrightarrow> a = b"
  by (cases a; cases b) simp_all

instantiation Level :: linorder
begin

definition less_eq_Level :: "Level \<Rightarrow> Level \<Rightarrow> bool" where
  "less_eq_Level a b \<longleftrightarrow> level_rank a \<le> level_rank b"

definition less_Level :: "Level \<Rightarrow> Level \<Rightarrow> bool" where
  "less_Level a b \<longleftrightarrow> level_rank a < level_rank b"

instance
  by standard (auto simp: less_eq_Level_def less_Level_def simp flip: level_rank_inject)

end

primrec level_to_string :: "Level \<Rightarrow> string" where
  "level_to_string TRACE = ''TRACE''"
| "level_to_string DEBUG = ''DEBUG''"
| "level_to_string INFO = ''INFO''"
| "level_to_string WARN = ''WARN''"
| "level_to_string ERROR = ''ERROR''"
| "level_to_string FATAL = ''FATAL''"

section \<open>Lines\<close>

text \<open>The broken-down local time, as \<^verbatim>\<open>localtime_r\<close> fills it, and the milliseconds.\<close>

record tm =
  tm_year :: nat      \<comment> \<open>the full year\<close>
  tm_mon :: nat       \<comment> \<open>from 1\<close>
  tm_mday :: nat
  tm_hour :: nat
  tm_min :: nat
  tm_sec :: nat

definition pad :: "nat \<Rightarrow> nat \<Rightarrow> string" where
  "pad k n = replicate (k - length (show_nat n)) (CHR ''0'') @ show_nat n"

definition timestamp :: "tm \<Rightarrow> nat \<Rightarrow> string" where
  "timestamp t ms =
     pad 4 (tm_year t) @ ''-'' @ pad 2 (tm_mon t) @ ''-'' @ pad 2 (tm_mday t) @ '' '' @
     pad 2 (tm_hour t) @ '':'' @ pad 2 (tm_min t) @ '':'' @ pad 2 (tm_sec t) @ ''.'' @ pad 3 ms"

definition log_line :: "string \<Rightarrow> Level \<Rightarrow> string \<Rightarrow> string \<Rightarrow> string" where
  "log_line now lvl tid message =
     ''['' @ now @ '']['' @ level_to_string lvl @ ''][tid='' @ tid @ ''] '' @ message"

section \<open>The logger\<close>

text \<open>
  The sinks are part of the state: the console, and the files by name. A file is opened for
  appending.
\<close>

record Logger =
  level_threshold :: Level                 \<comment> \<open>\<^verbatim>\<open>level_\<close>\<close>
  console_enabled :: bool
  log_file :: "string option"              \<comment> \<open>the open file, if any\<close>
  console_lines :: "string list"
  file_lines :: "string \<Rightarrow> string list"

definition logger_new :: "(string \<Rightarrow> string list) \<Rightarrow> Logger" where
  "logger_new disk = \<lparr>level_threshold = INFO, console_enabled = True, log_file = None, console_lines = [],
     file_lines = disk\<rparr>"

definition set_level :: "Level \<Rightarrow> Logger \<Rightarrow> Logger" where
  "set_level lvl l = l\<lparr>level_threshold := lvl\<rparr>"

definition enable_console :: "bool \<Rightarrow> Logger \<Rightarrow> Logger" where
  "enable_console b l = l\<lparr>console_enabled := b\<rparr>"

definition set_log_file :: "bool \<Rightarrow> string \<Rightarrow> Logger \<Rightarrow> bool \<times> Logger" where
  "set_log_file can_open path l =
     (let l = l\<lparr>log_file := None\<rparr>; l = (if can_open then l\<lparr>log_file := Some path\<rparr> else l)
      in (log_file l \<noteq> None, l))"

definition log_write :: "tm \<times> nat \<Rightarrow> string \<Rightarrow> Level \<Rightarrow> string \<Rightarrow> Logger \<Rightarrow> Logger" where
  "log_write now tid lvl message l =
     (let line = log_line (timestamp (fst now) (snd now)) lvl tid message;
          l = (if console_enabled l then l\<lparr>console_lines := console_lines l @ [line]\<rparr> else l)
      in case log_file l of
           None \<Rightarrow> l
         | Some p \<Rightarrow> l\<lparr>file_lines := (file_lines l)(p := file_lines l p @ [line])\<rparr>)"

definition log_msg :: "tm \<times> nat \<Rightarrow> string \<Rightarrow> Level \<Rightarrow> string \<Rightarrow> Logger \<Rightarrow> Logger" where
  "log_msg now tid lvl message l =
     (if lvl < level_threshold l then l else log_write now tid lvl message l)"

section \<open>What reaches the sinks\<close>

text \<open>A call: time, thread, level, message.\<close>

type_synonym log_call = "(tm \<times> nat) \<times> string \<times> Level \<times> string"

definition do_log :: "log_call \<Rightarrow> Logger \<Rightarrow> Logger" where
  "do_log c l = (case c of (now, tid, lvl, message) \<Rightarrow> log_msg now tid lvl message l)"

definition call_line :: "log_call \<Rightarrow> string" where
  "call_line c = (case c of (now, tid, lvl, message) \<Rightarrow> log_line (timestamp (fst now) (snd now)) lvl tid message)"

definition call_level :: "log_call \<Rightarrow> Level" where
  "call_level c = fst (snd (snd c))"

text \<open>The lines a list of calls produces at a threshold.\<close>

definition passed :: "Level \<Rightarrow> log_call list \<Rightarrow> string list" where
  "passed t cs = map call_line (filter (\<lambda>c. t \<le> call_level c) cs)"

lemma do_log_fields [simp]:
  "level_threshold (do_log c l) = level_threshold l" "console_enabled (do_log c l) = console_enabled l"
  "log_file (do_log c l) = log_file l"
  by (simp_all add: do_log_def log_msg_def log_write_def Let_def split: prod.split option.split)

lemma do_log_sinks:
  "console_lines (do_log c l) = console_lines l @ (if console_enabled l then passed (level_threshold l) [c] else [])"
  "file_lines (do_log c l) p = file_lines l p @ (if log_file l = Some p then passed (level_threshold l) [c] else [])"
  by (auto simp: do_log_def log_msg_def log_write_def Let_def passed_def call_level_def call_line_def not_less
      split: prod.split option.split)

lemma passed_Cons: "passed t (c # cs) = passed t [c] @ passed t cs"
  by (simp add: passed_def)

text \<open>
  C33. The log is complete, filtered and ordered: after any sequence of calls, from any threads,
  the console (if enabled) and the open file have gained exactly the lines of the calls at or
  above the threshold, each once, in the order of the calls; every other file is untouched,
  and what the file held before is kept.
\<close>

theorem log_filters_in_order:
  "console_lines (fold do_log cs l) =
      console_lines l @ (if console_enabled l then passed (level_threshold l) cs else []) \<and>
   file_lines (fold do_log cs l) p =
      file_lines l p @ (if log_file l = Some p then passed (level_threshold l) cs else [])"
proof (induction cs arbitrary: l)
  case Nil
  then show ?case by (simp add: passed_def)
next
  case (Cons c cs)
  show ?case
    using Cons.IH [of "do_log c l"] by (simp add: do_log_sinks passed_Cons [of _ c cs])
qed

section \<open>Reading a line back\<close>

lemma length_pad: "length (pad k n) = max k (length (show_nat n))"
  by (simp add: pad_def)

lemma length_show_nat_less: "n < 10 ^ k \<Longrightarrow> 0 < k \<Longrightarrow> length (show_nat n) \<le> k"
proof (induction k arbitrary: n)
  case (Suc k)
  show ?case
  proof (cases "n < 10")
    case True
    then show ?thesis by (simp add: show_nat.simps [of n])
  next
    case False
    then have "n div 10 < 10 ^ k" "0 < k" using Suc.prems(1) by (auto simp: less_mult_imp_div_less mult.commute intro: gr0I)
    with Suc.IH [of "n div 10"] False show ?thesis by (simp add: show_nat.simps [of n])
  qed
qed simp

definition tm_ok :: "tm \<Rightarrow> nat \<Rightarrow> bool" where
  "tm_ok t ms \<longleftrightarrow> tm_year t < 10000 \<and> tm_mon t < 100 \<and> tm_mday t < 100 \<and> tm_hour t < 100 \<and> tm_min t < 100 \<and>
     tm_sec t < 100 \<and> ms < 1000"

lemma length_pad_small: "n < 10 ^ k \<Longrightarrow> 0 < k \<Longrightarrow> length (pad k n) = k"
  using length_show_nat_less [of n k] by (simp add: length_pad)

lemma length_timestamp: "tm_ok t ms \<Longrightarrow> length (timestamp t ms) = 23"
  using length_pad_small [of _ 2] length_pad_small [of "tm_year t" 4] length_pad_small [of ms 3]
  by (simp add: timestamp_def tm_ok_def)

lemma dec_val_zeros: "dec_val (replicate k (CHR ''0'') @ ds) = dec_val ds"
  by (induction k) (simp_all add: dec_val_def digit_val_def)

lemma pad_inject [simp]: "pad k m = pad k n \<longleftrightarrow> m = n"
  by (metis pad_def dec_val_zeros dec_val_show_nat)

lemma timestamp_inject:
  assumes "timestamp t ms = timestamp t' ms'" and "tm_ok t ms" and "tm_ok t' ms'"
  shows "t = t' \<and> ms = ms'"
proof -
  have len: "length (pad 4 (tm_year u)) = 4" "length (pad 2 (tm_mon u)) = 2" "length (pad 2 (tm_mday u)) = 2"
    "length (pad 2 (tm_hour u)) = 2" "length (pad 2 (tm_min u)) = 2" "length (pad 2 (tm_sec u)) = 2"
    if "tm_ok u us" for u us
    using that by (auto simp: tm_ok_def intro!: length_pad_small)
  show ?thesis
    using assms(1) len [OF assms(2)] len [OF assms(3)] by (auto simp: timestamp_def intro: tm.equality)
qed

lemma append_sep_inject:
  assumes "xs @ sep # ys = xs' @ sep # ys'" and "sep \<notin> set xs" and "sep \<notin> set xs'"
  shows "xs = xs' \<and> ys = ys'"
proof -
  have "takeWhile (\<lambda>c. c \<noteq> sep) (zs @ sep # us) = zs" if "sep \<notin> set zs" for zs us
    using that by (induction zs) auto
  with assms have "xs = xs'" by metis
  with assms(1) show ?thesis by simp
qed

lemma level_to_string_inject: "level_to_string a = level_to_string b \<Longrightarrow> a = b"
  by (cases a; cases b) simp_all

lemma level_to_string_bracket: "CHR '']'' \<notin> set (level_to_string lvl)"
  by (cases lvl) simp_all

text \<open>
  A line can be read back: with thread identifiers that contain no closing bracket (they are
  numbers), two lines that are equal have the same time, level, thread and message, whatever
  the messages contain.
\<close>

lemma log_line_unambiguous:
  assumes "log_line (timestamp t ms) lvl tid message = log_line (timestamp t' ms') lvl' tid' message'"
    and "tm_ok t ms" and "tm_ok t' ms'" and "CHR '']'' \<notin> set tid" and "CHR '']'' \<notin> set tid'"
  shows "t = t' \<and> ms = ms' \<and> lvl = lvl' \<and> tid = tid' \<and> message = message'"
proof -
  have "timestamp t ms = timestamp t' ms'" and
    rest: "level_to_string lvl @ CHR '']'' # ''[tid='' @ tid @ '']'' @ '' '' @ message =
      level_to_string lvl' @ CHR '']'' # ''[tid='' @ tid' @ '']'' @ '' '' @ message'"
    using assms(1) length_timestamp [OF assms(2)] length_timestamp [OF assms(3)] by (auto simp: log_line_def)
  moreover have "level_to_string lvl = level_to_string lvl'"
    and "tid @ CHR '']'' # '' '' @ message = tid' @ CHR '']'' # '' '' @ message'"
    using append_sep_inject [OF rest level_to_string_bracket level_to_string_bracket] by simp_all
  ultimately show ?thesis
    using timestamp_inject assms(2,3) level_to_string_inject append_sep_inject [OF _ assms(4,5)] by blast
qed

lemma log_line_unambiguous_witness:
  "CHR '']'' \<notin> set ''140'' \<and> tm_ok \<lparr>tm_year = 2024, tm_mon = 2, tm_mday = 29, tm_hour = 9, tm_min = 5, tm_sec = 0\<rparr> 7 \<and>
   (log_line (timestamp \<lparr>tm_year = 2024, tm_mon = 2, tm_mday = 29, tm_hour = 9, tm_min = 5, tm_sec = 0\<rparr> 7) WARN ''140'' ''a] b'' \<noteq>
    log_line (timestamp \<lparr>tm_year = 2024, tm_mon = 2, tm_mday = 29, tm_hour = 9, tm_min = 5, tm_sec = 0\<rparr> 7) ERROR ''140'' ''a] b'')"
proof (intro conjI notI)
  show "tm_ok \<lparr>tm_year = 2024, tm_mon = 2, tm_mday = 29, tm_hour = 9, tm_min = 5, tm_sec = 0\<rparr> 7"
    by (simp add: tm_ok_def)
  assume "log_line (timestamp \<lparr>tm_year = 2024, tm_mon = 2, tm_mday = 29, tm_hour = 9, tm_min = 5, tm_sec = 0\<rparr> 7) WARN ''140'' ''a] b'' =
    log_line (timestamp \<lparr>tm_year = 2024, tm_mon = 2, tm_mday = 29, tm_hour = 9, tm_min = 5, tm_sec = 0\<rparr> 7) ERROR ''140'' ''a] b''"
  from log_line_unambiguous [OF this] show False by (simp add: tm_ok_def)
qed simp

end
