(* ===== verification/Env_Config.thy ===== *)
theory Env_Config
  imports Logger_Model
begin

text \<open>
  Reading the configuration from environment variables: the helpers of
  \<^verbatim>\<open>src/src/engine/main.cpp\<close> and \<^verbatim>\<open>src/src/generator/main.cpp\<close>. The environment is an argument;
  beside its value, each helper returns the messages it logs.
\<close>

type_synonym env = "string \<Rightarrow> string option"

type_synonym log_requests = "(Level \<times> string) list"

section \<open>The helpers\<close>

definition env_or_default :: "env \<Rightarrow> string \<Rightarrow> string \<Rightarrow> string" where
  "env_or_default getenv name fallback =
     (case getenv name of None \<Rightarrow> fallback | Some value \<Rightarrow> if value \<noteq> [] then value else fallback)"

definition invalid_value :: "string \<Rightarrow> string \<Rightarrow> string \<Rightarrow> Level \<times> string" where
  "invalid_value name value fallback =
     (ERROR, ''Invalid value for '' @ name @ '': '' @ value @ ''; using default '' @ fallback)"

definition env_u16 :: "env \<Rightarrow> string \<Rightarrow> u16 \<Rightarrow> u16 \<times> log_requests" where
  "env_u16 getenv name fallback =
     (case getenv name of
        None \<Rightarrow> (fallback, [])
      | Some value \<Rightarrow>
          if value = [] then (fallback, [])
          else
            let (parsed, rest, ec) = from_chars_uint value 0 in
            if ec = Errc_ok \<and> rest = [] \<and> parsed \<le> 65535 then (ucast parsed, [])
            else (fallback, [invalid_value name value (show_nat (unat fallback))]))"

definition env_int :: "env \<Rightarrow> string \<Rightarrow> int \<Rightarrow> int \<times> log_requests" where
  "env_int getenv name fallback =
     (case getenv name of
        None \<Rightarrow> (fallback, [])
      | Some value \<Rightarrow>
          if value = [] then (fallback, [])
          else
            let (parsed, rest, ec) = from_chars_int value 0 in
            if ec = Errc_ok \<and> rest = [] then (parsed, [])
            else (fallback, [invalid_value name value (show_int fallback)]))"

text \<open>\<^verbatim>\<open>std::tolower\<close> in the C locale.\<close>

definition tolower :: "char \<Rightarrow> char" where
  "tolower ch = (if 65 \<le> (of_char ch :: nat) \<and> (of_char ch :: nat) \<le> 90 then char_of ((of_char ch :: nat) + 32) else ch)"

definition env_bool :: "env \<Rightarrow> string \<Rightarrow> bool \<Rightarrow> bool \<times> log_requests" where
  "env_bool getenv name fallback =
     (case getenv name of
        None \<Rightarrow> (fallback, [])
      | Some value \<Rightarrow>
          if value = [] then (fallback, [])
          else
            let parsed = map tolower value in
            if parsed = ''1'' \<or> parsed = ''true'' \<or> parsed = ''yes'' \<or> parsed = ''on'' then (True, [])
            else if parsed = ''0'' \<or> parsed = ''false'' \<or> parsed = ''no'' \<or> parsed = ''off'' then (False, [])
            else (fallback, [invalid_value name value (if fallback then ''true'' else ''false'')]))"

section \<open>Which values are taken\<close>

lemma digits_while:
  "list_all is_digit s \<Longrightarrow> takeWhile is_digit s = s" "list_all is_digit s \<Longrightarrow> dropWhile is_digit s = []"
  by (simp_all add: list_all_iff)

lemma from_chars_uint_iff:
  "from_chars_uint s v = (x, [], Errc_ok) \<longleftrightarrow>
     s \<noteq> [] \<and> list_all is_digit s \<and> dec_val s < 2 ^ 32 \<and> x = of_nat (dec_val s)"
proof
  assume "s \<noteq> [] \<and> list_all is_digit s \<and> dec_val s < 2 ^ 32 \<and> x = of_nat (dec_val s)"
  then show "from_chars_uint s v = (x, [], Errc_ok)"
    by (simp add: from_chars_uint_def digits_while Let_def)
qed (rule from_chars_uint_ok)

text \<open>The decimal numerals of an \<^verbatim>\<open>int\<close>: digits with an optional minus sign, in range.\<close>

definition int_numeral :: "string \<Rightarrow> int \<Rightarrow> bool" where
  "int_numeral s x \<longleftrightarrow> - (2 ^ 31) \<le> x \<and> x < 2 ^ 31 \<and>
     (\<exists>ds. ds \<noteq> [] \<and> list_all is_digit ds \<and>
        (s = ds \<and> x = int (dec_val ds) \<or> s = CHR ''-'' # ds \<and> x = - int (dec_val ds)))"

lemma from_chars_int_iff: "from_chars_int s v = (x, [], Errc_ok) \<longleftrightarrow> int_numeral s x"
proof
  assume "int_numeral s x"
  then obtain ds where ds: "ds \<noteq> []" "list_all is_digit ds" "- (2 ^ 31) \<le> x" "x < 2 ^ 31"
    "s = ds \<and> x = int (dec_val ds) \<or> s = CHR ''-'' # ds \<and> x = - int (dec_val ds)"
    by (auto simp: int_numeral_def)
  moreover from ds(1,2) have "hd ds \<noteq> CHR ''-''" by (cases ds) (auto simp: is_digit_def)
  ultimately show "from_chars_int s v = (x, [], Errc_ok)"
    by (auto simp: from_chars_int_def digits_while Let_def list_all_iff)
next
  assume h: "from_chars_int s v = (x, [], Errc_ok)"
  show "int_numeral s x"
  proof (cases "s \<noteq> [] \<and> hd s = CHR ''-''")
    case True
    then obtain ds where s: "s = CHR ''-'' # ds" by (cases s) auto
    with h have "dropWhile is_digit ds = []" and t: "takeWhile is_digit ds \<noteq> []"
      by (auto simp: from_chars_int_def Let_def split: if_splits)
    then have all: "list_all is_digit ds" by (simp add: list_all_iff dropWhile_eq_Nil_conv)
    with t have "ds \<noteq> []" by auto
    with h s all show ?thesis
      by (auto simp: int_numeral_def from_chars_int_def digits_while Let_def split: if_splits)
  next
    case False
    with h have "dropWhile is_digit s = []" and t: "takeWhile is_digit s \<noteq> []"
      by (auto simp: from_chars_int_def Let_def split: if_splits)
    then have all: "list_all is_digit s" by (simp add: list_all_iff dropWhile_eq_Nil_conv)
    with t have "s \<noteq> []" by auto
    with h False all show ?thesis
      by (auto simp: int_numeral_def from_chars_int_def digits_while Let_def split: if_splits)
  qed
qed

lemma ucast_of_nat_small: "n < 65536 \<Longrightarrow> (ucast (of_nat n :: u32) :: u16) = of_nat n"
  by (simp add: unsigned_of_nat take_bit_nat_eq_self)

text \<open>
  C40. What the configuration helpers accept: a non-empty value is taken exactly if it is, as a
  whole, a decimal numeral in the range of the type (for \<^verbatim>\<open>uint16_t\<close> without a sign, so leading
  white space, signs, trailing characters and 65536 are refused), and it is taken at its
  value; otherwise the default is used, silently if the variable is unset or empty, and
  with one error message naming the variable if it is not a numeral.
\<close>

theorem env_numbers:
  "env_u16 getenv name d =
     (case getenv name of
        None \<Rightarrow> (d, [])
      | Some value \<Rightarrow>
          if value = [] then (d, [])
          else if list_all is_digit value \<and> dec_val value < 65536 then (of_nat (dec_val value), [])
          else (d, [invalid_value name value (show_nat (unat d))])) \<and>
   (case getenv name of
      None \<Rightarrow> env_int getenv name i = (i, [])
    | Some value \<Rightarrow>
        if value = [] then env_int getenv name i = (i, [])
        else if \<exists>x. int_numeral value x then \<exists>x. int_numeral value x \<and> env_int getenv name i = (x, [])
        else env_int getenv name i = (i, [invalid_value name value (show_int i)]))"
proof (cases "getenv name")
  case None
  then show ?thesis by (simp add: env_u16_def env_int_def)
next
  case (Some v)
  obtain x rest ec where u: "from_chars_uint v 0 = (x, rest, ec)" by (rule prod_cases3)
  obtain y rest' ec' where y: "from_chars_int v 0 = (y, rest', ec')" by (rule prod_cases3)
  have U: "env_u16 getenv name d = (if list_all is_digit v \<and> dec_val v < 65536
      then (of_nat (dec_val v), []) else (d, [invalid_value name v (show_nat (unat d))]))" if "v \<noteq> []"
  proof (cases "list_all is_digit v \<and> dec_val v < 65536")
    case True
    then have "from_chars_uint v 0 = (of_nat (dec_val v), [], Errc_ok)"
      using that by (simp add: from_chars_uint_iff)
    moreover have "(of_nat (dec_val v) :: u32) \<le> 65535"
      using True by (simp add: word_le_nat_alt unsigned_of_nat take_bit_nat_eq_self)
    moreover have "(ucast (of_nat (dec_val v) :: u32) :: u16) = of_nat (dec_val v)"
      using True by (simp add: ucast_of_nat_small)
    ultimately show ?thesis using True Some that by (simp add: env_u16_def)
  next
    case False
    have "\<not> (ec = Errc_ok \<and> rest = [] \<and> x \<le> 65535)"
    proof
      assume a: "ec = Errc_ok \<and> rest = [] \<and> x \<le> 65535"
      with u from_chars_uint_iff [of v 0 x] have v: "list_all is_digit v" "dec_val v < 2 ^ 32" "x = of_nat (dec_val v)"
        by auto
      then have "dec_val v \<le> 65535" using a by (simp add: word_le_nat_alt unsigned_of_nat take_bit_nat_eq_self)
      with v(1) False show False by simp
    qed
    with False Some that u show ?thesis by (simp add: env_u16_def)
  qed
  have I: "if \<exists>z. int_numeral v z then \<exists>z. int_numeral v z \<and> env_int getenv name i = (z, [])
      else env_int getenv name i = (i, [invalid_value name v (show_int i)])" if "v \<noteq> []" for i
    using Some that y from_chars_int_iff [of v 0] by (auto simp: env_int_def)
  show ?thesis
  proof (cases "v = []")
    case True
    with Some show ?thesis by (simp add: env_u16_def env_int_def)
  next
    case False
    with Some U I [OF False, of i] show ?thesis by simp
  qed
qed

text \<open>Numbers printed by the program are accepted again, with their value.\<close>

lemma env_round_trip:
  "env_u16 ((\<lambda>_. None)(name \<mapsto> show_nat (unat v))) name d = (v, [])"
  "- (2 ^ 31) \<le> x \<Longrightarrow> x < 2 ^ 31 \<Longrightarrow> env_int ((\<lambda>_. None)(name \<mapsto> show_int x)) name i = (x, [])"
proof -
  have v: "unat v < 65536" using unsigned_less [of v] by simp
  then have "(of_nat (unat v) :: u32) \<le> 65535"
    by (simp add: word_le_nat_alt unsigned_ucast_eq take_bit_nat_eq_self)
  moreover have "(ucast (of_nat (unat v) :: u32) :: u16) = v"
    using ucast_of_nat_small [OF v] by simp
  ultimately show "env_u16 ((\<lambda>_. None)(name \<mapsto> show_nat (unat v))) name d = (v, [])"
    using v by (simp add: env_u16_def from_chars_uint_show)
next
  assume "- (2 ^ 31) \<le> x" "x < 2 ^ 31"
  then show "env_int ((\<lambda>_. None)(name \<mapsto> show_int x)) name i = (x, [])"
    by (simp add: env_int_def from_chars_int_show) (simp add: show_int_def)
qed

end
