(* ===== verification/Apps.thy ===== *)
theory Apps
  imports Env_Config Generator Engine_V3
begin

text \<open>
  The two programs: \<^verbatim>\<open>main\<close> of \<^verbatim>\<open>src/src/generator/main.cpp\<close> and of \<^verbatim>\<open>src/src/engine/main.cpp\<close>,
  composed of the modelled components. Whether the log file can be opened and the signal
  handlers installed are arguments. The result of a run is its exit code, the messages it logs
  itself and the state of the outside world.
\<close>

section \<open>The generator program\<close>

definition generator_sender_config :: "env \<Rightarrow> SenderConfig \<times> log_requests" where
  "generator_sender_config getenv =
     (let lip = env_or_default getenv ''MD_GENERATOR_LOCAL_IP'' ''0.0.0.0'';
          (lport, l1) = env_u16 getenv ''MD_GENERATOR_LOCAL_PORT'' 0;
          rip = env_or_default getenv ''MD_GENERATOR_REMOTE_IP'' ''127.0.0.1'';
          (rport, l2) = env_u16 getenv ''MD_GENERATOR_REMOTE_PORT'' 8888;
          (sndbuf, l3) = env_int getenv ''MD_GENERATOR_SNDBUF_BYTES'' (4 * 1024 * 1024)
      in (\<lparr>snd_local_ip = Some lip, snd_local_port = lport, snd_remote_ip = Some rip, snd_remote_port = rport,
           snd_sndbuf_bytes = sndbuf, snd_connect_socket = True\<rparr>, l1 @ l2 @ l3))"

record run_params =
  rp_rate :: int
  rp_duration_s :: int
  rp_count :: int
  rp_seed :: int
  rp_gap_mod :: int
  rp_gap_span :: int
  rp_burst_size :: int

text \<open>The range of \<^verbatim>\<open>int\<close>; a product outside it is undefined behaviour (\<^const>\<open>None\<close>).\<close>

definition in_int :: "int \<Rightarrow> bool" where
  "in_int x \<longleftrightarrow> - (2 ^ 31) \<le> x \<and> x < 2 ^ 31"

definition generator_run_params :: "env \<Rightarrow> (run_params \<times> log_requests) option" where
  "generator_run_params getenv =
     (let (rate, l1) = env_int getenv ''MD_GENERATOR_RATE'' 50000;
          (duration_s, l2) = env_int getenv ''MD_GENERATOR_DURATION_S'' 600;
          default_count = (if rate > 0 then rate * duration_s else 100000) in
      if \<not> in_int default_count then None
      else
        let (cnt, l3) = env_int getenv ''MD_GENERATOR_COUNT'' default_count;
            (seed, l4) = env_int getenv ''MD_GENERATOR_SEED'' 42;
            (gap_mod, l5) = env_int getenv ''MD_GENERATOR_GAP_MOD'' 1000;
            (gap_span, l6) = env_int getenv ''MD_GENERATOR_GAP_SPAN'' 1;
            (burst_size, l7) = env_int getenv ''MD_GENERATOR_BURST_SIZE'' 1
        in Some (\<lparr>rp_rate = rate, rp_duration_s = duration_s, rp_count = cnt, rp_seed = seed, rp_gap_mod = gap_mod,
             rp_gap_span = gap_span, rp_burst_size = burst_size\<rparr>, l1 @ l2 @ l3 @ l4 @ l5 @ l6 @ l7))"

text \<open>
  \<^verbatim>\<open>main\<close>; leaving it destroys the generator, which closes its sender. The line that the
  generator itself logs when a batch fails is not part of the result.
\<close>

definition generator_main ::
  "(string \<Rightarrow> u32 option) \<Rightarrow> env \<Rightarrow> bool \<Rightarrow> endian \<Rightarrow> bytes \<Rightarrow> int \<Rightarrow> world \<Rightarrow> (int \<times> log_requests \<times> world) option" where
  "generator_main inet_pton getenv can_open e junk now w =
     (if \<not> can_open then Some (1, [(ERROR, ''Failed to open generator_app.log for writing'')], w)
      else
        let (cfg, l1) = generator_sender_config getenv;
            lip = the (snd_local_ip cfg); rip = the (snd_remote_ip cfg);
            lport = show_nat (unat (snd_local_port cfg)); rport = show_nat (unat (snd_remote_port cfg));
            logs = (INFO, ''<======== Generator ========>'') # l1 in
        do { (connected, G, w) \<leftarrow> gen2_open inet_pton cfg gen2_new w;
             if \<not> connected
             then Some (1, logs @ [(ERROR, ''Failed to configure UDP destination '' @ rip @ '':'' @ rport)],
                    snd (gen2_destroy G w))
             else do {
               let logs = logs @ [(INFO, ''Generator local bind: '' @ lip @ '':'' @ lport),
                                  (INFO, ''UDP destination configured: '' @ rip @ '':'' @ rport)];
               (p, l2) \<leftarrow> generator_run_params getenv;
               let logs = logs @ l2 @ [(INFO, ''Generator config rate='' @ show_int (rp_rate p) @
                 '' duration_s='' @ show_int (rp_duration_s p) @ '' count='' @ show_int (rp_count p) @
                 '' burst_size='' @ show_int (rp_burst_size p) @ '' sndbuf_bytes='' @ show_int (snd_sndbuf_bytes cfg))];
               (ok, G, w) \<leftarrow> gen2_run e junk (rp_count p) (rp_rate p) (rp_seed p) (rp_gap_mod p) (rp_gap_span p)
                 (rp_burst_size p) now G w;
               let w = snd (gen2_destroy G w);
               Some (if \<not> ok then (1, logs @ [(ERROR, ''Generator run failed'')], w)
                     else (0, logs @ [(INFO, ''<========== END ==========>'')], w)) } })"

section \<open>The engine program\<close>

definition engine_config :: "env \<Rightarrow> EngineConfig \<times> log_requests" where
  "engine_config getenv =
     (let (port, l1) = env_u16 getenv ''MD_ENGINE_UDP_PORT'' 8888;
          (each, l2) = env_bool getenv ''MD_ENGINE_LOG_EACH_PACKET'' False
      in (default_engine_config\<lparr>udp_dst_port := port, log_each_packet := each\<rparr>, l1 @ l2))"

definition dpdk_config :: "env \<Rightarrow> DpdkConfig \<times> log_requests" where
  "dpdk_config getenv =
     (let (port, l1) = env_u16 getenv ''MD_ENGINE_DPDK_PORT_ID'' 0;
          (queue, l2) = env_u16 getenv ''MD_ENGINE_DPDK_QUEUE_ID'' 0
      in (default_dpdk_config\<lparr>port_id := port, queue_id := queue\<rparr>, l1 @ l2))"

text \<open>
  \<^verbatim>\<open>main\<close>; the engine refers to the receive source, so opening the source is seen by the engine.
  \<open>stops\<close> are the values of the stop condition at each test of the receive loop, \<open>sig\<close> is the
  signal number found at the end.
\<close>

definition engine_main ::
  "rte_layout \<Rightarrow> endian \<Rightarrow> env \<Rightarrow> bool \<Rightarrow> bool \<Rightarrow> bool \<Rightarrow> bool list \<Rightarrow> nat \<Rightarrow> dpdk \<Rightarrow>
     (int \<times> log_requests \<times> engine_v3 option \<times> dpdk) option" where
  "engine_main L e getenv can_open sigint_ok sigterm_ok stops sig d =
     (if \<not> can_open then Some (1, [(ERROR, ''Failed to open engine_app.log for writing'')], None, d)
      else
        let logs = [(INFO, ''<======== Engine ========>'')] in
        if \<not> sigint_ok \<or> \<not> sigterm_ok
        then Some (1, logs @ [(ERROR, ''Failed to install signal handlers for engine shutdown'')], None, d)
        else do {
          (ok, d) \<leftarrow> init_eal d;
          if \<not> ok then Some (1, logs @ [(ERROR, ''Failed to initialize DPDK for engine v3'')], None, d)
          else
            let (ecfg, l1) = engine_config getenv; (dcfg, l2) = dpdk_config getenv;
                logs = logs @ l1 @ l2; src = dpdk_create dcfg;
                port = show_nat (unat (port_id dcfg)); queue = show_nat (unat (queue_id dcfg));
                (attached, eng) = attach (v3_new ecfg) src in
            if \<not> attached then Some (1, logs @ [(ERROR, ''Failed to attach v3 DPDK RX source'')], Some eng, d)
            else do {
              (opened, src, d) \<leftarrow> dpdk_open (src, d);
              let eng = eng\<lparr>v3_source := Some src\<rparr>;
              if \<not> opened
              then Some (1, logs @ [(ERROR, ''Failed to start engine DPDK receiver on port '' @ port @ '' queue '' @ queue)],
                     Some eng, d)
              else do {
                let logs = logs @ [(INFO, ''Engine DPDK receiver is running on port '' @ port @ '' queue '' @ queue @
                  '' udp_dst_port '' @ show_nat (unat (udp_dst_port ecfg)) @ '' log_each_packet '' @
                  (if log_each_packet ecfg then ''true'' else ''false''))];
                (ran, eng, d) \<leftarrow> v3_run L e stops eng d;
                Some (if \<not> ran then (1, logs @ [(ERROR, ''Engine v3 run loop exited with failure'')], Some eng, d)
                      else (0, logs @ (if sig \<noteq> 0 then [(INFO, ''Termination signal received: '' @ show_nat sig)] else []) @
                        [(INFO, ''Engine stopped!!!'')], Some eng, d)) } } })"

section \<open>What the generator program does\<close>

lemma sender_close_wire: "on_wire (snd (sender_close s w)) = on_wire w"
  by (simp add: sender_close_def)

lemma sender_close_fds:
  "open_fds (snd (sender_close s w)) = open_fds w - (if 0 \<le> tx_fd s then {#tx_fd s#} else {#})"
  by (simp add: sender_close_def)

lemma generator_main_cases:
  assumes "generator_main inet_pton getenv can_open e junk now w = Some (code, logs, w')"
  obtains (no_log) "\<not> can_open" "code = 1" "w' = w"
  | (no_socket) cfg s w1 where "sender_open inet_pton cfg sender_new w = Some (False, s, w1)" "code = 1"
      "w' = snd (sender_close s w1)"
  | (run) cfg s w1 p l ok g s2 w2 where "sender_open inet_pton cfg sender_new w = Some (True, s, w1)"
      "generator_run_params getenv = Some (p, l)"
      "v2_gen_run e junk (rp_count p) (rp_rate p) (rp_seed p) (rp_gap_mod p) (rp_gap_span p) (rp_burst_size p) now gen_init s w1 =
        Some (ok, g, s2, w2)"
      "code = (if ok then 0 else 1)" "w' = snd (sender_close s2 w2)"
  using assms
  by (auto simp: generator_main_def gen2_defs Let_def bind_eq_Some_conv split: if_splits prod.splits)

text \<open>
  C15. The generator program: whenever it ends, its exit code is 0 or 1, it has closed its
  socket, and the datagrams it put on the wire are the beginning of the stream configured
  by the environment; with exit code 0 it is the whole stream.
\<close>

theorem generator_main_stream:
  assumes "generator_main inet_pton getenv can_open e junk now w = Some (code, logs, w')"
    and "generator_run_params getenv = Some (p, l)" and "length junk = kWireSize"
  shows "(code = 0 \<or> code = 1) \<and> open_fds w' = open_fds w \<and>
    (\<exists>k. let ms = fst (gen_slots (rp_gap_mod p) (rp_gap_span p) (nat (rp_count p)) (gen_start (rp_seed p) gen_init)) in
      on_wire w' = on_wire w @ map wire_layout (take k ms) \<and> (code = 0 \<longrightarrow> k = length ms))"
  using assms(1)
proof (cases rule: generator_main_cases)
  case no_log
  then show ?thesis by (auto simp: Let_def intro!: exI [of _ 0])
next
  case (no_socket cfg s w1)
  have "open_fds w1 = open_fds w" "tx_fd s = - 1"
    using sender_open_fds [OF no_socket(1), of "open_fds w"] by (auto simp: sender_new_def)
  with no_socket sender_open_wire [OF no_socket(1)] show ?thesis
    by (auto simp: Let_def sender_close_fds sender_close_wire intro!: exI [of _ 0])
next
  case (run cfg s w1 p' l' ok g s2 w2)
  have fd: "open_fds w1 = add_mset (tx_fd s) (open_fds w)" "0 \<le> tx_fd s"
    using sender_open_fds [OF run(1), of "open_fds w"] by (auto simp: sender_new_def)
  have p: "p' = p" using run(2) assms(2) by simp
  note sent = v2_gen_run_spec [OF run(3) fd(2) assms(3), unfolded p] and fds = v2_gen_run_fds [OF run(3) fd(2) assms(3)]
  from sent obtain k where "let ms = fst (gen_slots (rp_gap_mod p) (rp_gap_span p) (nat (rp_count p)) (gen_start (rp_seed p) gen_init)) in
      on_wire w2 = on_wire w1 @ map wire_layout (take k ms) \<and> (ok \<longrightarrow> k = length ms)" by blast
  moreover have "open_fds w' = open_fds w"
    using fd fds run(5) by (simp add: sender_close_fds)
  ultimately show ?thesis
    using run(4,5) sender_open_wire [OF run(1)] by (auto simp: Let_def sender_close_wire)
qed

text \<open>The parameters when no variable is set: thirty million messages.\<close>

lemma default_run_params:
  "generator_run_params (\<lambda>_. None) = Some (\<lparr>rp_rate = 50000, rp_duration_s = 600, rp_count = 30000000, rp_seed = 42,
     rp_gap_mod = 1000, rp_gap_span = 1, rp_burst_size = 1\<rparr>, [])"
  by (simp add: generator_run_params_def env_int_def in_int_def)

definition one_message_env :: env where
  "one_message_env = (\<lambda>_. None)(''MD_GENERATOR_COUNT'' \<mapsto> show_int 1, ''MD_GENERATOR_GAP_MOD'' \<mapsto> show_int 0)"

lemma one_message_params:
  "generator_run_params one_message_env = Some (\<lparr>rp_rate = 50000, rp_duration_s = 600, rp_count = 1, rp_seed = 42,
     rp_gap_mod = 0, rp_gap_span = 1, rp_burst_size = 1\<rparr>, [])"
proof -
  have "show_int 1 \<noteq> []" "show_int 0 \<noteq> []" by (simp_all add: show_int_def)
  then show ?thesis
    by (simp add: one_message_env_def generator_run_params_def env_int_def in_int_def from_chars_int_show)
qed

definition one_message_world :: world where
  "one_message_world = \<lparr>script = [Ret 3, Ret 0, Ret 0, Ret 0, Ret 1], rxs = [], evs = [], trace = []\<rparr>"

lemma one_message_run:
  "\<exists>logs w'. generator_main (\<lambda>_. Some 0) one_message_env True Little (replicate kWireSize 0) 9 one_message_world = Some (0, logs, w')"
proof -
  obtain m g where m: "gen_slot 0 1 (gen_start 42 gen_init) = (Some m, g)"
    by (simp add: gen_slot_def case_prod_unfold Let_def)
  have "\<exists>g s' w'. v2_gen_run Little (replicate kWireSize 0) 1 50000 42 0 1 1 9 gen_init
      (sender_new\<lparr>tx_remote := a, tx_connected := True, tx_fd := 3\<rparr>) (w\<lparr>script := [Ret 1]\<rparr>) = Some (True, g, s', w')" for a w
  proof -
    let ?s = "sender_new\<lparr>tx_remote := a, tx_connected := True, tx_fd := 3\<rparr>" and ?w = "w\<lparr>script := [Ret 1]\<rparr>"
    have "\<exists>s' w'. sender_send_batch ?s (Some [\<lparr>tx_data = Some (wire_layout m), tx_len = kWireSize\<rparr>]) 1 ?w = Some (1, s', w')"
      unfolding sender_send_batch_def
      by (subst send_batch_loop.simps) (simp add: sys_def bad_frame_def kWireSize_def sender_new_def send_batch_loop.simps)
    then obtain s' w' where "sender_send_batch ?s (Some [\<lparr>tx_data = Some (wire_layout m), tx_len = kWireSize\<rparr>]) 1 ?w = Some (1, s', w')"
      by blast
    then have "send_or_fail Little (replicate kWireSize 0) [m] ?s ?w = Some (True, s', w')"
      using encode_all_layout [of "replicate kWireSize 0" Little "[m]"]
      by (simp add: send_or_fail_def v2_send_batch_def)
    then show ?thesis
      unfolding v2_gen_run_def by (subst v2_gen_loop.simps) (simp add: m sender_new_def v2_gen_loop.simps pace_def Let_def)
  qed
  note run = this
  let ?cfg = "\<lparr>snd_local_ip = Some ''0.0.0.0'', snd_local_port = 0, snd_remote_ip = Some ''127.0.0.1'', snd_remote_port = 8888,
    snd_sndbuf_bytes = 4194304, snd_connect_socket = True\<rparr>"
  have cfg: "generator_sender_config one_message_env = (?cfg, [])"
    by (simp add: generator_sender_config_def one_message_env_def env_or_default_def env_u16_def env_int_def)
  let ?a = "\<lparr>sin_inet = True, sin_port = 8888, sin_addr = 0\<rparr>" and ?l = "\<lparr>sin_inet = True, sin_port = 0, sin_addr = 0\<rparr>"
  let ?w = "\<lparr>script = [Ret 1], rxs = [], evs = [], trace = [(Sys_socket_dgram True, Ret 3),
    (Sys_setsockopt 3 SO_SNDBUF 4194304, Ret 0), (Sys_bind 3 ?l, Ret 0), (Sys_connect 3 ?a, Ret 0)]\<rparr>"
  have "sender_open (\<lambda>_. Some 0) ?cfg sender_new one_message_world =
      Some (True, sender_new\<lparr>tx_remote := ?a, tx_connected := True, tx_fd := 3\<rparr>, ?w)"
    by (simp add: sender_open_def sender_close_def sender_new_def call_def call_if_def sys_def one_message_world_def
        INADDR_ANY_def Let_def)
  with run [of ?a ?w] cfg show ?thesis
    by (auto simp: generator_main_def gen2_defs one_message_params Let_def)
qed

theorem generator_main_stream_witness:
  "\<exists>logs w'. generator_main (\<lambda>_. Some 0) one_message_env True Little (replicate kWireSize 0) 9 one_message_world = Some (0, logs, w') \<and>
    open_fds w' = {#} \<and> on_wire w' = map wire_layout (fst (gen_slots 0 1 (nat 1) (gen_start 42 gen_init)))"
proof -
  obtain logs w' where run: "generator_main (\<lambda>_. Some 0) one_message_env True Little (replicate kWireSize 0) 9 one_message_world = Some (0, logs, w')"
    using one_message_run by blast
  from generator_main_stream [OF run one_message_params] have "open_fds w' = {#}"
    "on_wire w' = map wire_layout (fst (gen_slots 0 1 (nat 1) (gen_start 42 gen_init)))"
    by (auto simp: Let_def open_fds_def on_wire_def one_message_world_def)
  with run show ?thesis by blast
qed

text \<open>
  The default for the number of messages is computed as rate times duration in \<^verbatim>\<open>int\<close>, even
  when \<^verbatim>\<open>MD_GENERATOR_COUNT\<close> is set: twelve hours at the default rate overflow.
\<close>

lemma generator_count_overflow:
  "generator_run_params ((\<lambda>_. None)(''MD_GENERATOR_DURATION_S'' \<mapsto> show_int (12 * 60 * 60), ''MD_GENERATOR_COUNT'' \<mapsto> show_int 10)) = None"
proof -
  have "show_int 43200 \<noteq> []" by (simp add: show_int_def)
  then show ?thesis
    by (simp add: generator_run_params_def in_int_def env_int_def from_chars_int_show)
qed

section \<open>What the engine program does\<close>

lemma init_eal_holds:
  "init_eal d = Some (ok, d') \<Longrightarrow> holds d' = holds d \<and> delivered d' = delivered d \<and> freed d' = freed d"
  by (auto simp: init_eal_def bind_eq_Some_conv dest!: holds_rte split: if_splits)

text \<open>The DPDK calls of a successful start and of the end of a run.\<close>

lemma init_eal_calls:
  assumes "init_eal d = Some (True, d')"
  obtains eal ports where "calls d' = calls d @ [(Rte_eal_init, eal), (Rte_dev_count, ports)]" "0 \<le> eal" "ports \<noteq> 0"
  using assms by (auto simp: init_eal_def rte_def bind_eq_Some_conv split: list.splits if_splits)

lemma dpdk_open_calls:
  assumes "dpdk_open (dpdk_create c, d) = Some (True, src, d')" and "promiscuous c"
  obtains pool conf queue start prom where "calls d' = calls d @
      [(Rte_pool_create (mempool_name c @ ''_'' @ show_nat (unat (port_id c))), pool), (Rte_dev_configure (port_id c), conf),
       (Rte_rx_queue_setup (port_id c), queue), (Rte_dev_start (port_id c), start), (Rte_promiscuous (port_id c), prom)]"
    "0 \<le> pool" "0 \<le> conf" "0 \<le> queue" "0 \<le> start" "src = \<lparr>dcfg = c, mbuf_pool = True, is_open = True\<rparr>"
  using assms
  by (auto simp: dpdk_open_def dpdk_create_def open_pool_def rte_def bind_eq_Some_conv Let_def
      split: list.splits if_splits)

lemma v3_run_calls:
  assumes "v3_run L e stops s d = Some (ok, s', d')" and "v3_source s = Some src" and "is_open src" "mbuf_pool src"
  shows "ok \<and> calls d' = calls d @ [(Rte_dev_stop (port_id (dcfg src)), 0), (Rte_dev_close (port_id (dcfg src)), 0), (Rte_pool_free, 0)]"
proof -
  let ?burst = "if burst_size (v3_cfg s) < kMaxBurst then burst_size (v3_cfg s) else kMaxBurst"
  have same: "s\<lparr>v3_source := Some src\<rparr> = s" using assms(2) by (cases s) simp
  obtain s2 d2 where loop: "v3_loop L e stops ?burst (s, d) = Some (s2, d2)"
    and fin: "(case dpdk_close (the (v3_source s2), d2) of (src, d) \<Rightarrow> Some (True, s2\<lparr>v3_source := Some src\<rparr>, d)) =
      Some (ok, s', d')"
    using assms same by (auto simp: v3_run_def dpdk_open_def Let_def bind_eq_Some_conv cong: if_cong)
  from v3_loop_buffers [OF loop] fin assms show ?thesis
    by (auto simp: dpdk_close_def reset_mbuf_pool_def rte_void_def Let_def)
qed

lemma set_up_calls:
  assumes "init_eal d = Some (True, d1)" and "dpdk_open (dpdk_create (fst (dpdk_config getenv)), d1) = Some (True, src, d2)"
    and "v3_run L e stops s d2 = Some (ok, en, d')" and "v3_source s = Some src"
  shows "let port = port_id (fst (dpdk_config getenv)) in
    \<exists>eal ports pool conf queue start prom. 0 \<le> eal \<and> ports \<noteq> 0 \<and> 0 \<le> pool \<and> 0 \<le> conf \<and> 0 \<le> queue \<and> 0 \<le> start \<and>
      calls d' = calls d @
        [(Rte_eal_init, eal), (Rte_dev_count, ports), (Rte_pool_create (''md_engine_rx_'' @ show_nat (unat port)), pool),
         (Rte_dev_configure port, conf), (Rte_rx_queue_setup port, queue), (Rte_dev_start port, start),
         (Rte_promiscuous port, prom), (Rte_dev_stop port, 0), (Rte_dev_close port, 0), (Rte_pool_free, 0)]"
proof -
  let ?c = "fst (dpdk_config getenv)"
  have c: "promiscuous ?c" "mempool_name ?c = ''md_engine_rx''"
    by (simp_all add: dpdk_config_def default_dpdk_config_def case_prod_unfold Let_def)
  obtain eal ports where e: "calls d1 = calls d @ [(Rte_eal_init, eal), (Rte_dev_count, ports)]" "0 \<le> eal" "ports \<noteq> 0"
    by (rule init_eal_calls [OF assms(1)])
  obtain pool conf queue start prom where o: "calls d2 = calls d1 @
      [(Rte_pool_create (mempool_name ?c @ ''_'' @ show_nat (unat (port_id ?c))), pool), (Rte_dev_configure (port_id ?c), conf),
       (Rte_rx_queue_setup (port_id ?c), queue), (Rte_dev_start (port_id ?c), start), (Rte_promiscuous (port_id ?c), prom)]"
    "0 \<le> pool" "0 \<le> conf" "0 \<le> queue" "0 \<le> start" "src = \<lparr>dcfg = ?c, mbuf_pool = True, is_open = True\<rparr>"
    by (rule dpdk_open_calls [OF assms(2) c(1)])
  from v3_run_calls [OF assms(3,4)] o(6) have "calls d' = calls d2 @
      [(Rte_dev_stop (port_id ?c), 0), (Rte_dev_close (port_id ?c), 0), (Rte_pool_free, 0)]" by simp
  then have "calls d' = calls d @ [(Rte_eal_init, eal), (Rte_dev_count, ports),
      (Rte_pool_create (''md_engine_rx_'' @ show_nat (unat (port_id ?c))), pool),
      (Rte_dev_configure (port_id ?c), conf), (Rte_rx_queue_setup (port_id ?c), queue), (Rte_dev_start (port_id ?c), start),
      (Rte_promiscuous (port_id ?c), prom), (Rte_dev_stop (port_id ?c), 0), (Rte_dev_close (port_id ?c), 0), (Rte_pool_free, 0)]"
    by (simp add: o(1) e(1) c(2))
  with e(2,3) o(2-5) show ?thesis unfolding Let_def by blast
qed

lemma engine_main_cases:
  assumes "engine_main L e getenv can_open sigint_ok sigterm_ok stops sig d = Some (code, logs, eng, d')"
  obtains (early) "d' = d" "code = 1" "\<not> (can_open \<and> sigint_ok \<and> sigterm_ok)"
  | (no_eal) "init_eal d = Some (False, d')" "code = 1"
  | (no_port) d1 src where "init_eal d = Some (True, d1)"
      "dpdk_open (dpdk_create (fst (dpdk_config getenv)), d1) = Some (False, src, d')" "code = 1"
  | (ran) d1 src d2 s ok en where "init_eal d = Some (True, d1)"
      "dpdk_open (dpdk_create (fst (dpdk_config getenv)), d1) = Some (True, src, d2)" "can_open" "sigint_ok" "sigterm_ok"
      "s = (v3_new (fst (engine_config getenv)))\<lparr>v3_source := Some src\<rparr>"
      "v3_run L e stops s d2 = Some (ok, en, d')" "code = (if ok then 0 else 1)" "eng = Some en"
  using assms
  by (auto simp: engine_main_def attach_def v3_new_def Let_def bind_eq_Some_conv split: if_splits prod.splits)

text \<open>
  C19. The engine program: whenever it ends, for whatever reason and with whatever configuration,
  its exit code is 0 or 1, no mempool, configured port or started port is left behind, and
  every packet buffer the driver delivered was freed once. It ends with code 0 only if
  everything was set up: the log file was opened and both signal handlers installed, the
  queue is 0, EAL initialisation succeeded and found a port, and the mempool, the port, its
  queue and its start succeeded; these are the DPDK calls made, in this order, followed
  by stopping and closing the port and freeing the pool, once each.
\<close>

theorem engine_main_gives_back:
  assumes "engine_main L e getenv can_open sigint_ok sigterm_ok stops sig d = Some (code, logs, eng, d')"
  shows "(code = 0 \<or> code = 1) \<and> holds d' = holds d \<and>
    (\<exists>hs. delivered d' = delivered d @ hs \<and> freed d' = freed d @ hs) \<and>
    (code = 0 \<longrightarrow> can_open \<and> sigint_ok \<and> sigterm_ok \<and> queue_id (fst (dpdk_config getenv)) = 0 \<and>
      (let port = port_id (fst (dpdk_config getenv)) in
       \<exists>eal ports pool conf queue start prom. 0 \<le> eal \<and> ports \<noteq> 0 \<and> 0 \<le> pool \<and> 0 \<le> conf \<and> 0 \<le> queue \<and> 0 \<le> start \<and>
        calls d' = calls d @
          [(Rte_eal_init, eal), (Rte_dev_count, ports), (Rte_pool_create (''md_engine_rx_'' @ show_nat (unat port)), pool),
           (Rte_dev_configure port, conf), (Rte_rx_queue_setup port, queue), (Rte_dev_start port, start),
           (Rte_promiscuous port, prom), (Rte_dev_stop port, 0), (Rte_dev_close port, 0), (Rte_pool_free, 0)]))"
  using assms
proof (cases rule: engine_main_cases)
  case early
  then show ?thesis by auto
next
  case no_eal
  with init_eal_holds [OF no_eal(1)] show ?thesis by auto
next
  case (no_port d1 src)
  let ?src = "dpdk_create (fst (dpdk_config getenv))"
  have inv: "src_inv (holds d1) (?src, d1)" by (simp add: src_inv_def dpdk_create_def)
  have closed_pool: "\<not> mbuf_pool src"
    using no_port(2) dpdk_open_inv [OF no_port(2) inv]
    by (cases "queue_id (fst (dpdk_config getenv)) = 0") (auto simp: dpdk_open_def dpdk_create_def)
  with no_port init_eal_holds [OF no_port(1)] dpdk_open_inv [OF no_port(2) inv] show ?thesis
    by (auto simp: src_inv_def)
next
  case (ran d1 src d2 s ok en)
  let ?src = "dpdk_create (fst (dpdk_config getenv))"
  have inv: "src_inv (holds d1) (?src, d1)" by (simp add: src_inv_def dpdk_create_def)
  note op = dpdk_open_inv [OF ran(2) inv]
  have q: "queue_id (fst (dpdk_config getenv)) = 0"
    using ran(2) by (rule contrapos_pp) (simp add: dpdk_open_def dpdk_create_def)
  have "holds d' = holds d1 \<and> (\<exists>hs. delivered d' = delivered d2 @ hs \<and> freed d' = freed d2 @ hs)"
    using v3_run_resources [OF ran(7), of src "holds d1"] op ran(6) by auto
  moreover have "let port = port_id (fst (dpdk_config getenv)) in
      \<exists>eal ports pool conf queue start prom. 0 \<le> eal \<and> ports \<noteq> 0 \<and> 0 \<le> pool \<and> 0 \<le> conf \<and> 0 \<le> queue \<and> 0 \<le> start \<and>
        calls d' = calls d @
          [(Rte_eal_init, eal), (Rte_dev_count, ports), (Rte_pool_create (''md_engine_rx_'' @ show_nat (unat port)), pool),
           (Rte_dev_configure port, conf), (Rte_rx_queue_setup port, queue), (Rte_dev_start port, start),
           (Rte_promiscuous port, prom), (Rte_dev_stop port, 0), (Rte_dev_close port, 0), (Rte_pool_free, 0)]"
    by (rule set_up_calls [OF ran(1,2) ran(7)]) (simp add: ran(6))
  ultimately show ?thesis
    using op init_eal_holds [OF ran(1)] ran q by auto
qed

theorem engine_main_gives_back_witness:
  "\<exists>logs eng d'. engine_main std_layout Little (\<lambda>_. None) True True True [False, True] 2
      (demo_dpdk\<lparr>answers := [0, 1, 0, 0, 0, 0, 0]\<rparr>) = Some (0, logs, eng, d') \<and>
    holds d' = holds (demo_dpdk\<lparr>answers := [0, 1, 0, 0, 0, 0, 0]\<rparr>) \<and> freed d' = delivered d'"
proof -
  let ?d = "demo_dpdk\<lparr>answers := [0, 1, 0, 0, 0, 0, 0]\<rparr>"
  let ?p = "\<lparr>pv_data = Some (demo_frame (wire_layout zero_msg)),
    pv_len = length (demo_frame (wire_layout zero_msg)), pv_handle = 1\<rparr>"
  have s2: "\<exists>s2. process_one std_layout Little s ?p = Some s2 \<and> v3_source s2 = v3_source s" for s
    using process_one_spec [OF std_layout_ok, of ?p Little s] by (auto simp: packet_ok_def)
  have "\<exists>logs eng d'. engine_main std_layout Little (\<lambda>_. None) True True True [False, True] 2 ?d = Some (0, logs, eng, d')"
    using s2 [of "(v3_new default_engine_config)\<lparr>v3_source := Some \<lparr>dcfg = default_dpdk_config, mbuf_pool = True, is_open = True\<rparr>\<rparr>"]
    by (auto simp: engine_main_def init_eal_def engine_config_def dpdk_config_def env_u16_def env_bool_def attach_def
        v3_run_def dpdk_open_def open_pool_def rte_def dpdk_create_def default_dpdk_config_def
        default_engine_config_def v3_new_def demo_dpdk_def poll_def kMaxBurst_def Let_def case_prod_unfold)
  then obtain logs eng d' where run: "engine_main std_layout Little (\<lambda>_. None) True True True [False, True] 2 ?d = Some (0, logs, eng, d')"
    by blast
  from engine_main_gives_back [OF run] run show ?thesis by (auto simp: demo_dpdk_def)
qed

end
