(* ===== verification/Affinity.thy ===== *)
theory Affinity
  imports MD_Prelude
begin

text \<open>
  Pinning threads: \<^verbatim>\<open>src/src/common/thread/affinity.hpp\<close>. The operating system and the NUMA
  library are an argument: which CPU sets the system accepts, and what the library answers.
\<close>

record numa_os =
  numa_available :: int
  numa_node_of_cpu :: "int \<Rightarrow> int"
  node_cpus :: "int \<Rightarrow> int list"                 \<comment> \<open>the CPUs of a node\<close>
  setaffinity_ok :: "int list \<Rightarrow> bool"           \<comment> \<open>\<^verbatim>\<open>pthread_setaffinity_np\<close> accepts the set\<close>
  run_on_node_ok :: "int \<Rightarrow> bool"

text \<open>\<^verbatim>\<open>CPU_SET\<close> ignores numbers beyond the size of the set, 1024.\<close>

definition cpu_set_of :: "int \<Rightarrow> int list" where
  "cpu_set_of cpu_id = (if cpu_id < 1024 then [cpu_id] else [])"

text \<open>The operations: result, and the CPUs the thread may run on afterwards.\<close>

definition pin_current_thread :: "numa_os \<Rightarrow> int \<Rightarrow> int list \<Rightarrow> bool \<times> int list" where
  "pin_current_thread os cpu_id cpus =
     (if 0 \<le> cpu_id then
        if setaffinity_ok os (cpu_set_of cpu_id) then (True, cpu_set_of cpu_id) else (False, cpus)
      else (False, cpus))"

definition pin_thread_to_node :: "numa_os \<Rightarrow> int \<Rightarrow> int list \<Rightarrow> bool \<times> int list" where
  "pin_thread_to_node os node cpus =
     (if node < 0 then (False, cpus)
      else if numa_available os < 0 then (False, cpus)
      else if run_on_node_ok os node then (True, node_cpus os node) else (False, cpus))"

definition pin_current_thread_to_cpu_on_node :: "numa_os \<Rightarrow> int \<Rightarrow> int \<Rightarrow> int list \<Rightarrow> bool \<times> int list" where
  "pin_current_thread_to_cpu_on_node os node cpu_id cpus =
     (if node < 0 \<or> cpu_id < 0 then (False, cpus)
      else if numa_available os < 0 then pin_current_thread os cpu_id cpus
      else
        let cpu_node = numa_node_of_cpu os cpu_id in
        if cpu_node < 0 \<or> cpu_node \<noteq> node then (False, cpus)
        else
          let (ok, cpus) = pin_thread_to_node os node cpus in
          if \<not> ok then (False, cpus) else pin_current_thread os cpu_id cpus)"

text \<open>
  Pinning to a CPU of a node, on a system that refuses the empty set: if it succeeds, the thread
  runs on exactly that CPU, and the CPU belongs to the node unless there is no NUMA support; if
  it fails, the thread is where it was, or restricted to the CPUs of the node.
\<close>

lemma pin_to_cpu_on_node:
  assumes "\<not> setaffinity_ok os []"
    and "pin_current_thread_to_cpu_on_node os node cpu_id cpus = (ok, cpus')"
  shows "(ok \<longrightarrow> cpus' = [cpu_id] \<and> 0 \<le> node \<and> (0 \<le> numa_available os \<longrightarrow> numa_node_of_cpu os cpu_id = node)) \<and>
    (\<not> ok \<longrightarrow> cpus' = cpus \<or> cpus' = node_cpus os node)"
  using assms
  by (auto simp: pin_current_thread_to_cpu_on_node_def pin_current_thread_def pin_thread_to_node_def cpu_set_of_def
      Let_def split: if_splits prod.splits)

end
