(* ===== verification/Spec2Isabelle.thy ===== *)
theory Spec2Isabelle
  imports Protocol Ring_Concurrent Frame_Pool Metrics_Model Normalize Sequencing Udp_Server Engine_V1
    Packet_Parse Engine_V3 Latency Udp_Receiver Engine_V2 Engine_V2_Safety Bounded_Queue Udp_Sender Generator Pacing
    Tcp_Reassembly Tcp_Block Logger_Model Env_Config Apps Affinity "HOL-Library.Sublist"
begin

text \<open>
  A verification library for the market data training engine under \<^verbatim>\<open>src/src\<close>: generators send
  market data messages as 44-byte datagrams, engines receive them, hand them from an I/O thread
  to a consumer through a pool of frames, decode them and track their sequence numbers.

  \<^bold>\<open>The program and the theories.\<close>

  \<^item> \<^verbatim>\<open>protocol/\<close>: theory \<open>Protocol\<close>, the message and its big-endian codec, on hosts of either byte
    order, with buffer bounds. Round trip, exact acceptance and the wire format.
  \<^item> \<^verbatim>\<open>containers/ring_buffer.hpp\<close>: \<open>Ring_Buffer\<close> has the operations as functions on 64-bit indices
    that wrap, and shows that they refine the bounded queue of \<open>Fifo_Spec\<close> (its locale
    \<open>bounded_fifo\<close>). \<open>Ring_Concurrent\<close> splits push and pop into their atomic
    accesses, interleaves any number of producers with a consumer, and shows order, absence of
    races and absence of loss for one producer, and a lost element for two.
  \<^item> \<^verbatim>\<open>containers/frame_pool.hpp\<close>, \<^verbatim>\<open>numa_frame_pool.hpp\<close>: \<open>Frame_Pool\<close>, the slots with the free and the
    ready ring. The invariant \<open>fp_owned\<close> says that every slot is in exactly one place: free, ready
    or in the hands of the threads listed. The locales of that theory are the interface through
    which servers and engines use the rings.
  \<^item> \<^verbatim>\<open>containers/blocked_bounded_queue.hpp\<close>: \<open>Bounded_Queue\<close>, the operations under the lock,
    which refine a closable bounded queue whose callers wait (locale \<open>waiting_fifo\<close> of \<open>Fifo_Spec\<close>),
    and, as a step relation, any number of threads with the mutex and both condition variables:
    order, no loss and no lost wake-up.
  \<^item> \<^verbatim>\<open>common/metrics/\<close>, \<^verbatim>\<open>engine/normalize/\<close>, \<^verbatim>\<open>common/logging/\<close>, \<^verbatim>\<open>common/thread/\<close>: \<open>Metrics_Model\<close>,
    \<open>Normalize\<close>, \<open>Logger_Model\<close>, \<open>Affinity\<close>. \<open>Decimal\<close> has the printing and reading of numbers.
  \<^item> \<^verbatim>\<open>common/net/v1/udp_server.hpp\<close>: \<open>Udp_Server\<close>, from a datagram to the ready ring, the event loop,
    setup and teardown. \<^verbatim>\<open>tcp_server_nonblock_epoll.hpp\<close>: \<open>Tcp_Reassembly\<close>, the same for streams,
    which are cut into frames. \<^verbatim>\<open>tcp_client_block.hpp\<close>, \<^verbatim>\<open>tcp_server_block.hpp\<close>: \<open>Tcp_Block\<close>.
  \<^item> \<^verbatim>\<open>common/net/v2/\<close>: \<open>Udp_Receiver\<close> and \<open>Udp_Sender\<close>; the contract of sending a batch is a locale,
    interpreted by the Linux and by the portable branch.
  \<^item> \<^verbatim>\<open>engine/v1\<close>, \<^verbatim>\<open>engine/v2\<close>, \<^verbatim>\<open>engine/v3\<close>: \<open>Engine_V1\<close>, \<open>Engine_V2\<close> with \<open>Latency\<close>, \<open>Engine_V3\<close> with
    \<open>Packet_Parse\<close>. \<open>Engine_V2_Threads\<close> runs the I/O thread, the consumer, the reporter and the caller
    of \<^verbatim>\<open>receive\<close> and \<^verbatim>\<open>stop\<close> of v2 together, and \<open>Engine_V2_Safety\<close> shows what all their reachable
    states satisfy: slots, frames and counters, and the life cycle with its memory, threads and
    descriptors. \<open>Sequencing\<close> is the specification of sequence tracking, as a locale that each
    engine's message handler interprets; the counters are shown to be those of the
    specification.
  \<^item> \<^verbatim>\<open>generator/v1\<close>, \<^verbatim>\<open>generator/v2\<close> and \<^verbatim>\<open>common/net/v1/udp_client.hpp\<close>: \<open>Generator\<close>, the message
    stream and what reaches the wire; \<open>Pacing\<close>, when it does.
  \<^item> \<^verbatim>\<open>engine/main.cpp\<close>, \<^verbatim>\<open>generator/main.cpp\<close>: \<open>Env_Config\<close> for the environment variables, \<open>Apps\<close> for the
    programs, which compose the components above.
  \<^item> This theory: the path from generator v2 over a lossy network to the counters of engine v1.

  \<^bold>\<open>How the code is modelled.\<close> Structs are records with the fields of the source, machine integers
  are words of their width (\<^verbatim>\<open>int\<close> parameters are integers whose range is a condition where it
  matters), operations are functions from state to state. \<^const>\<open>None\<close> as the result of an
  operation means that it does not return: it waits for an answer that never comes, it would
  access memory outside an array, overflow a signed integer, or call \<^verbatim>\<open>std::terminate\<close>. Where a
  process exits, the exit is a value.

  The operating system, DPDK, the NUMA library, the clock and the environment are not part of the
  program. They are arguments: lists of the answers they will give, in order, and a trace of the
  calls made (\<open>Posix\<close>, and the record \<open>dpdk\<close> of \<open>Engine_V3\<close>). Nothing is assumed of the answers
  unless a theorem says so. Loops that wait for the outside recurse on these lists, so they need
  no fuel, and a statement that such a loop returns names the answers that make it return.
  Values that another thread can change are read from a list of the values seen at each test.

  Threads are modelled as step relations where their interleaving matters: the atomic accesses of
  a ring, the server thread, the consumer and \<^verbatim>\<open>stop\<close> of engine v1, all threads of engine v2, and the
  callers of the blocking queue. Memory accesses are sequentially consistent; the acquire and
  release operations of the ring are taken as the points of interleaving. In the engines a ring
  operation, a copy of a frame, a test of the flag and the counting of a message are single
  steps. For the rings of engine v1 and the ready ring of v2, with one producer and one consumer,
  \<open>Ring_Concurrent\<close> justifies this; the free ring of v2 has two producers, whose pushes are taken
  not to overlap, and the calls of the v2 receiver are taken not to overlap with its closing. Both
  can happen in the program and are recorded as defects. The latency histogram is updated and read
  by several atomic operations each, which are one step here.

  \<^bold>\<open>Not modelled.\<close> Yielding and the pauses between retries, which do not change what is sent; text printed to
  the standard streams by the socket code; the line a generator logs when a batch fails; huge
  pages and NUMA placement of memory; the release order of C++ atomics beyond interleaving; the
  empty files under \<^verbatim>\<open>engine/act\<close>, \<^verbatim>\<open>engine/ingest\<close>, \<^verbatim>\<open>engine/process\<close> and \<^verbatim>\<open>common\<close>; tests and scripts.
\<close>

section \<open>From the generator to the counters\<close>

lemma seq_run_inc_drops:
  "seq_run (s, inc_drops k m) ns = (fst (seq_run (s, m) ns), inc_drops k (snd (seq_run (s, m) ns)))"
proof (induction ns arbitrary: s m)
  case (Cons n ns)
  have "seq_step (s, inc_drops k m) n = (fst (seq_step (s, m) n), inc_drops k (snd (seq_step (s, m) n)))"
    by (simp add: seq_step_def inc_drops_account inc_drops_received)
  with Cons show ?case by (simp add: seq_run_Cons)
qed (simp add: seq_run_def)

lemma subseq_sorted_wrt: "subseq xs ys \<Longrightarrow> sorted_wrt P ys \<Longrightarrow> sorted_wrt P xs"
  by (induction rule: list_emb.induct) (auto dest: list_emb_set)

lemma frame_seq_layout [simp]: "frame_seq (wire_layout m) = seq_num m"
  by (simp add: frame_seq_def)

text \<open>
  Any part of a generated stream, in order, that reaches the engine's pool is counted exactly:
  the sequence numbers are those of the specification run on an increasing list.
\<close>

lemma consume_increasing:
  assumes "fp_owned (v1_pool en) []" and "seq_state.truncate en = seq_start" and "v1_m en = inc_drops d metrics_zero"
    and "ready_frames (v1_pool en) = map wire_layout (k # ks)"
    and "sorted_wrt (<) (map seq_num (k # ks))" and "\<forall>m\<in>set (k # ks). seq_num m < - 1"
    and "length ks < length stops"
  shows "\<exists>en'. process_loop e (True # stops) (msg, en) = Some en' \<and> ready_frames (v1_pool en') = [] \<and>
    received (v1_m en') = of_nat (Suc (length ks)) \<and> processed (v1_m en') = of_nat (Suc (length ks)) \<and>
    drops (v1_m en') = d \<and> decode_errors (v1_m en') = 0 \<and>
    seq_num_gaps (v1_m en') = seq_num (last (k # ks)) - seq_num k + 1 - of_nat (Suc (length ks))"
proof -
  have "\<exists>en'. process_loop e (True # stops) (msg, en\<lparr>v1_running := False\<rparr>) = Some en' \<and>
      fp_owned (v1_pool en') [] \<and> ready_frames (v1_pool en') = [] \<and>
      v1_sm en' = seq_run (seq_start, inc_drops d metrics_zero) (map seq_num (k # ks))"
    using drain_loop [of "en\<lparr>v1_running := False\<rparr>" "True # stops" e msg] assms(1-4,7)
    by (simp add: comp_def del: process_loop.simps)
  moreover have "process_loop e (True # stops) (msg, en) = process_loop e (True # stops) (msg, en\<lparr>v1_running := False\<rparr>)"
    by (simp add: Let_def)
  ultimately obtain en' where en': "process_loop e (True # stops) (msg, en) = Some en'"
    "ready_frames (v1_pool en') = []"
    "v1_m en' = inc_drops d (snd (seq_run (seq_start, metrics_zero) (map seq_num (k # ks))))"
    unfolding seq_run_inc_drops by (auto simp del: process_loop.simps)
  have "sorted_wrt (<) (seq_num k # map seq_num ks)" "\<forall>n\<in>set (seq_num k # map seq_num ks). n < - 1"
    using assms(5,6) by simp_all
  from seq_run_increasing_start [OF this] en' show ?thesis
    by (simp add: Let_def inc_drops_def last_map metrics_zero_def split: if_splits)
qed

lemma subseq_layouts:
  assumes "subseq fs (map wire_layout ms)"
  obtains ks where "fs = map wire_layout ks" "subseq ks ms"
  using assms
proof (induction ms arbitrary: fs thesis)
  case Nil
  then show ?case by (auto dest: list_emb_Nil2)
next
  case (Cons m ms)
  show ?case
  proof (cases "subseq fs (map wire_layout ms)")
    case True
    with Cons.IH [of fs] obtain ks where "fs = map wire_layout ks" "subseq ks ms" by blast
    then show ?thesis using Cons.prems(1) [of ks] by (simp add: list_emb_Cons)
  next
    case False
    with Cons.prems(2) obtain fs' where fs: "fs = wire_layout m # fs'" "subseq fs' (map wire_layout ms)"
      by (cases fs) (auto split: if_splits)
    with Cons.IH [of fs'] obtain ks where "fs' = map wire_layout ks" "subseq ks ms" by blast
    then show ?thesis using fs Cons.prems(1) [of "m # ks"] by simp
  qed
qed

text \<open>
  The frames that enter the pool from a network that may lose datagrams but neither reorders
  nor duplicates them: layouts of messages with increasing sequence numbers.
\<close>

lemma delivered_increasing:
  assumes "v2_gen_run e junk cnt rate seed gap_mod gap_span burst now g tx w = Some (True, g', tx', w')"
    and "0 \<le> tx_fd tx" and "length junk = kWireSize" and "on_wire w = []"
    and "nat cnt * (nat gap_span + 1) < 2 ^ 64 - 1" and "subseq fs (on_wire w')"
  obtains ks where "fs = map wire_layout ks" "sorted_wrt (<) (map seq_num ks)" "\<forall>m\<in>set ks. seq_num m < - 1"
proof -
  obtain ms g2 where ms: "gen_slots gap_mod gap_span (nat cnt) (gen_start seed g) = (ms, g2)" by fastforce
  have wire: "on_wire w' = map wire_layout ms"
    using v2_gen_run_spec [OF assms(1-3)] assms(4) by (auto simp: ms Let_def)
  have inc: "sorted_wrt (<) (map seq_num ms)" "\<forall>m\<in>set ms. unat (seq_num m) < 2 ^ 64 - 1"
    using gen_stream_increasing [OF ms] assms(5) by fastforce+
  obtain ks where ks: "fs = map wire_layout ks" "subseq ks ms"
    using subseq_layouts assms(6) wire by metis
  have top: "unat (- 1 :: u64) = 2 ^ 64 - 1" by (simp add: unsigned_minus_1_eq_mask mask_eq_exp_minus_1)
  have "seq_num m < - 1" if "m \<in> set ks" for m
    using that ks(2) inc(2) by (auto simp: word_less_nat_alt top dest: list_emb_set)
  moreover have "sorted_wrt (<) (map seq_num ks)"
    using subseq_sorted_wrt [OF subseq_map [OF ks(2)] inc(1)] .
  ultimately show thesis using ks(1) that by blast
qed

text \<open>
  C3. End to end. Generator v2 runs successfully; the network loses any datagrams it likes but
  neither reorders nor duplicates the others; the UDP server of engine v1 receives them and the
  consumer drains its ring. Then the counters are exact: of the received datagrams as many as
  there were free slots are received and processed, the rest are counted as drops, nothing
  fails to decode, and the gap counter is the number of sequence numbers missing between
  the first and the last frame taken, whether the generator left them out or the network lost
  them.
\<close>

theorem generator_to_counters:
  assumes "v2_gen_run e junk cnt rate seed gap_mod gap_span burst now g tx w = Some (True, g', tx', w')"
    and "0 \<le> tx_fd tx" and "length junk = kWireSize" and "on_wire w = []"
    and "nat cnt * (nat gap_span + 1) < 2 ^ 64 - 1"
    and "subseq (map rx_data ds) (on_wire w')" and "\<forall>d\<in>set ds. \<not> rx_trunc d" and "ds \<noteq> []"
    and "fp_owned p []" and "ready_frames p = []" and "rb_list (free p) \<noteq> []"
    and "length ds \<le> length stops"
  shows "let (p', m') = foldl on_datagram (p, metrics_zero) ds;
      n = min (length ds) (length (rb_list (free p)));
      first = frame_seq (rx_data (ds ! 0)); final = frame_seq (rx_data (ds ! (n - 1))) in
    \<exists>en. process_loop e' (True # stops) (msg, (v1_new 0)\<lparr>v1_pool := p', v1_m := m'\<rparr>) = Some en \<and>
      received (v1_m en) = of_nat n \<and> processed (v1_m en) = of_nat n \<and>
      drops (v1_m en) = of_nat (length ds - n) \<and> decode_errors (v1_m en) = 0 \<and>
      seq_num_gaps (v1_m en) = final - first + 1 - of_nat n"
proof -
  let ?c = "length (rb_list (free p))"
  let ?n = "min (length ds) ?c"
  obtain ks where ks: "map rx_data ds = map wire_layout ks" "sorted_wrt (<) (map seq_num ks)" "\<forall>m\<in>set ks. seq_num m < - 1"
    by (rule delivered_increasing [OF assms(1-6)])
  have len: "length ks = length ds" using ks(1) by (metis length_map)
  have data: "rx_data (ds ! i) = wire_layout (ks ! i)" if "i < length ds" for i
    using that ks(1) len by (metis nth_map)
  have wf: "\<forall>d\<in>set ds. well_formed d"
    using data assms(7) by (metis in_set_conv_nth length_wire_layout well_formed_def)
  obtain p' m' where run: "foldl on_datagram (p, metrics_zero) ds = (p', m')" by fastforce
  have srv: "fp_owned p' []" "ready_frames p' = map wire_layout (take ?c ks)"
    "m' = inc_drops (of_nat (length ds - ?n)) metrics_zero"
    using batch_spec [OF assms(9), of metrics_zero ds] wf assms(10) run
    by (simp_all add: Let_def ks(1) len take_map min.commute del: length_rb_list)
  have pos: "0 < ?n" using assms(8,11) by (simp del: length_rb_list)
  then obtain k ks' where split: "take ?c ks = k # ks'"
    using len by (cases "take ?c ks") (auto simp del: length_rb_list)
  have n: "?n = Suc (length ks')"
    using arg_cong [OF split, of length] len by (simp del: length_rb_list)
  have sub: "sorted_wrt (<) (map seq_num (k # ks'))" "\<forall>m\<in>set (k # ks'). seq_num m < - 1"
    using ks(2,3) unfolding split [symmetric] by (auto simp: take_map [symmetric] sorted_wrt_take dest: in_set_takeD)
  let ?en = "(v1_new 0)\<lparr>v1_pool := p', v1_m := m'\<rparr>"
  have "length ks' < length stops" using n assms(12) by simp
  with sub srv split obtain en where en: "process_loop e' (True # stops) (msg, ?en) = Some en"
    "received (v1_m en) = of_nat ?n" "processed (v1_m en) = of_nat ?n"
    "drops (v1_m en) = of_nat (length ds - ?n)" "decode_errors (v1_m en) = 0"
    "seq_num_gaps (v1_m en) = seq_num (last (k # ks')) - seq_num k + 1 - of_nat ?n"
    using consume_increasing [of ?en "of_nat (length ds - ?n)" k ks' stops e' msg] unfolding n
    by (auto simp: v1_new_def seq_state.defs seq_start_def simp del: process_loop.simps)
  have "k = ks ! 0" "last (k # ks') = ks ! (?n - 1)"
    using pos len split n by (metis nth_Cons_0 nth_take min_less_iff_conj, metis last_conv_nth list.distinct(1) length_Cons diff_Suc_1 nth_take lessI min_less_iff_conj split)
  moreover have "?n - 1 < length ds" "0 < length ds"
    using pos min.cobounded1 [of "length ds" ?c] by linarith+
  ultimately have "frame_seq (rx_data (ds ! 0)) = seq_num k"
    "frame_seq (rx_data (ds ! (?n - 1))) = seq_num (last (k # ks'))"
    using data by (simp_all only: frame_seq_layout)
  with en run show ?thesis by (simp only: Let_def prod.case) blast
qed

theorem generator_to_counters_witness:
  "\<exists>w' ds p' m' en. map rx_data ds = on_wire w' \<and>
     on_wire w' = map wire_layout (fst (gen_slots 0 1 2 (gen_start 42 gen_init))) \<and>
     foldl on_datagram (pool4, metrics_zero) ds = (p', m') \<and>
     process_loop Big [True, False, False] (zero_msg, (v1_new 0)\<lparr>v1_pool := p', v1_m := m'\<rparr>) = Some en \<and>
     received (v1_m en) = 2 \<and> processed (v1_m en) = 2 \<and> drops (v1_m en) = 0 \<and> decode_errors (v1_m en) = 0"
proof -
  let ?tx = "sender_new\<lparr>tx_fd := 3\<rparr>" and ?w = "\<lparr>script = [Ret 1, Ret 1], rxs = [], evs = [], trace = []\<rparr>"
  obtain g' tx' w' where run: "v2_gen_run Little (replicate kWireSize 0) 2 50000 42 0 1 2 7 gen_init ?tx ?w = Some (True, g', tx', w')"
    using demo_gen_run by blast
  obtain m1 m2 g2 where ms: "gen_slots 0 1 2 (gen_start 42 gen_init) = ([m1, m2], g2)"
    by (simp add: numeral_2_eq_2 gen_slot_def Let_def case_prod_unfold)
  have wire: "on_wire w' = [wire_layout m1, wire_layout m2]"
    using v2_gen_run_spec [OF run] by (auto simp: Let_def on_wire_def ms)
  let ?ds = "map as_datagram (on_wire w')"
  obtain p' m' where srv: "foldl on_datagram (pool4, metrics_zero) ?ds = (p', m')" by fastforce
  have data: "map rx_data ?ds = on_wire w'" by (simp add: wire)
  have n: "min 2 (length (rb_list (free pool4))) = 2" "length ?ds = 2"
    using pool4_free(1) by (simp_all add: wire del: length_rb_list)
  have trunc: "\<forall>d\<in>set ?ds. \<not> rx_trunc d" by (simp add: as_datagram_def)
  have sub: "subseq (map rx_data ?ds) (on_wire w')" unfolding data by simp
  have ne: "?ds \<noteq> []" by (simp add: wire)
  have ini: "rb_list (free pool4) \<noteq> []" "0 \<le> tx_fd ?tx" "on_wire ?w = []" "length (replicate kWireSize 0) = kWireSize"
    using pool4_free(1) by (auto simp: on_wire_def simp del: length_rb_list)
  have small: "nat 2 * (nat 1 + 1) < 2 ^ 64 - 1" by simp
  have len: "length ?ds \<le> length [False, False]" using n by simp
  note exact = generator_to_counters [OF run ini(2,4,3) small sub trunc ne pool4_owned pool4_free(2) ini(1) len,
      of Big zero_msg, unfolded n srv Let_def prod.case]
  obtain en where en: "process_loop Big [True, False, False] (zero_msg, (v1_new 0)\<lparr>v1_pool := p', v1_m := m'\<rparr>) = Some en"
    "received (v1_m en) = of_nat 2" "processed (v1_m en) = of_nat 2" "drops (v1_m en) = of_nat (2 - 2)"
    "decode_errors (v1_m en) = 0"
    using exact by blast
  have "on_wire w' = map wire_layout (fst (gen_slots 0 1 2 (gen_start 42 gen_init)))"
    unfolding wire ms by simp
  moreover have "received (v1_m en) = 2" "processed (v1_m en) = 2" "drops (v1_m en) = 0"
    using en(2-4) by simp_all
  ultimately show ?thesis using data srv en(1,5) by blast
qed

end
